(* ===== verification/Prelude.thy ===== *)
theory Prelude
  imports Main "HOL-Library.Word" "HOL-Library.Monad_Syntax"
begin

text \<open>
  Shared vocabulary of the development: byte memory, big-endian loads, the
  32-bit wrap-around of C \<open>int\<close> arithmetic, indexed stores that can fault, and
  the lemmas on the option monad that every component uses.

  Conventions used by every component theory:
  \<^item> a C++ \<open>int\<close> is an \<open>int\<close>; where the source can leave the 32-bit range the
    result goes through \<open>wrap32\<close>, because the shipped targets wrap;
  \<^item> a function that touches memory returns an option; \<open>None\<close> means that the
    source would read or write outside a live allocation (or never return);
  \<^item> an input packet is a function from positions to bytes. Bytes after the end of
    the packet are whatever the heap holds there, so a theorem that quantifies
    over the memory covers every over-read of the source.
\<close>

unbundle bit_operations_syntax

type_synonym u8 = "8 word"
type_synonym u32 = "32 word"
type_synonym mem = "nat \<Rightarrow> u8"

named_theorems returns \<open>facts of the form: this operation returns a value\<close>

section \<open>Operations that return\<close>

text \<open>
  \<open>yields Q x\<close>: the operation \<open>x\<close> neither faults nor diverges, and its result
  satisfies \<open>Q\<close>. The rules in \<open>wp\<close> decompose a program along its binds.
\<close>

definition yields :: "('a \<Rightarrow> bool) \<Rightarrow> 'a option \<Rightarrow> bool" where
  "yields Q x \<longleftrightarrow> (\<exists>y. x = Some y \<and> Q y)"

named_theorems wp \<open>rules that decompose a goal on yields\<close>

lemma yields_Some [simp]: "yields Q (Some y) \<longleftrightarrow> Q y"
  by (simp add: yields_def)

lemma yields_None [simp]: "\<not> yields Q None"
  by (simp add: yields_def)

lemma yields_bind [wp]: "yields (\<lambda>y. yields Q (f y)) x \<Longrightarrow> yields Q (x \<bind> f)"
  by (auto simp: yields_def)

lemma yields_bind_iff: "yields Q (x \<bind> f) \<longleftrightarrow> yields (\<lambda>y. yields Q (f y)) x"
  by (cases x) simp_all

lemma yields_if [wp]:
  "(c \<Longrightarrow> yields Q x) \<Longrightarrow> (\<not> c \<Longrightarrow> yields Q y) \<Longrightarrow> yields Q (if c then x else y)"
  by simp

lemma yields_SomeI [wp]: "Q y \<Longrightarrow> yields Q (Some y)"
  by simp

lemma yields_mono: "yields P x \<Longrightarrow> (\<And>y. P y \<Longrightarrow> Q y) \<Longrightarrow> yields Q x"
  by (auto simp: yields_def)

lemma yields_conj: "yields P x \<Longrightarrow> yields Q x \<Longrightarrow> yields (\<lambda>y. P y \<and> Q y) x"
  by (auto simp: yields_def)

lemma yieldsD: "yields Q x \<Longrightarrow> x = Some y \<Longrightarrow> Q y"
  by (auto simp: yields_def)

lemma yieldsE: "yields Q x \<Longrightarrow> (\<And>y. x = Some y \<Longrightarrow> Q y \<Longrightarrow> P) \<Longrightarrow> P"
  by (auto simp: yields_def)

section \<open>C integer conversions\<close>

definition wrap32 :: "int \<Rightarrow> int" where
  "wrap32 x = signed_take_bit 31 x"

definition u32_of :: "int \<Rightarrow> int" where
  "u32_of x = x mod 2 ^ 32"

definition u16_of :: "int \<Rightarrow> int" where
  "u16_of x = x mod 2 ^ 16"

definition size_of :: "int \<Rightarrow> int" where
  "size_of x = x mod 2 ^ 64"

lemma wrap32_id [simp]: "- (2 ^ 31) \<le> x \<Longrightarrow> x < 2 ^ 31 \<Longrightarrow> wrap32 x = x"
  by (simp add: wrap32_def signed_take_bit_int_eq_self)

lemma wrap32_range: "- (2 ^ 31) \<le> wrap32 x \<and> wrap32 x < 2 ^ 31"
  using signed_take_bit_int_greater_eq_minus_exp [of 31 x]
    signed_take_bit_int_less_exp [of 31 x]
  by (simp add: wrap32_def)

lemma wrap32_cong: "wrap32 x mod 2 ^ 32 = x mod 2 ^ 32"
proof -
  have "take_bit 32 (signed_take_bit 31 x) = take_bit 32 x"
  proof (rule bit_eqI)
    fix n
    show "bit (take_bit 32 (signed_take_bit 31 x)) n = bit (take_bit 32 x) n"
      by (cases "n = 31") (auto simp: bit_simps min_def)
  qed
  then show ?thesis by (simp add: wrap32_def take_bit_eq_mod)
qed

lemma wrap32_eq_iff: "wrap32 x = wrap32 y \<longleftrightarrow> x mod 2 ^ 32 = y mod 2 ^ 32"
  by (simp add: wrap32_def signed_take_bit_eq_iff_take_bit_eq take_bit_eq_mod)

lemma wrap32_diff_right: "wrap32 (x - wrap32 y) = wrap32 (x - y)"
proof -
  have "(x - wrap32 y) mod 2 ^ 32 = (x - y) mod 2 ^ 32"
    by (metis mod_diff_right_eq wrap32_cong)
  then show ?thesis by (simp only: wrap32_eq_iff)
qed

lemma u16_of_id [simp]: "0 \<le> x \<Longrightarrow> x < 65536 \<Longrightarrow> u16_of x = x"
  by (simp add: u16_of_def)

lemma u16_of_range [simp]: "0 \<le> u16_of x" "u16_of x < 65536"
  by (simp_all add: u16_of_def)

lemma u32_of_id [simp]: "0 \<le> x \<Longrightarrow> x < 2 ^ 32 \<Longrightarrow> u32_of x = x"
  by (simp add: u32_of_def)

lemma size_of_id [simp]: "0 \<le> x \<Longrightarrow> x < 2 ^ 64 \<Longrightarrow> size_of x = x"
  by (simp add: size_of_def)

section \<open>Bytes of a packet\<close>

definition mem_of :: "u8 list \<Rightarrow> mem" where
  "mem_of xs = (\<lambda>i. if i < length xs then xs ! i else 0)"

definition byte_at :: "mem \<Rightarrow> nat \<Rightarrow> int" where
  "byte_at m p = uint (m p)"

lemma byte_at_range [simp]: "0 \<le> byte_at m p" "byte_at m p < 256"
  using uint_bounded [of "m p"] by (simp_all add: byte_at_def)

lemma byte_at_le [simp]: "byte_at m p \<le> 255"
  using byte_at_range(2) [of m p] by linarith

text \<open>The bytes of a list, from a position on.\<close>

definition bytes_here :: "mem \<Rightarrow> nat \<Rightarrow> u8 list \<Rightarrow> bool" where
  "bytes_here m p bs \<longleftrightarrow> (\<forall>i < length bs. m (p + i) = bs ! i)"

lemma bytes_here_append:
  "bytes_here m p (xs @ ys) \<longleftrightarrow> bytes_here m p xs \<and> bytes_here m (p + length xs) ys"
proof -
  have "bytes_here m (p + length xs) ys" if "bytes_here m p (xs @ ys)"
    unfolding bytes_here_def
  proof (intro allI impI)
    fix i assume "i < length ys"
    then have "m (p + (length xs + i)) = (xs @ ys) ! (length xs + i)"
      using that unfolding bytes_here_def by (metis add_less_cancel_left length_append)
    then show "m (p + length xs + i) = ys ! i" by (simp add: add.assoc)
  qed
  moreover have "bytes_here m p xs" if "bytes_here m p (xs @ ys)"
    using that by (auto simp: bytes_here_def nth_append split: if_splits)
  moreover have "bytes_here m p (xs @ ys)" if "bytes_here m p xs" "bytes_here m (p + length xs) ys"
    unfolding bytes_here_def
  proof (intro allI impI)
    fix i assume i: "i < length (xs @ ys)"
    show "m (p + i) = (xs @ ys) ! i"
    proof (cases "i < length xs")
      case False
      then obtain j where j: "i = length xs + j" by (metis le_Suc_ex not_less)
      then have "m (p + length xs + j) = ys ! j"
        using that(2) i unfolding bytes_here_def by simp
      with j show ?thesis by (simp add: add.assoc)
    qed (use that(1) in \<open>simp add: bytes_here_def nth_append\<close>)
  qed
  ultimately show ?thesis by blast
qed

lemma bytes_here_Cons: "bytes_here m p (x # xs) \<longleftrightarrow> m p = x \<and> bytes_here m (p + 1) xs"
  using bytes_here_append [of m p "[x]" xs] by (simp add: bytes_here_def)

lemma bytes_here_Nil [simp]: "bytes_here m p []"
  by (simp add: bytes_here_def)

lemma or_low:
  assumes "0 \<le> b" "b < 2 ^ n"
  shows "push_bit n a OR b = 2 ^ n * a + (b :: int)"
proof -
  have "take_bit n b = b" using assms by (simp add: take_bit_int_eq_self)
  then have "bit b k \<Longrightarrow> k < n" for k by (metis bit_take_bit_iff)
  then have "push_bit n a AND b = 0" by (intro bit_eqI) (auto simp: bit_simps dest: leD)
  then have "push_bit n a OR b = push_bit n a + b" by (simp add: disjunctive_add_eq_or)
  then show ?thesis by (simp add: push_bit_eq_mult)
qed

section \<open>Indexed stores that can fault\<close>

definition store :: "'a list \<Rightarrow> int \<Rightarrow> 'a \<Rightarrow> 'a list option" where
  "store xs i v = (if 0 \<le> i \<and> i < int (length xs) then Some (xs[nat i := v]) else None)"

definition load :: "'a list \<Rightarrow> int \<Rightarrow> 'a option" where
  "load xs i = (if 0 \<le> i \<and> i < int (length xs) then Some (xs ! nat i) else None)"

lemma store_returns [returns]:
  "0 \<le> i \<Longrightarrow> i < int (length xs) \<Longrightarrow> store xs i v = Some (xs[nat i := v])"
  by (simp add: store_def)

lemma load_returns [returns]:
  "0 \<le> i \<Longrightarrow> i < int (length xs) \<Longrightarrow> load xs i = Some (xs ! nat i)"
  by (simp add: load_def)

lemma store_SomeD:
  "store xs i v = Some ys \<Longrightarrow> 0 \<le> i \<and> i < int (length xs) \<and> ys = xs[nat i := v]"
  by (simp add: store_def split: if_splits)

lemma length_store: "store xs i v = Some ys \<Longrightarrow> length ys = length xs"
  by (auto dest: store_SomeD)

lemma load_store_same: "store xs i v = Some ys \<Longrightarrow> load ys i = Some v"
  by (auto simp: load_def dest!: store_SomeD)

lemma load_store_other: "store xs i v = Some ys \<Longrightarrow> i \<noteq> j \<Longrightarrow> load ys j = load xs j"
  by (auto simp: load_def dest!: store_SomeD)

section \<open>Copying\<close>

text \<open>\<open>memcpy\<close> into a buffer.\<close>

definition put_bytes :: "int \<Rightarrow> u8 list \<Rightarrow> u8 list \<Rightarrow> u8 list option" where
  "put_bytes at bs buf =
     (if 0 \<le> at \<and> at + int (length bs) \<le> int (length buf)
      then Some (take (nat at) buf @ bs @ drop (nat at + length bs) buf) else None)"

definition bytes_from :: "mem \<Rightarrow> nat \<Rightarrow> nat \<Rightarrow> u8 list" where
  "bytes_from m p n = map (\<lambda>i. m (p + i)) [0..<n]"

text \<open>\<open>memcpy\<close> of \<open>n\<close> bytes out of a buffer.\<close>

definition get_bytes :: "int \<Rightarrow> int \<Rightarrow> u8 list \<Rightarrow> u8 list option" where
  "get_bytes at n buf =
     (if 0 \<le> at \<and> 0 \<le> n \<and> at + n \<le> int (length buf) then Some (take (nat n) (drop (nat at) buf)) else None)"

lemma length_put_bytes: "put_bytes at bs buf = Some buf' \<Longrightarrow> length buf' = length buf"
  by (auto simp: put_bytes_def split: if_splits)

lemma bytes_from_here: "bytes_here m p xs \<Longrightarrow> bytes_from m p (length xs) = xs"
  by (intro nth_equalityI) (simp_all add: bytes_from_def bytes_here_def)

lemma bytes_from_take:
  assumes "p + n \<le> length xs" "\<And>i. i < length xs \<Longrightarrow> m i = xs ! i"
  shows "bytes_from m p n = take n (drop p xs)"
  using assms by (intro nth_equalityI) (simp_all add: bytes_from_def)

section \<open>Counting loops\<close>

text \<open>\<open>for (i = 0; i < n; i++)\<close> is \<open>each\<close> over \<open>[0..n - 1]\<close>.\<close>

fun each :: "('a \<Rightarrow> 's \<Rightarrow> 's option) \<Rightarrow> 'a list \<Rightarrow> 's \<Rightarrow> 's option" where
  "each f [] s = Some s"
| "each f (x # xs) s = do { s \<leftarrow> f x s; each f xs s }"

lemma each_append: "each f (xs @ ys) s = do { s \<leftarrow> each f xs s; each f ys s }"
proof (induction xs arbitrary: s)
  case (Cons x xs)
  then show ?case by (cases "f x s") auto
qed simp

lemma each_Nil: "each f [] = Some"
  by (rule ext) simp

lemma each_yields:
  "I s \<Longrightarrow> (\<And>x s. x \<in> set xs \<Longrightarrow> I s \<Longrightarrow> yields I (f x s)) \<Longrightarrow> yields I (each f xs s)"
proof (induction xs arbitrary: s)
  case (Cons x xs)
  have "yields I (f x s)" using Cons.prems by simp
  then show ?case using Cons.IH Cons.prems(2) by (auto elim!: yieldsE)
qed simp

lemma each_upto_yields:
  assumes "P 0 s" "\<And>i s. 0 \<le> i \<Longrightarrow> i < n \<Longrightarrow> P i s \<Longrightarrow> yields (P (i + 1)) (f i s)" "0 \<le> n"
  shows "yields (P n) (each f [0..n - 1] s)"
proof -
  have "yields (P (int k)) (each f [0..int k - 1] s)" if "int k \<le> n" for k
    using that
  proof (induction k)
    case 0
    then show ?case using assms(1) by simp
  next
    case (Suc k)
    have "[0..int (Suc k) - 1] = [0..int k - 1] @ [int k]"
      by (simp add: upto_rec2)
    moreover have "yields (P (int k)) (each f [0..int k - 1] s)" using Suc by simp
    ultimately show ?case using assms(2) [of "int k"] Suc.prems
      by (auto simp: each_append each_Nil add.commute elim!: yieldsE)
  qed
  from this [of "nat n"] assms(3) show ?thesis by simp
qed

end
