(* ===== verification/Bitstream.thy ===== *)
theory Bitstream
  imports Prelude
begin

text \<open>
  The bit reader of \<open>subtitleserver/subtitle/parser/DvbCommon.h\<close> (the
  \<open>ALT_BITSTREAM_READER\<close> variant, which is the one the header selects): big-endian
  loads, \<open>init_get_bits\<close>, \<open>get_bits\<close>, \<open>get_bits1\<close>, and the reference
  semantics of a big-endian bit string that the reader is shown to implement.
\<close>

section \<open>Big-endian loads\<close>

definition AV_RB16 :: "mem \<Rightarrow> nat \<Rightarrow> int" where
  "AV_RB16 m p = foldl (\<lambda>v i. (push_bit 8 v) OR byte_at m (p + i)) 0 [0..<2]"

definition AV_RB32 :: "mem \<Rightarrow> nat \<Rightarrow> u32" where
  "AV_RB32 m p = (push_bit 24 (ucast (m p)) OR push_bit 16 (ucast (m (p + 1)))
     OR push_bit 8 (ucast (m (p + 2))) OR ucast (m (p + 3)))"

section \<open>The reader\<close>

record GetBitContext =
  gb_buffer :: "nat option"
  gb_index :: nat
  gb_size_in_bits :: int

definition init_get_bits :: "nat \<Rightarrow> int \<Rightarrow> GetBitContext" where
  "init_get_bits buffer bit_size =
     (let buffer_size = drop_bit 3 (bit_size + 7) in
      if buffer_size < 0 \<or> bit_size < 0
      then \<lparr>gb_buffer = None, gb_index = 0, gb_size_in_bits = 0\<rparr>
      else \<lparr>gb_buffer = Some buffer, gb_index = 0, gb_size_in_bits = bit_size\<rparr>)"

definition get_bits_count :: "GetBitContext \<Rightarrow> int" where
  "get_bits_count s = int (gb_index s)"

definition NEG_USR32 :: "u32 \<Rightarrow> nat \<Rightarrow> u32" where
  "NEG_USR32 a s = drop_bit (32 - s) a"

definition get_bits :: "mem \<Rightarrow> GetBitContext \<Rightarrow> nat \<Rightarrow> (int \<times> GetBitContext) option" where
  "get_bits m s n = do {
     buf \<leftarrow> gb_buffer s;
     let re_cache = push_bit (gb_index s mod 8) (AV_RB32 m (buf + gb_index s div 8));
     let tmp = NEG_USR32 re_cache n;
     Some (uint tmp, s\<lparr>gb_index := gb_index s + n\<rparr>) }"

definition get_bits1 :: "mem \<Rightarrow> GetBitContext \<Rightarrow> (int \<times> GetBitContext) option" where
  "get_bits1 m s = do {
     buf \<leftarrow> gb_buffer s;
     let result = m (buf + gb_index s div 8);
     let tmp = push_bit (gb_index s mod 8) (ucast result :: u32);
     let result = (ucast tmp :: u8);
     let result = drop_bit 7 result;
     Some (uint result, s\<lparr>gb_index := gb_index s + 1\<rparr>) }"

section \<open>Reference semantics\<close>

text \<open>Bit \<open>i\<close> of a byte string, most significant bit of a byte first.\<close>

definition be_bit :: "mem \<Rightarrow> nat \<Rightarrow> nat \<Rightarrow> bool" where
  "be_bit m buf i = bit (m (buf + i div 8)) (7 - i mod 8)"

fun be_bits :: "mem \<Rightarrow> nat \<Rightarrow> nat \<Rightarrow> nat \<Rightarrow> int" where
  "be_bits m buf i 0 = 0"
| "be_bits m buf i (Suc n) = 2 * be_bits m buf i n + of_bool (be_bit m buf (i + n))"

lemma AV_RB16_eq: "AV_RB16 m p = 256 * byte_at m p + byte_at m (p + 1)"
proof -
  have disj: "(push_bit 8 (byte_at m p)) OR byte_at m (p + 1)
      = push_bit 8 (byte_at m p) + byte_at m (p + 1)"
    by (rule disjunctive_add [symmetric])
      (auto simp: bit_simps byte_at_def dest: bit_imp_le_length)
  then show ?thesis
    by (simp add: AV_RB16_def push_bit_eq_mult upt_rec numeral_2_eq_2)
qed

lemma AV_RB16_range [simp]: "0 \<le> AV_RB16 m p" "AV_RB16 m p < 65536" "AV_RB16 m p \<le> 65535"
  using byte_at_range [of m p] byte_at_range [of m "p + 1"]
  unfolding AV_RB16_eq by linarith+

lemma AV_RB32_bit:
  assumes "j < 32"
  shows "bit (AV_RB32 m p) (31 - j) = be_bit m p j"
proof -
  from assms consider "j < 8" | "8 \<le> j" "j < 16" | "16 \<le> j" "j < 24" | "24 \<le> j" "j < 32"
    by linarith
  then show ?thesis
  proof cases
    case 1
    then show ?thesis
      by (auto simp: AV_RB32_def be_bit_def bit_simps dest: bit_imp_le_length)
  next
    case 2
    then have "j div 8 = 1" "j mod 8 = j - 8" by (auto simp: div_nat_eqI mod_if)
    with 2 show ?thesis
      by (auto simp: AV_RB32_def be_bit_def bit_simps dest: bit_imp_le_length)
  next
    case 3
    then have "j div 8 = 2" "j mod 8 = j - 16" by (auto simp: div_nat_eqI mod_if)
    with 3 show ?thesis
      by (auto simp: AV_RB32_def be_bit_def bit_simps dest: bit_imp_le_length)
  next
    case 4
    then have "j div 8 = 3" "j mod 8 = j - 24" by (auto simp: div_nat_eqI mod_if)
    with 4 show ?thesis
      by (auto simp: AV_RB32_def be_bit_def bit_simps dest: bit_imp_le_length)
  qed
qed

lemma be_bits_range: "0 \<le> be_bits m b i n \<and> be_bits m b i n < 2 ^ n"
  by (induction n) (auto simp: of_bool_def)

lemma be_bits_bit:
  "j < n \<Longrightarrow> bit (be_bits m b i n) j = be_bit m b (i + (n - 1 - j))"
proof (induction n arbitrary: j)
  case (Suc n)
  have eq: "be_bits m b i (Suc n) = of_bool (be_bit m b (i + n)) + 2 * be_bits m b i n"
    by simp
  show ?case
  proof (cases j)
    case 0
    then show ?thesis by (simp add: eq bit_0)
  next
    case (Suc k)
    with Suc.prems have "k < n" by simp
    with Suc Suc.IH show ?thesis by (simp add: eq bit_Suc)
  qed
qed simp

lemma be_bit_shift: "be_bit m (b + i div 8) (i mod 8 + j) = be_bit m b (i + j)"
proof -
  have "i div 8 + (i mod 8 + j) div 8 = (i + j) div 8"
    by (metis add.assoc div_mult_self3 mod_div_mult_eq add.commute zero_neq_numeral)
  moreover have "(i mod 8 + j) mod 8 = (i + j) mod 8" by presburger
  ultimately show ?thesis by (simp add: be_bit_def add.assoc)
qed

text \<open>Reading up to 25 bits returns exactly the next bits of the big-endian string.\<close>

lemma get_bits_cache:
  assumes "0 < n" "n \<le> 25"
  shows "uint (NEG_USR32 (push_bit (i mod 8) (AV_RB32 m (b + i div 8))) n) = be_bits m b i n"
    (is "?l = _")
proof (rule bit_eqI)
  fix j
  let ?r = "i mod 8"
  have r: "?r < 8" by simp
  show "bit ?l j = bit (be_bits m b i n) j"
  proof (cases "j < n")
    case True
    have e: "32 - n + j - ?r = 31 - (?r + (n - 1 - j))" "?r + (n - 1 - j) < 32"
      using True assms r by linarith+
    have "bit ?l j = bit (AV_RB32 m (b + i div 8)) (32 - n + j - ?r)"
      using True assms r by (auto simp: NEG_USR32_def bit_simps add.commute)
    also have "\<dots> = be_bit m (b + i div 8) (?r + (n - 1 - j))"
      unfolding e(1) by (rule AV_RB32_bit [OF e(2)])
    also have "\<dots> = be_bit m b (i + (n - 1 - j))" by (rule be_bit_shift)
    finally show ?thesis using True by (simp add: be_bits_bit)
  next
    case False
    then have "\<not> bit ?l j"
      using assms by (auto simp: NEG_USR32_def bit_simps dest: bit_imp_le_length)
    moreover have "\<not> bit (be_bits m b i n) j"
    proof -
      have "take_bit n (be_bits m b i n) = be_bits m b i n"
        using be_bits_range [of m b i n] by (simp add: take_bit_int_eq_self)
      then show ?thesis using False by (metis bit_take_bit_iff)
    qed
    ultimately show ?thesis by simp
  qed
qed

lemma get_bits_eq:
  assumes "gb_buffer s = Some b" "0 < n" "n \<le> 25"
  shows "get_bits m s n
    = Some (be_bits m b (gb_index s) n, s\<lparr>gb_index := gb_index s + n\<rparr>)"
  using assms by (simp add: get_bits_def get_bits_cache)

lemma get_bits1_eq:
  assumes "gb_buffer s = Some b"
  shows "get_bits1 m s
    = Some (be_bits m b (gb_index s) 1, s\<lparr>gb_index := gb_index s + 1\<rparr>)"
proof -
  let ?i = "gb_index s"
  have "uint (drop_bit 7 (ucast (push_bit (?i mod 8) (ucast (m (b + ?i div 8)) :: u32)) :: u8))
    = of_bool (be_bit m b ?i)" (is "?l = ?r")
  proof (rule bit_eqI)
    fix j
    show "bit ?l j = bit ?r j"
      by (cases j) (auto simp: bit_simps be_bit_def dest: bit_imp_le_length)
  qed
  with assms show ?thesis by (simp add: get_bits1_def)
qed

end
