(* ===== verification/Code_Strings.thy ===== *)
theory Code_Strings
  imports Bitstream
begin

text \<open>
  The three run-length readers of \<open>subtitle/parser/DvbParser.cpp\<close>:
  \<open>dvbsub_read_2bit_string\<close>, \<open>dvbsub_read_4bit_string\<close> and
  \<open>dvbsub_read_8bit_string\<close>. They read a code string from the packet and draw
  pixels through the pointer \<open>destbuf\<close> into one row of a region's buffer.

  The pen holds what all three share: \<open>pixelsReads\<close>, \<open>destbuf\<close> as an offset in
  the region's buffer, and that buffer. A store outside the buffer is \<open>None\<close>.
  The locale \<open>row_reader\<close> is the contract the pixel block decoder relies on: one
  iteration of a reader's loop consumes input and keeps the pen in its row.
\<close>

section \<open>The pen\<close>

record pen =
  pixelsReads :: int
  destbuf :: int
  pixels :: "u8 list"

definition put :: "int \<Rightarrow> pen \<Rightarrow> pen option" where
  "put v p = do {
     ps \<leftarrow> store (pixels p) (destbuf p) (word_of_int v);
     Some (p\<lparr>pixels := ps, destbuf := destbuf p + 1\<rparr>) }"

text \<open>\<open>while (runLen-- > 0 && pixelsReads < dbufLen) { *destbuf++ = bits; pixelsReads++; }\<close>\<close>

fun put_run :: "int \<Rightarrow> int \<Rightarrow> nat \<Rightarrow> pen \<Rightarrow> pen option" where
  "put_run dbufLen bits 0 p = Some p"
| "put_run dbufLen bits (Suc runLen) p =
     (if pixelsReads p < dbufLen
      then do {
        p \<leftarrow> put bits p;
        put_run dbufLen bits runLen (p\<lparr>pixelsReads := pixelsReads p + 1\<rparr>) }
      else Some p)"

text \<open>\<open>if (mapTable) bits = mapTable[bits];\<close>\<close>

definition map_bits :: "u8 list option \<Rightarrow> int \<Rightarrow> int option" where
  "map_bits mapTable bits =
     (case mapTable of
        None \<Rightarrow> Some bits
      | Some t \<Rightarrow> map_option uint (load t bits))"

text \<open>The step every long run of the 2-bit and 4-bit readers ends with.\<close>

definition run_or_skip ::
  "int \<Rightarrow> u8 list option \<Rightarrow> int \<Rightarrow> int \<Rightarrow> int \<Rightarrow> pen \<Rightarrow> pen option" where
  "run_or_skip nonMod mapTable dbufLen bits runLen p =
     (if nonMod = 1 \<and> bits = 1
      then Some (p\<lparr>pixelsReads := pixelsReads p + runLen\<rparr>)
      else do {
        bits \<leftarrow> map_bits mapTable bits;
        put_run dbufLen bits (nat runLen) p })"

text \<open>\<open>pixelsReads += 2; if (pixelsReads <= dbufLen) { *destbuf++ = bits; *destbuf++ = bits; }\<close>\<close>

definition put_two :: "int \<Rightarrow> int \<Rightarrow> pen \<Rightarrow> pen option" where
  "put_two dbufLen bits p =
     (let p = p\<lparr>pixelsReads := pixelsReads p + 2\<rparr> in
      if pixelsReads p \<le> dbufLen
      then do { p \<leftarrow> put bits p; put bits p }
      else Some p)"

definition put_one :: "int \<Rightarrow> pen \<Rightarrow> pen option" where
  "put_one bits p = do {
     p \<leftarrow> put bits p;
     Some (p\<lparr>pixelsReads := pixelsReads p + 1\<rparr>) }"

section \<open>One iteration of the readers\<close>

text \<open>
  An iteration returns whether the loop goes on; \<open>False\<close> is the early
  \<open>return pixelsReads\<close> of the end-of-string code.
\<close>

definition read_2bit_step ::
  "mem \<Rightarrow> int \<Rightarrow> u8 list option \<Rightarrow> int \<Rightarrow> GetBitContext \<Rightarrow> pen
     \<Rightarrow> (bool \<times> GetBitContext \<times> pen) option" where
  "read_2bit_step m nonMod mapTable dbufLen gb p = do {
     (bits, gb) \<leftarrow> get_bits m gb 2;
     if bits \<noteq> 0 then do {
       p \<leftarrow> (if nonMod \<noteq> 1 \<or> bits \<noteq> 1
             then do { v \<leftarrow> map_bits mapTable bits; put v p }
             else Some p);
       Some (True, gb, p\<lparr>pixelsReads := pixelsReads p + 1\<rparr>) }
     else do {
       (bits, gb) \<leftarrow> get_bits1 m gb;
       if bits = 1 then do {
         (r, gb) \<leftarrow> get_bits m gb 3;
         (bits, gb) \<leftarrow> get_bits m gb 2;
         p \<leftarrow> run_or_skip nonMod mapTable dbufLen bits (r + 3) p;
         Some (True, gb, p) }
       else do {
         (bits, gb) \<leftarrow> get_bits1 m gb;
         if bits = 0 then do {
           (bits, gb) \<leftarrow> get_bits m gb 2;
           if bits = 2 then do {
             (r, gb) \<leftarrow> get_bits m gb 4;
             (bits, gb) \<leftarrow> get_bits m gb 2;
             p \<leftarrow> run_or_skip nonMod mapTable dbufLen bits (r + 12) p;
             Some (True, gb, p) }
           else if bits = 3 then do {
             (r, gb) \<leftarrow> get_bits m gb 8;
             (bits, gb) \<leftarrow> get_bits m gb 2;
             p \<leftarrow> run_or_skip nonMod mapTable dbufLen bits (r + 29) p;
             Some (True, gb, p) }
           else if bits = 1 then do {
             bits \<leftarrow> map_bits mapTable 0;
             p \<leftarrow> put_two dbufLen bits p;
             Some (True, gb, p) }
           else Some (False, gb, p) }
         else do {
           bits \<leftarrow> map_bits mapTable 0;
           p \<leftarrow> put_one bits p;
           Some (True, gb, p) } } } }"

definition read_4bit_step ::
  "mem \<Rightarrow> int \<Rightarrow> u8 list option \<Rightarrow> int \<Rightarrow> GetBitContext \<Rightarrow> pen
     \<Rightarrow> (bool \<times> GetBitContext \<times> pen) option" where
  "read_4bit_step m nonMod mapTable dbufLen gb p = do {
     (bits, gb) \<leftarrow> get_bits m gb 4;
     if bits \<noteq> 0 then do {
       p \<leftarrow> (if nonMod \<noteq> 1 \<or> bits \<noteq> 1
             then do { v \<leftarrow> map_bits mapTable bits; put v p }
             else Some p);
       Some (True, gb, p\<lparr>pixelsReads := pixelsReads p + 1\<rparr>) }
     else do {
       (bits, gb) \<leftarrow> get_bits1 m gb;
       if bits = 0 then do {
         (r, gb) \<leftarrow> get_bits m gb 3;
         if r = 0 then Some (False, gb, p)
         else do {
           bits \<leftarrow> map_bits mapTable 0;
           p \<leftarrow> put_run dbufLen bits (nat (r + 2)) p;
           Some (True, gb, p) } }
       else do {
         (bits, gb) \<leftarrow> get_bits1 m gb;
         if bits = 0 then do {
           (r, gb) \<leftarrow> get_bits m gb 2;
           (bits, gb) \<leftarrow> get_bits m gb 4;
           p \<leftarrow> run_or_skip nonMod mapTable dbufLen bits (r + 4) p;
           Some (True, gb, p) }
         else do {
           (bits, gb) \<leftarrow> get_bits m gb 2;
           if bits = 2 then do {
             (r, gb) \<leftarrow> get_bits m gb 4;
             (bits, gb) \<leftarrow> get_bits m gb 4;
             p \<leftarrow> run_or_skip nonMod mapTable dbufLen bits (r + 9) p;
             Some (True, gb, p) }
           else if bits = 3 then do {
             (r, gb) \<leftarrow> get_bits m gb 8;
             (bits, gb) \<leftarrow> get_bits m gb 4;
             p \<leftarrow> run_or_skip nonMod mapTable dbufLen bits (r + 25) p;
             Some (True, gb, p) }
           else if bits = 1 then do {
             bits \<leftarrow> map_bits mapTable 0;
             p \<leftarrow> put_two dbufLen bits p;
             Some (True, gb, p) }
           else do {
             bits \<leftarrow> map_bits mapTable 0;
             p \<leftarrow> put_one bits p;
             Some (True, gb, p) } } } } }"

text \<open>The 8-bit reader is byte aligned: its input position is \<open>*srcbuf\<close> itself.\<close>

definition read_8bit_step ::
  "mem \<Rightarrow> int \<Rightarrow> u8 list option \<Rightarrow> int \<Rightarrow> nat \<Rightarrow> pen
     \<Rightarrow> (bool \<times> nat \<times> pen) option" where
  "read_8bit_step m nonMod mapTable dbufLen src p =
     (let bits = byte_at m src; src = src + 1 in
      if bits \<noteq> 0 then do {
        p \<leftarrow> (if nonMod \<noteq> 1 \<or> bits \<noteq> 1
              then do { v \<leftarrow> map_bits mapTable bits; put v p }
              else Some p);
        Some (True, src, p\<lparr>pixelsReads := pixelsReads p + 1\<rparr>) }
      else
        let bits = byte_at m src; src = src + 1; runLen = bits AND 0x7f in
        if bits AND 0x80 = 0 then
          (if runLen = 0 then Some (False, src, p)
           else do {
             bits \<leftarrow> map_bits mapTable 0;
             p \<leftarrow> put_run dbufLen bits (nat runLen) p;
             Some (True, src, p) })
        else
          let bits = byte_at m src; src = src + 1;
              p = (if nonMod = 1 \<and> bits = 1
                   then p\<lparr>pixelsReads := pixelsReads p + runLen\<rparr> else p)
          in case mapTable of
               None \<Rightarrow> do {
                 p \<leftarrow> put_run dbufLen bits (nat runLen) p;
                 Some (True, src, p) }
             | Some _ \<Rightarrow> Some (True, src, p))"

section \<open>The readers\<close>

text \<open>
  The loop of a reader: it runs while input is left (\<open>has_input\<close>) and the row is not
  full. The first component of the result is \<open>False\<close> after an early return.
\<close>

partial_function (option) reader_loop ::
  "('s \<Rightarrow> bool) \<Rightarrow> int \<Rightarrow> ('s \<Rightarrow> pen \<Rightarrow> (bool \<times> 's \<times> pen) option)
     \<Rightarrow> 's \<Rightarrow> pen \<Rightarrow> (bool \<times> 's \<times> pen) option" where
  "reader_loop has_input dbufLen step s p =
     (if has_input s \<and> pixelsReads p < dbufLen
      then do {
        (go, s, p) \<leftarrow> step s p;
        if go then reader_loop has_input dbufLen step s p else Some (False, s, p) }
      else Some (True, s, p))"

declare reader_loop.simps [code]

text \<open>
  Each reader takes the region's buffer, the offset of \<open>destbuf\<close> in it, \<open>dbufLen\<close>,
  the packet and \<open>*srcbuf\<close>, \<open>bufSize\<close>, \<open>nonMod\<close> and \<open>mapTable\<close>; it returns
  \<open>pixelsReads\<close>, the advanced \<open>*srcbuf\<close> and the buffer.
\<close>

definition dvbsub_read_2bit_string ::
  "u8 list \<Rightarrow> int \<Rightarrow> int \<Rightarrow> mem \<Rightarrow> nat \<Rightarrow> int \<Rightarrow> int \<Rightarrow> u8 list option
     \<Rightarrow> (int \<times> nat \<times> u8 list) option" where
  "dvbsub_read_2bit_string buf dest dbufLen m src bufSize nonMod mapTable = do {
     (full, gb, p) \<leftarrow> reader_loop (\<lambda>gb. get_bits_count gb < bufSize * 8) dbufLen
       (read_2bit_step m nonMod mapTable dbufLen)
       (init_get_bits src (bufSize * 8)) \<lparr>pixelsReads = 0, destbuf = dest, pixels = buf\<rparr>;
     (_, gb) \<leftarrow> (if full then get_bits m gb 6 else Some (0, gb));
     Some (pixelsReads p, src + nat (drop_bit 3 (get_bits_count gb + 7)), pixels p) }"

definition dvbsub_read_4bit_string ::
  "u8 list \<Rightarrow> int \<Rightarrow> int \<Rightarrow> mem \<Rightarrow> nat \<Rightarrow> int \<Rightarrow> int \<Rightarrow> u8 list option
     \<Rightarrow> (int \<times> nat \<times> u8 list) option" where
  "dvbsub_read_4bit_string buf dest dbufLen m src bufSize nonMod mapTable = do {
     (full, gb, p) \<leftarrow> reader_loop (\<lambda>gb. get_bits_count gb < bufSize * 8) dbufLen
       (read_4bit_step m nonMod mapTable dbufLen)
       (init_get_bits src (bufSize * 8)) \<lparr>pixelsReads = 0, destbuf = dest, pixels = buf\<rparr>;
     (_, gb) \<leftarrow> (if full then get_bits m gb 8 else Some (0, gb));
     Some (pixelsReads p, src + nat (drop_bit 3 (get_bits_count gb + 7)), pixels p) }"

definition dvbsub_read_8bit_string ::
  "u8 list \<Rightarrow> int \<Rightarrow> int \<Rightarrow> mem \<Rightarrow> nat \<Rightarrow> int \<Rightarrow> int \<Rightarrow> u8 list option
     \<Rightarrow> (int \<times> nat \<times> u8 list) option" where
  "dvbsub_read_8bit_string buf dest dbufLen m src bufSize nonMod mapTable = do {
     (full, s, p) \<leftarrow> reader_loop (\<lambda>s. int s < int src + bufSize) dbufLen
       (read_8bit_step m nonMod mapTable dbufLen)
       src \<lparr>pixelsReads = 0, destbuf = dest, pixels = buf\<rparr>;
     Some (pixelsReads p, if full then s + 1 else s, pixels p) }"

section \<open>Pens that stay in their row\<close>

text \<open>
  \<open>in_row b d buf p\<close>: the pen started at offset \<open>b\<close> of the buffer \<open>buf\<close>, for a row of
  \<open>d\<close> pixels; it has not left the row and has changed nothing outside it.
\<close>

definition in_row :: "int \<Rightarrow> int \<Rightarrow> u8 list \<Rightarrow> pen \<Rightarrow> bool" where
  "in_row b d buf p \<longleftrightarrow>
     0 \<le> b \<and> b + d \<le> int (length buf) \<and> length (pixels p) = length buf \<and>
     0 \<le> pixelsReads p \<and> b \<le> destbuf p \<and> destbuf p \<le> b + pixelsReads p \<and> destbuf p \<le> b + d \<and>
     (\<forall>i < length buf. int i < b \<or> b + d \<le> int i \<longrightarrow> pixels p ! i = buf ! i)"

lemma put_yields:
  assumes "in_row b d buf p" "destbuf p < b + d"
    and "\<And>ps. in_row b d buf (p\<lparr>pixels := ps\<rparr>)
      \<Longrightarrow> Q (p\<lparr>pixels := ps, destbuf := destbuf p + 1\<rparr>)"
  shows "yields Q (put v p)"
proof -
  let ?ps = "(pixels p)[nat (destbuf p) := word_of_int v]"
  have st: "store (pixels p) (destbuf p) (word_of_int v) = Some ?ps"
    using assms(1,2) by (intro store_returns) (auto simp: in_row_def)
  have "in_row b d buf (p\<lparr>pixels := ?ps\<rparr>)"
    using assms(1,2) by (auto simp: in_row_def nth_list_update)
  then show ?thesis using st assms(3) by (simp add: put_def)
qed

lemma in_row_skip [simp]:
  "in_row b d buf p \<Longrightarrow> 0 \<le> k \<Longrightarrow> in_row b d buf (p\<lparr>pixelsReads := pixelsReads p + k\<rparr>)"
  by (auto simp: in_row_def)

lemma put_one_yields:
  assumes "in_row b d buf p" "pixelsReads p < d"
    and "\<And>q. in_row b d buf (q\<lparr>pixelsReads := pixelsReads q + 1\<rparr>) \<Longrightarrow> Q q"
  shows "yields Q (put v p)"
  using assms by (intro put_yields [where b = b and d = d and buf = buf]) (auto simp: in_row_def)

lemma put_one_in_row:
  assumes "in_row b d buf p" "pixelsReads p < d"
    and "\<And>q. in_row b d buf q \<Longrightarrow> Q q"
  shows "yields Q (put_one v p)"
  unfolding put_one_def
  using assms by (intro wp put_yields [where b = b and d = d and buf = buf]) (auto simp: in_row_def)

lemma put_run_in_row:
  assumes "in_row b d buf p" and "\<And>q. in_row b d buf q \<Longrightarrow> Q q"
  shows "yields Q (put_run d v n p)"
  using assms(1)
proof (induction n arbitrary: p)
  case (Suc n)
  show ?case
  proof (cases "pixelsReads p < d")
    case True
    have "yields Q (put_run d v n (p\<lparr>pixels := ps, destbuf := destbuf p + 1,
        pixelsReads := pixelsReads p + 1\<rparr>))"
      if "in_row b d buf (p\<lparr>pixels := ps\<rparr>)" for ps
      using that True Suc.prems by (intro Suc.IH) (auto simp: in_row_def)
    with True Suc.prems show ?thesis
      by (auto intro!: wp put_yields [where b = b and d = d and buf = buf] simp: in_row_def)
  qed (use Suc.prems assms(2) in simp)
qed (use assms(2) in simp)

lemma put_two_in_row:
  assumes "in_row b d buf p" "\<And>q. in_row b d buf q \<Longrightarrow> Q q"
  shows "yields Q (put_two d v p)"
  using assms unfolding put_two_def Let_def
  by (intro wp) (auto intro!: put_yields [where b = b and d = d and buf = buf] simp: in_row_def)

definition map_fits :: "int \<Rightarrow> u8 list option \<Rightarrow> bool" where
  "map_fits n t \<longleftrightarrow> (case t of None \<Rightarrow> True | Some xs \<Rightarrow> n \<le> int (length xs))"

lemma map_bits_yields:
  assumes "map_fits n t" "0 \<le> v" "v < n" "\<And>w. Q w"
  shows "yields Q (map_bits t v)"
  using assms by (auto simp: map_bits_def map_fits_def load_def split: option.splits)

lemma run_or_skip_in_row:
  assumes "in_row b d buf p" "map_fits n t" "0 \<le> v" "v < n" "0 \<le> r"
    and "\<And>q. in_row b d buf q \<Longrightarrow> Q q"
  shows "yields Q (run_or_skip nm t d v r p)"
  using assms unfolding run_or_skip_def
  by (intro wp map_bits_yields [where n = n] put_run_in_row [where b = b and buf = buf])
    (auto simp: in_row_def)

lemma get_bits_yields:
  assumes "gb_buffer s = Some b" "0 < n" "n \<le> 25"
    and "\<And>v. 0 \<le> v \<Longrightarrow> v < 2 ^ n \<Longrightarrow> Q (v, s\<lparr>gb_index := gb_index s + n\<rparr>)"
  shows "yields Q (get_bits m s n)"
  using assms be_bits_range [of m b "gb_index s" n] by (simp add: get_bits_eq)

lemma get_bits1_yields:
  assumes "gb_buffer s = Some b"
    and "\<And>v. 0 \<le> v \<Longrightarrow> v < 2 \<Longrightarrow> Q (v, s\<lparr>gb_index := gb_index s + 1\<rparr>)"
  shows "yields Q (get_bits1 m s)"
  using assms be_bits_range [of m b "gb_index s" 1] by (simp add: get_bits1_eq)

section \<open>The contract of a reader's iteration\<close>

text \<open>
  What the loop needs of an iteration: on a pen inside its row that is not full, it
  returns, consumes at least one and at most \<open>width\<close> units of input, and keeps the
  pen in its row. Termination, memory safety and the bound on the input consumed
  follow for the whole reader.
\<close>

locale row_reader =
  fixes pos :: "'s \<Rightarrow> nat" and ok :: "'s \<Rightarrow> bool"
    and d :: int and width :: nat
    and step :: "'s \<Rightarrow> pen \<Rightarrow> (bool \<times> 's \<times> pen) option"
  assumes step_in_row:
    "ok s \<Longrightarrow> in_row b d buf p \<Longrightarrow> pixelsReads p < d \<Longrightarrow>
       yields (\<lambda>(go, t, q). ok t \<and> pos s < pos t \<and> pos t \<le> pos s + width \<and> in_row b d buf q) (step s p)"
begin

lemma loop_in_row:
  assumes "\<And>s. has_input s \<longleftrightarrow> pos s < limit"
    and "ok s" "in_row b d buf p" "pos s \<le> limit + width"
  shows "yields (\<lambda>(full, t, q). ok t \<and> pos s \<le> pos t \<and> pos t \<le> limit + width \<and> in_row b d buf q)
           (reader_loop has_input d step s p)"
  using assms(2-)
proof (induction "limit - pos s" arbitrary: s p rule: less_induct)
  case less
  show ?case
  proof (cases "has_input s \<and> pixelsReads p < d")
    case False
    then show ?thesis using less.prems by (subst reader_loop.simps) auto
  next
    case True
    have "yields (\<lambda>(go, t, q). ok t \<and> pos s < pos t \<and> pos t \<le> pos s + width \<and> in_row b d buf q)
        (step s p)"
      using True less.prems by (intro step_in_row) auto
    then obtain go t q where st: "step s p = Some (go, t, q)"
      and t: "ok t" "pos s < pos t" "pos t \<le> pos s + width" "in_row b d buf q"
      by (auto elim!: yieldsE)
    have lim: "pos t \<le> limit + width" using t True assms(1) [of s] by simp
    have "yields (\<lambda>(full, u, r). ok u \<and> pos t \<le> pos u \<and> pos u \<le> limit + width \<and> in_row b d buf r)
        (reader_loop has_input d step t q)"
      using t lim True assms(1) [of s] by (intro less.hyps) auto
    then have "yields (\<lambda>(full, u, r). ok u \<and> pos s \<le> pos u \<and> pos u \<le> limit + width \<and> in_row b d buf r)
        (reader_loop has_input d step t q)"
      using t by (auto elim!: yields_mono)
    with True st t lim show ?thesis
      by (subst reader_loop.simps) auto
  qed
qed

end

lemmas pen_wp = wp put_one_yields put_one_in_row put_two_in_row put_run_in_row
  run_or_skip_in_row map_bits_yields get_bits_yields get_bits1_yields

lemma read_2bit_step_in_row:
  assumes "gb_buffer gb = Some sb" "map_fits 4 t" "in_row b d buf p" "pixelsReads p < d"
  shows "yields (\<lambda>(go, gb', q). gb_buffer gb' = Some sb \<and> gb_index gb < gb_index gb' \<and>
      gb_index gb' \<le> gb_index gb + 16 \<and> in_row b d buf q) (read_2bit_step m nm t d gb p)"
  unfolding read_2bit_step_def
  using assms by (auto intro!: pen_wp)

lemma read_4bit_step_in_row:
  assumes "gb_buffer gb = Some sb" "map_fits 16 t" "in_row b d buf p" "pixelsReads p < d"
  shows "yields (\<lambda>(go, gb', q). gb_buffer gb' = Some sb \<and> gb_index gb < gb_index gb' \<and>
      gb_index gb' \<le> gb_index gb + 20 \<and> in_row b d buf q) (read_4bit_step m nm t d gb p)"
  unfolding read_4bit_step_def
  using assms by (auto intro!: pen_wp)

lemma read_8bit_step_in_row:
  assumes "map_fits 256 t" "in_row b d buf p" "pixelsReads p < d"
  shows "yields (\<lambda>(go, src', q). src < src' \<and> src' \<le> src + 3 \<and> in_row b d buf q)
      (read_8bit_step m nm t d src p)"
proof -
  have pos: "0 \<le> byte_at m k AND 0x7f" for k by simp
  show ?thesis
    unfolding read_8bit_step_def
    using assms pos by (auto intro!: pen_wp simp: Let_def split: option.split)
qed

interpretation two: row_reader gb_index
  "\<lambda>gb. gb_buffer gb = Some sb \<and> map_fits 4 t" d 16 "read_2bit_step m nm t d"
  for sb t d m nm
  by unfold_locales (auto elim!: yields_mono dest: read_2bit_step_in_row)

interpretation four: row_reader gb_index
  "\<lambda>gb. gb_buffer gb = Some sb \<and> map_fits 16 t" d 20 "read_4bit_step m nm t d"
  for sb t d m nm
  by unfold_locales (auto elim!: yields_mono dest: read_4bit_step_in_row)

interpretation eight: row_reader "\<lambda>src. src" "\<lambda>src. map_fits 256 t" d 3 "read_8bit_step m nm t d"
  for t d m nm
  by unfold_locales (auto elim!: yields_mono dest: read_8bit_step_in_row)

section \<open>The readers stay in their row\<close>

text \<open>
  \<open>row_frame dest dbufLen buf buf'\<close>: the buffers have the same size and differ at
  most in the row.
\<close>

definition row_frame :: "int \<Rightarrow> int \<Rightarrow> u8 list \<Rightarrow> u8 list \<Rightarrow> bool" where
  "row_frame dest dbufLen buf buf' \<longleftrightarrow> length buf' = length buf \<and>
     (\<forall>i < length buf. int i < dest \<or> dest + dbufLen \<le> int i \<longrightarrow> buf' ! i = buf ! i)"

lemma in_row_start:
  "0 \<le> dest \<Longrightarrow> 0 \<le> d \<Longrightarrow> dest + d \<le> int (length buf) \<Longrightarrow>
     in_row dest d buf \<lparr>pixelsReads = 0, destbuf = dest, pixels = buf\<rparr>"
  by (simp add: in_row_def)

lemma in_row_frame: "in_row dest d buf p \<Longrightarrow> 0 \<le> pixelsReads p \<and> row_frame dest d buf (pixels p)"
  by (simp add: in_row_def row_frame_def)

lemma init_get_bits_buffer:
  "0 \<le> n \<Longrightarrow> gb_buffer (init_get_bits src n) = Some src \<and> gb_index (init_get_bits src n) = 0"
  by (simp add: init_get_bits_def Let_def)

lemma read_2bit_string_in_row:
  assumes "0 \<le> dest" "0 \<le> d" "dest + d \<le> int (length buf)" "0 \<le> n" "map_fits 4 t"
  shows "yields (\<lambda>(px, src', buf'). 0 \<le> px \<and> src \<le> src' \<and> int src' \<le> int src + n + 4 \<and>
      row_frame dest d buf buf') (dvbsub_read_2bit_string buf dest d m src n nm t)"
proof -
  let ?gb = "init_get_bits src (n * 8)"
  let ?p = "\<lparr>pixelsReads = 0, destbuf = dest, pixels = buf\<rparr>"
  have "yields (\<lambda>(full, gb, q). (gb_buffer gb = Some src \<and> map_fits 4 t) \<and> gb_index ?gb \<le> gb_index gb \<and>
      gb_index gb \<le> nat (n * 8) + 16 \<and> in_row dest d buf q)
      (reader_loop (\<lambda>gb. get_bits_count gb < n * 8) d (read_2bit_step m nm t d) ?gb ?p)"
    using assms by (intro two.loop_in_row)
      (auto simp: get_bits_count_def init_get_bits_buffer intro!: in_row_start)
  then show ?thesis
    using assms(4) unfolding dvbsub_read_2bit_string_def
    by (auto intro!: wp elim!: yields_mono get_bits_yields dest!: in_row_frame
        simp: get_bits_count_def drop_bit_eq_div nat_add_distrib zdiv_int)
qed

lemma read_4bit_string_in_row:
  assumes "0 \<le> dest" "0 \<le> d" "dest + d \<le> int (length buf)" "0 \<le> n" "map_fits 16 t"
  shows "yields (\<lambda>(px, src', buf'). 0 \<le> px \<and> src \<le> src' \<and> int src' \<le> int src + n + 4 \<and>
      row_frame dest d buf buf') (dvbsub_read_4bit_string buf dest d m src n nm t)"
proof -
  let ?gb = "init_get_bits src (n * 8)"
  let ?p = "\<lparr>pixelsReads = 0, destbuf = dest, pixels = buf\<rparr>"
  have "yields (\<lambda>(full, gb, q). (gb_buffer gb = Some src \<and> map_fits 16 t) \<and> gb_index ?gb \<le> gb_index gb \<and>
      gb_index gb \<le> nat (n * 8) + 20 \<and> in_row dest d buf q)
      (reader_loop (\<lambda>gb. get_bits_count gb < n * 8) d (read_4bit_step m nm t d) ?gb ?p)"
    using assms by (intro four.loop_in_row)
      (auto simp: get_bits_count_def init_get_bits_buffer intro!: in_row_start)
  then show ?thesis
    using assms(4) unfolding dvbsub_read_4bit_string_def
    by (auto intro!: wp elim!: yields_mono get_bits_yields dest!: in_row_frame
        simp: get_bits_count_def drop_bit_eq_div nat_add_distrib zdiv_int)
qed

lemma read_8bit_string_in_row:
  assumes "0 \<le> dest" "0 \<le> d" "dest + d \<le> int (length buf)" "0 \<le> n" "map_fits 256 t"
  shows "yields (\<lambda>(px, src', buf'). 0 \<le> px \<and> src \<le> src' \<and> int src' \<le> int src + n + 4 \<and>
      row_frame dest d buf buf') (dvbsub_read_8bit_string buf dest d m src n nm t)"
proof -
  let ?p = "\<lparr>pixelsReads = 0, destbuf = dest, pixels = buf\<rparr>"
  have "yields (\<lambda>(full, s, q). map_fits 256 t \<and> src \<le> s \<and> s \<le> nat (int src + n) + 3 \<and>
      in_row dest d buf q)
      (reader_loop (\<lambda>s. int s < int src + n) d (read_8bit_step m nm t d) src ?p)"
    using assms by (intro eight.loop_in_row) (auto intro!: in_row_start)
  then show ?thesis
    using assms(4) unfolding dvbsub_read_8bit_string_def
    by (auto intro!: wp elim!: yields_mono dest!: in_row_frame)
qed

section \<open>What the pixel block decoder needs of a reader\<close>

text \<open>
  A reader called with an empty input budget (\<open>n = 0\<close>) may be given a row outside the
  buffer; it must then leave the buffer alone. \<open>k\<close> is the number of pixel values a
  map table must cover.
\<close>

locale string_reader =
  fixes k :: int
    and reader :: "u8 list \<Rightarrow> int \<Rightarrow> int \<Rightarrow> mem \<Rightarrow> nat \<Rightarrow> int \<Rightarrow> int \<Rightarrow> u8 list option
      \<Rightarrow> (int \<times> nat \<times> u8 list) option"
  assumes reader_in_row:
    "0 \<le> dest \<Longrightarrow> 0 \<le> d \<Longrightarrow> dest + d \<le> int (length buf) \<Longrightarrow> 0 \<le> n \<Longrightarrow> map_fits k t \<Longrightarrow>
       yields (\<lambda>(px, src', buf'). 0 \<le> px \<and> src \<le> src' \<and> int src' \<le> int src + n + 4 \<and>
         row_frame dest d buf buf') (reader buf dest d m src n nm t)"
    and reader_idle: "reader buf dest d m src 0 nm t = Some (0, src + 1, buf)"
begin

lemma reader_total:
  assumes "0 \<le> dest" "0 \<le> d" "n = 0 \<or> dest + d \<le> int (length buf)" "0 \<le> n" "map_fits k t"
  shows "yields (\<lambda>(px, src', buf'). 0 \<le> px \<and> src \<le> src' \<and> int src' \<le> int src + n + 4 \<and>
    row_frame dest d buf buf') (reader buf dest d m src n nm t)"
proof (cases "n = 0")
  case True
  then show ?thesis by (simp add: reader_idle row_frame_def)
next
  case False
  with assms show ?thesis by (intro reader_in_row) auto
qed

end

lemma reader_loop_idle: "\<not> has_input s \<Longrightarrow> reader_loop has_input d step s p = Some (True, s, p)"
  by (subst reader_loop.simps) simp

interpretation reader2: string_reader 4 dvbsub_read_2bit_string
proof unfold_locales
  show "dvbsub_read_2bit_string buf dest d m src 0 nm t = Some (0, src + 1, buf)" for buf dest d m src nm t
    by (simp add: dvbsub_read_2bit_string_def reader_loop_idle get_bits_count_def
        init_get_bits_def Let_def get_bits_def)
qed (rule read_2bit_string_in_row)

interpretation reader4: string_reader 16 dvbsub_read_4bit_string
proof unfold_locales
  show "dvbsub_read_4bit_string buf dest d m src 0 nm t = Some (0, src + 1, buf)" for buf dest d m src nm t
    by (simp add: dvbsub_read_4bit_string_def reader_loop_idle get_bits_count_def
        init_get_bits_def Let_def get_bits_def)
qed (rule read_4bit_string_in_row)

interpretation reader8: string_reader 256 dvbsub_read_8bit_string
proof unfold_locales
  show "dvbsub_read_8bit_string buf dest d m src 0 nm t = Some (0, src + 1, buf)" for buf dest d m src nm t
    by (simp add: dvbsub_read_8bit_string_def reader_loop_idle)
qed (rule read_8bit_string_in_row)

end
