(* ===== verification/Dvb_Context.thy ===== *)
theory Dvb_Context
  imports Prelude
begin

text \<open>
  The decoder state of \<open>DvbParser.cpp\<close>: \<open>DVBSubContext\<close> and the nodes it owns, the
  lookups \<open>getObject\<close>, \<open>getClut\<close>, \<open>getRegion\<close>, and the routines that free them.

  \<open>DVBSubObjectDisplay\<close> nodes sit in two lists at once (their region's and their
  object's), so they live in a heap from addresses to nodes, and both lists hold
  addresses; a freed address is no longer in the heap, and reading it is \<open>None\<close>. All
  other nodes sit in one list and are values of that list. The invariant \<open>linked\<close>
  says that the two kinds of lists agree and cover the heap: no node dangles, none is
  freed twice and none leaks.
\<close>

section \<open>Nodes\<close>

text \<open>
  \<open>clut4\<close>, \<open>clut16\<close> and \<open>clut256\<close> are adjacent arrays of one struct and the code
  indexes them with unchecked bytes, so the model keeps the struct's 276 words as one
  list: \<open>clut4\<close> starts at 0, \<open>clut16\<close> at 4 and \<open>clut256\<close> at 20.
\<close>

record DVBSubCLUT =
  clut_id :: int
  clut_words :: "u32 list"

definition clut4 :: int where "clut4 = 0"
definition clut16 :: int where "clut16 = 4"
definition clut256 :: int where "clut256 = 20"
definition CLUT_WORDS :: nat where "CLUT_WORDS = 276"

record DVBSubObjectDisplay =
  od_objectId :: int
  od_regionId :: int
  od_xPos :: int
  od_yPos :: int
  od_fgcolor :: int
  od_bgcolor :: int

record DVBSubObject =
  obj_id :: int
  obj_type :: int
  obj_displayList :: "nat list"

record DVBSubRegionDisplay =
  rd_regionId :: int
  rd_xPos :: int
  rd_yPos :: int

text \<open>A null \<open>pbuf\<close> is a buffer with no accessible byte, the empty list.\<close>

record DVBSubRegion =
  reg_id :: int
  reg_width :: int
  reg_height :: int
  reg_depth :: int
  reg_clut :: int
  reg_bgcolor :: int
  reg_pbuf :: "u8 list"
  reg_bufSize :: int
  reg_displayList :: "nat list"

record DVBSubDisplayDefinition =
  dd_version :: int
  dd_x :: int
  dd_y :: int
  dd_width :: int
  dd_height :: int

record DVBSubContext =
  compositionId :: int
  ancillaryId :: int
  lastSpuOriginDisplayW :: int
  lastSpuOriginDisplayH :: int
  timeOut :: int
  regionList :: "DVBSubRegion list"
  clutList :: "DVBSubCLUT list"
  objectList :: "DVBSubObject list"
  displayListSize :: int
  displayList :: "DVBSubRegionDisplay list"
  displayDefinition :: "DVBSubDisplayDefinition option"
  od_heap :: "nat \<rightharpoonup> DVBSubObjectDisplay"
  od_next :: nat

definition new_context :: DVBSubContext where
  "new_context = \<lparr>compositionId = 0, ancillaryId = 0, lastSpuOriginDisplayW = 0,
     lastSpuOriginDisplayH = 0, timeOut = 0, regionList = [], clutList = [], objectList = [],
     displayListSize = 0, displayList = [], displayDefinition = None,
     od_heap = Map.empty, od_next = 0\<rparr>"

section \<open>Lookups\<close>

definition getObject :: "DVBSubContext \<Rightarrow> int \<Rightarrow> DVBSubObject option" where
  "getObject ctx objectId = List.find (\<lambda>p. obj_id p = objectId) (objectList ctx)"

definition getClut :: "DVBSubContext \<Rightarrow> int \<Rightarrow> DVBSubCLUT option" where
  "getClut ctx clutId = List.find (\<lambda>p. clut_id p = clutId) (clutList ctx)"

definition getRegion :: "DVBSubContext \<Rightarrow> int \<Rightarrow> DVBSubRegion option" where
  "getRegion ctx regionId = List.find (\<lambda>p. reg_id p = regionId) (regionList ctx)"

text \<open>Writing through, and unlinking, the node that such a lookup returned.\<close>

fun update_node :: "('a \<Rightarrow> int) \<Rightarrow> int \<Rightarrow> ('a \<Rightarrow> 'a) \<Rightarrow> 'a list \<Rightarrow> 'a list" where
  "update_node key k f [] = []"
| "update_node key k f (x # xs) =
     (if key x = k then f x # xs else x # update_node key k f xs)"

fun remove_node :: "('a \<Rightarrow> int) \<Rightarrow> int \<Rightarrow> 'a list \<Rightarrow> 'a list" where
  "remove_node key k [] = []"
| "remove_node key k (x # xs) = (if key x = k then xs else x # remove_node key k xs)"

definition update_object :: "int \<Rightarrow> (DVBSubObject \<Rightarrow> DVBSubObject) \<Rightarrow> DVBSubContext \<Rightarrow> DVBSubContext" where
  "update_object k f ctx = ctx\<lparr>objectList := update_node obj_id k f (objectList ctx)\<rparr>"

definition update_clut :: "int \<Rightarrow> (DVBSubCLUT \<Rightarrow> DVBSubCLUT) \<Rightarrow> DVBSubContext \<Rightarrow> DVBSubContext" where
  "update_clut k f ctx = ctx\<lparr>clutList := update_node clut_id k f (clutList ctx)\<rparr>"

definition update_region :: "int \<Rightarrow> (DVBSubRegion \<Rightarrow> DVBSubRegion) \<Rightarrow> DVBSubContext \<Rightarrow> DVBSubContext" where
  "update_region k f ctx = ctx\<lparr>regionList := update_node reg_id k f (regionList ctx)\<rparr>"

section \<open>Freeing\<close>

text \<open>
  The walk of \<open>deleteRegionDisplayList\<close> along an object's display list: every node it
  passes is read for its \<open>objectListNext\<close>, so it must be live. The flag tells whether
  the node was found and unlinked.
\<close>

fun unlink :: "(nat \<rightharpoonup> DVBSubObjectDisplay) \<Rightarrow> nat \<Rightarrow> nat list \<Rightarrow> (bool \<times> nat list) option" where
  "unlink h a [] = Some (False, [])"
| "unlink h a (x # xs) =
     (if h x = None then None
      else if x = a then Some (True, xs)
      else do { (found, ys) \<leftarrow> unlink h a xs; Some (found, x # ys) })"

text \<open>The loop of \<open>deleteRegionDisplayList\<close>, over the region's display list.\<close>

fun deleteRegionDisplayList :: "DVBSubContext \<Rightarrow> nat list \<Rightarrow> DVBSubContext option" where
  "deleteRegionDisplayList ctx [] = Some ctx"
| "deleteRegionDisplayList ctx (a # rest) = do {
     display \<leftarrow> od_heap ctx a;
     ctx \<leftarrow> (case getObject ctx (od_objectId display) of
         None \<Rightarrow> Some ctx
       | Some object \<Rightarrow> do {
           (found, ds) \<leftarrow> unlink (od_heap ctx) a (obj_displayList object);
           if \<not> found then Some ctx
           else if ds = []
             then Some (ctx\<lparr>objectList := remove_node obj_id (obj_id object) (objectList ctx)\<rparr>)
             else Some (update_object (obj_id object) (\<lambda>ob. ob\<lparr>obj_displayList := ds\<rparr>) ctx) });
     deleteRegionDisplayList (ctx\<lparr>od_heap := (od_heap ctx)(a := None)\<rparr>) rest }"

definition deleteCluts :: "DVBSubContext \<Rightarrow> DVBSubContext" where
  "deleteCluts ctx = ctx\<lparr>clutList := []\<rparr>"

definition deleteObjects :: "DVBSubContext \<Rightarrow> DVBSubContext" where
  "deleteObjects ctx = ctx\<lparr>objectList := []\<rparr>"

fun delete_region_nodes :: "DVBSubContext \<Rightarrow> DVBSubRegion list \<Rightarrow> DVBSubContext option" where
  "delete_region_nodes ctx [] = Some ctx"
| "delete_region_nodes ctx (region # rest) = do {
     ctx \<leftarrow> deleteRegionDisplayList (ctx\<lparr>regionList := rest\<rparr>) (reg_displayList region);
     delete_region_nodes ctx rest }"

definition deleteRegions :: "DVBSubContext \<Rightarrow> DVBSubContext option" where
  "deleteRegions ctx = delete_region_nodes ctx (regionList ctx)"

section \<open>Lists of nodes with a key\<close>

text \<open>
  The three lookups share one contract: a list of nodes, a key, and the walk that
  finds the first node with a key.
\<close>

locale keyed_nodes =
  fixes key :: "'a \<Rightarrow> int" and nodes :: "'c \<Rightarrow> 'a list" and get :: "'c \<Rightarrow> int \<Rightarrow> 'a option"
  assumes get_nodes: "get c k = List.find (\<lambda>x. key x = k) (nodes c)"
begin

lemma get_SomeD: "get c k = Some x \<Longrightarrow> x \<in> set (nodes c) \<and> key x = k"
  by (auto simp: get_nodes find_Some_iff in_set_conv_nth)

lemma get_None_iff: "get c k = None \<longleftrightarrow> k \<notin> key ` set (nodes c)"
  by (auto simp: get_nodes find_None_iff)

lemma get_member:
  assumes "distinct (map key (nodes c))" "x \<in> set (nodes c)"
  shows "get c (key x) = Some x"
proof -
  have "List.find (\<lambda>y. key y = key x) xs = Some x"
    if "distinct (map key xs)" "x \<in> set xs" for xs
    using that by (induction xs) force+
  with assms show ?thesis by (simp add: get_nodes)
qed

lemma get_push:
  "nodes c' = x # nodes c \<Longrightarrow> get c' k = (if key x = k then Some x else get c k)"
  by (simp add: get_nodes)

lemma get_update:
  assumes "nodes c' = update_node key k f (nodes c)" "\<And>x. key (f x) = key x"
  shows "get c' j = (if j = k then map_option f (get c k) else get c j)"
proof -
  have "List.find (\<lambda>x. key x = j) (update_node key k f xs)
      = (if j = k then map_option f (List.find (\<lambda>x. key x = k) xs) else List.find (\<lambda>x. key x = j) xs)"
    for xs using assms(2) by (induction xs) auto
  with assms(1) show ?thesis by (simp add: get_nodes)
qed

end

interpretation objects: keyed_nodes obj_id objectList getObject
  by unfold_locales (simp add: getObject_def)

interpretation cluts: keyed_nodes clut_id clutList getClut
  by unfold_locales (simp add: getClut_def)

interpretation regions: keyed_nodes reg_id regionList getRegion
  by unfold_locales (simp add: getRegion_def)

lemma map_update_node:
  "(\<And>x. g (f x) = g x) \<Longrightarrow> map g (update_node key k f xs) = map g xs"
  by (induction xs) auto

lemma set_update_node:
  "distinct (map key xs) \<Longrightarrow> (\<And>x. key (f x) = key x) \<Longrightarrow>
     set (update_node key k f xs) = (\<lambda>x. if key x = k then f x else x) ` set xs"
  by (induction xs) (force simp: image_iff)+

lemma set_remove_node:
  "distinct (map key xs) \<Longrightarrow> set (remove_node key k xs) = {x \<in> set xs. key x \<noteq> k}"
  by (induction xs) (auto simp: rev_image_eqI)

lemma distinct_remove_node:
  "distinct (map key xs) \<Longrightarrow> distinct (map key (remove_node key k xs))"
  by (induction xs) (auto simp: set_remove_node)

section \<open>The links between regions, objects and displays\<close>

text \<open>
  \<open>object_links\<close>: the display lists of the objects partition the heap, and each node
  is in the list of the object it names. \<open>region_links ds rs\<close>: the display lists of the
  regions \<open>rs\<close>, with the pending list \<open>ds\<close>, partition the heap too.
\<close>

definition object_links :: "DVBSubContext \<Rightarrow> bool" where
  "object_links ctx \<longleftrightarrow>
     distinct (map obj_id (objectList ctx)) \<and>
     (\<forall>ob \<in> set (objectList ctx). distinct (obj_displayList ob)) \<and>
     (\<forall>ob \<in> set (objectList ctx). \<forall>a \<in> set (obj_displayList ob).
        \<exists>d. od_heap ctx a = Some d \<and> od_objectId d = obj_id ob) \<and>
     (\<forall>a d. od_heap ctx a = Some d \<longrightarrow>
        (\<exists>ob \<in> set (objectList ctx). obj_id ob = od_objectId d \<and> a \<in> set (obj_displayList ob)))"

definition region_links :: "DVBSubContext \<Rightarrow> nat list \<Rightarrow> DVBSubRegion list \<Rightarrow> bool" where
  "region_links ctx ds rs \<longleftrightarrow>
     distinct (ds @ concat (map reg_displayList rs)) \<and>
     dom (od_heap ctx) = set (ds @ concat (map reg_displayList rs)) \<and>
     (\<forall>r \<in> set rs. \<forall>a \<in> set (reg_displayList r).
        \<forall>d. od_heap ctx a = Some d \<longrightarrow> od_regionId d = reg_id r) \<and>
     (\<forall>a \<in> dom (od_heap ctx). a < od_next ctx)"

definition linked :: "DVBSubContext \<Rightarrow> bool" where
  "linked ctx \<longleftrightarrow> object_links ctx \<and> region_links ctx [] (regionList ctx)"

lemma linked_new_context: "linked new_context"
  by (simp add: linked_def object_links_def region_links_def new_context_def)

lemma object_links_live:
  "object_links ctx \<Longrightarrow> ob \<in> set (objectList ctx) \<Longrightarrow> a \<in> set (obj_displayList ob) \<Longrightarrow>
     \<exists>d. od_heap ctx a = Some d \<and> od_objectId d = obj_id ob"
  unfolding object_links_def by blast

lemma object_links_owner:
  "object_links ctx \<Longrightarrow> od_heap ctx a = Some d \<Longrightarrow>
     \<exists>ob \<in> set (objectList ctx). obj_id ob = od_objectId d \<and> a \<in> set (obj_displayList ob)"
  unfolding object_links_def by blast

lemma unlink_yields:
  "(\<And>x. x \<in> set xs \<Longrightarrow> h x \<noteq> None) \<Longrightarrow> a \<in> set xs \<Longrightarrow> unlink h a xs = Some (True, remove1 a xs)"
  by (induction xs) auto

text \<open>One round of \<open>deleteRegionDisplayList\<close>: the node is unlinked from its object and freed.\<close>

definition forget_display :: "DVBSubContext \<Rightarrow> nat \<Rightarrow> DVBSubObject \<Rightarrow> DVBSubContext" where
  "forget_display ctx a object =
     (let ds = remove1 a (obj_displayList object);
          ctx = (if ds = []
                 then ctx\<lparr>objectList := remove_node obj_id (obj_id object) (objectList ctx)\<rparr>
                 else update_object (obj_id object) (\<lambda>ob. ob\<lparr>obj_displayList := ds\<rparr>) ctx)
      in ctx\<lparr>od_heap := (od_heap ctx)(a := None)\<rparr>)"

lemma forget_display_frame [simp]:
  "regionList (forget_display ctx a ob) = regionList ctx"
  "od_next (forget_display ctx a ob) = od_next ctx"
  "od_heap (forget_display ctx a ob) = (od_heap ctx)(a := None)"
  by (simp_all add: forget_display_def update_object_def Let_def)

lemma deleteRegionDisplayList_Cons:
  assumes "object_links ctx" "od_heap ctx a = Some d"
  obtains ob where "ob \<in> set (objectList ctx)" "obj_id ob = od_objectId d" "a \<in> set (obj_displayList ob)"
    "deleteRegionDisplayList ctx (a # rest) = deleteRegionDisplayList (forget_display ctx a ob) rest"
proof -
  have dist: "distinct (map obj_id (objectList ctx))"
    using assms(1) by (simp add: object_links_def)
  from assms obtain ob where ob: "ob \<in> set (objectList ctx)" "obj_id ob = od_objectId d"
      "a \<in> set (obj_displayList ob)"
    unfolding object_links_def by blast
  have get: "getObject ctx (od_objectId d) = Some ob"
    using objects.get_member [OF dist ob(1)] ob(2) by simp
  have "unlink (od_heap ctx) a (obj_displayList ob) = Some (True, remove1 a (obj_displayList ob))"
    using object_links_live [OF assms(1) ob(1)] ob(3) by (intro unlink_yields) auto
  with assms(2) get have "deleteRegionDisplayList ctx (a # rest)
      = deleteRegionDisplayList (forget_display ctx a ob) rest"
    by (simp add: forget_display_def update_object_def Let_def)
  with ob that show ?thesis by blast
qed

lemma forget_display_object_links:
  assumes "object_links ctx" "od_heap ctx a = Some d" "ob \<in> set (objectList ctx)"
    "obj_id ob = od_objectId d" "a \<in> set (obj_displayList ob)"
  shows "object_links (forget_display ctx a ob)"
proof -
  let ?ds = "remove1 a (obj_displayList ob)"
  let ?c = "forget_display ctx a ob"
  have dist: "distinct (map obj_id (objectList ctx))" and dd: "distinct (obj_displayList ob)"
    using assms(1,3) by (auto simp: object_links_def)
  have same: "o2 = ob" if "o2 \<in> set (objectList ctx)" "obj_id o2 = obj_id ob" for o2
    using dist that assms(3) by (auto simp: distinct_map inj_on_def)
  have set_ds: "set ?ds = set (obj_displayList ob) - {a}" using dd by (simp add: set_remove1_eq)
  have others: "a \<notin> set (obj_displayList o2)" if "o2 \<in> set (objectList ctx)" "obj_id o2 \<noteq> obj_id ob" for o2
    using assms that by (force simp: object_links_def)
  show ?thesis
  proof (cases "?ds = []")
    case True
    then have objs: "set (objectList ?c) = {x \<in> set (objectList ctx). obj_id x \<noteq> obj_id ob}"
      and "distinct (map obj_id (objectList ?c))"
      using dist by (auto simp: forget_display_def set_remove_node distinct_remove_node)
    moreover have "set (obj_displayList ob) = {a}" using True set_ds assms(5) by auto
    ultimately show ?thesis
      using assms(1) others same unfolding object_links_def by auto (metis singletonD)
  next
    case False
    let ?f = "\<lambda>ob. ob\<lparr>obj_displayList := ?ds\<rparr>"
    have objs: "set (objectList ?c) = (\<lambda>x. if obj_id x = obj_id ob then ?f x else x) ` set (objectList ctx)"
      and "distinct (map obj_id (objectList ?c))"
      using False dist by (auto simp: forget_display_def update_object_def set_update_node map_update_node)
    note dist' = this(2)
    have cases: "(o2 = ?f ob) \<or> (o2 \<in> set (objectList ctx) \<and> obj_id o2 \<noteq> obj_id ob)"
      if "o2 \<in> set (objectList ?c)" for o2
      using that objs same by fastforce
    have kept: "if obj_id o2 = obj_id ob then ?f ob \<in> set (objectList ?c) else o2 \<in> set (objectList ?c)"
      if "o2 \<in> set (objectList ctx)" for o2
      using that objs assms(3) by (auto simp: image_iff intro: bexI [where x = ob])
    show ?thesis
      unfolding object_links_def
    proof (intro conjI ballI allI impI)
      show "distinct (map obj_id (objectList ?c))" by (rule dist')
    next
      fix o2 assume "o2 \<in> set (objectList ?c)"
      then show "distinct (obj_displayList o2)"
        using cases [of o2] dd assms(1) by (auto simp: object_links_def)
    next
      fix o2 a2 assume "o2 \<in> set (objectList ?c)" "a2 \<in> set (obj_displayList o2)"
      then show "\<exists>d. od_heap ?c a2 = Some d \<and> od_objectId d = obj_id o2"
        using cases [of o2] set_ds others assms(1,3) by (auto simp: object_links_def)
    next
      fix a2 d2 assume h: "od_heap ?c a2 = Some d2"
      then have "a2 \<noteq> a" "od_heap ctx a2 = Some d2" by (auto split: if_splits)
      with object_links_owner [OF assms(1)] obtain o2 where o2: "o2 \<in> set (objectList ctx)"
          "obj_id o2 = od_objectId d2" "a2 \<in> set (obj_displayList o2)" by blast
      show "\<exists>o2 \<in> set (objectList ?c). obj_id o2 = od_objectId d2 \<and> a2 \<in> set (obj_displayList o2)"
      proof (cases "obj_id o2 = obj_id ob")
        case True
        with o2 have "?f ob \<in> set (objectList ?c)" "a2 \<in> set ?ds"
          using kept [of o2] same [of o2] set_ds \<open>a2 \<noteq> a\<close> by auto
        with True o2 show ?thesis by (intro bexI [where x = "?f ob"]) auto
      next
        case False
        with o2 kept [of o2] show ?thesis by (intro bexI [where x = o2]) auto
      qed
    qed
  qed
qed

lemma deleteRegionDisplayList_links:
  assumes "object_links ctx" "region_links ctx ds rs"
  shows "yields (\<lambda>ctx'. object_links ctx' \<and> region_links ctx' [] rs \<and>
      regionList ctx' = regionList ctx \<and> od_next ctx' = od_next ctx)
    (deleteRegionDisplayList ctx ds)"
  using assms
proof (induction ds arbitrary: ctx)
  case (Cons a ds)
  have "a \<in> dom (od_heap ctx)" using Cons.prems(2) by (simp add: region_links_def)
  then obtain d where d: "od_heap ctx a = Some d" by auto
  obtain ob where ob: "ob \<in> set (objectList ctx)" "obj_id ob = od_objectId d" "a \<in> set (obj_displayList ob)"
    and step: "deleteRegionDisplayList ctx (a # ds) = deleteRegionDisplayList (forget_display ctx a ob) ds"
    by (rule deleteRegionDisplayList_Cons [OF Cons.prems(1) d])
  have "object_links (forget_display ctx a ob)"
    by (rule forget_display_object_links [OF Cons.prems(1) d ob])
  moreover have "region_links (forget_display ctx a ob) ds rs"
    using Cons.prems(2) by (auto simp: region_links_def)
  ultimately show ?case
    using Cons.IH [of "forget_display ctx a ob"] step by (auto simp del: deleteRegionDisplayList.simps)
qed simp

lemma delete_region_nodes_links:
  assumes "object_links ctx" "region_links ctx [] rs" "regionList ctx = rs"
  shows "yields (\<lambda>ctx'. object_links ctx' \<and> region_links ctx' [] [] \<and>
      regionList ctx' = [] \<and> od_next ctx' = od_next ctx) (delete_region_nodes ctx rs)"
  using assms
proof (induction rs arbitrary: ctx)
  case (Cons r rs)
  let ?c = "ctx\<lparr>regionList := rs\<rparr>"
  have "object_links ?c" using Cons.prems(1) by (simp add: object_links_def)
  moreover have "region_links ?c (reg_displayList r) rs"
    using Cons.prems(2) by (simp add: region_links_def)
  ultimately have "yields (\<lambda>c. object_links c \<and> region_links c [] rs \<and>
      regionList c = regionList ?c \<and> od_next c = od_next ?c) (deleteRegionDisplayList ?c (reg_displayList r))"
    by (rule deleteRegionDisplayList_links)
  then obtain c where c: "deleteRegionDisplayList ?c (reg_displayList r) = Some c"
      "object_links c" "region_links c [] rs" "regionList c = rs" "od_next c = od_next ctx"
    by (auto elim!: yieldsE)
  then show ?case using Cons.IH [of c] by simp
qed simp

lemma deleteRegions_links:
  assumes "linked ctx"
  shows "yields (\<lambda>ctx'. linked ctx' \<and> regionList ctx' = [] \<and> od_heap ctx' = Map.empty
      \<and> od_next ctx' = od_next ctx) (deleteRegions ctx)"
proof -
  have "yields (\<lambda>ctx'. object_links ctx' \<and> region_links ctx' [] [] \<and>
      regionList ctx' = [] \<and> od_next ctx' = od_next ctx) (deleteRegions ctx)"
    using assms delete_region_nodes_links [of ctx "regionList ctx"]
    by (simp add: linked_def deleteRegions_def)
  then show ?thesis
    by (rule yields_mono) (auto simp: linked_def region_links_def)
qed

text \<open>What freeing displays leaves alone.\<close>

lemma deleteRegionDisplayList_step:
  assumes "deleteRegionDisplayList ctx (a # ds) = Some ctx'"
  shows "\<exists>objs. deleteRegionDisplayList (ctx\<lparr>objectList := objs, od_heap := (od_heap ctx)(a := None)\<rparr>) ds = Some ctx'"
proof -
  obtain d where d: "od_heap ctx a = Some d" using assms by (auto simp: bind_eq_Some_conv)
  show ?thesis
  proof (cases "getObject ctx (od_objectId d)")
    case None
    with assms d show ?thesis by (intro exI [where x = "objectList ctx"]) simp
  next
    case (Some ob)
    obtain found xs where u: "unlink (od_heap ctx) a (obj_displayList ob) = Some (found, xs)"
      using assms d Some by (auto simp: bind_eq_Some_conv)
    show ?thesis
    proof (cases found)
      case False
      with assms d Some u show ?thesis by (intro exI [where x = "objectList ctx"]) simp
    next
      case True
      then show ?thesis using assms d Some u by (cases "xs = []") (auto simp: update_object_def)
    qed
  qed
qed

lemma deleteRegionDisplayList_frame:
  "deleteRegionDisplayList ctx ds = Some ctx' \<Longrightarrow>
     ctx'\<lparr>objectList := [], od_heap := Map.empty\<rparr> = ctx\<lparr>objectList := [], od_heap := Map.empty\<rparr> \<and>
     od_heap ctx' \<subseteq>\<^sub>m od_heap ctx"
proof (induction ds arbitrary: ctx)
  case (Cons a ds)
  obtain objs where
    rec: "deleteRegionDisplayList (ctx\<lparr>objectList := objs, od_heap := (od_heap ctx)(a := None)\<rparr>) ds = Some ctx'"
    using deleteRegionDisplayList_step [OF Cons.prems] by blast
  have "(od_heap ctx)(a := None) \<subseteq>\<^sub>m od_heap ctx" by (auto simp: map_le_def)
  moreover have "od_heap ctx' \<subseteq>\<^sub>m (od_heap ctx)(a := None)"
    using Cons.IH [OF rec] by (simp add: fun_upd_def)
  ultimately have "od_heap ctx' \<subseteq>\<^sub>m od_heap ctx" by (rule map_le_trans [rotated])
  with Cons.IH [OF rec] show ?case by simp
qed simp

lemma delete_region_nodes_frame:
  "delete_region_nodes ctx rs = Some ctx' \<Longrightarrow>
     ctx'\<lparr>regionList := [], objectList := [], od_heap := Map.empty\<rparr>
       = ctx\<lparr>regionList := [], objectList := [], od_heap := Map.empty\<rparr>"
proof (induction rs arbitrary: ctx)
  case (Cons r rs)
  then obtain c where c: "deleteRegionDisplayList (ctx\<lparr>regionList := rs\<rparr>) (reg_displayList r) = Some c"
      "delete_region_nodes c rs = Some ctx'"
    by (auto simp: bind_eq_Some_conv)
  have "c\<lparr>objectList := [], od_heap := Map.empty\<rparr> = (ctx\<lparr>regionList := rs\<rparr>)\<lparr>objectList := [], od_heap := Map.empty\<rparr>"
    using deleteRegionDisplayList_frame [OF c(1)] by simp
  then have "c\<lparr>regionList := [], objectList := [], od_heap := Map.empty\<rparr>
      = ctx\<lparr>regionList := [], objectList := [], od_heap := Map.empty\<rparr>"
    by (cases c, cases ctx) simp
  with Cons.IH [OF c(2)] show ?case by simp
qed simp

text \<open>Pushing to, and emptying, the list of the first node with a key.\<close>

lemma push_links:
  assumes "\<And>x. g (f x) = a # g x" "k \<in> key ` set xs" "a \<notin> set (concat (map g xs))"
    "distinct (concat (map g xs))"
  shows "distinct (concat (map g (update_node key k f xs))) \<and>
    set (concat (map g (update_node key k f xs))) = insert a (set (concat (map g xs)))"
  using assms(2-4)
proof (induction xs)
  case (Cons x xs)
  show ?case
  proof (cases "key x = k")
    case True
    then show ?thesis using Cons.prems assms(1) by auto
  next
    case False
    then have IH: "distinct (concat (map g (update_node key k f xs)))"
        "set (concat (map g (update_node key k f xs))) = insert a (set (concat (map g xs)))"
      using Cons.IH Cons.prems by auto
    have "update_node key k f (x # xs) = x # update_node key k f xs" using False by simp
    then show ?thesis
      using IH Cons.prems by (auto simp del: set_concat update_node.simps)
  qed
qed simp

lemma empty_links:
  assumes "\<And>x. g (f x) = []" "List.find (\<lambda>x. key x = k) xs = Some r" "distinct (concat (map g xs))"
  shows "distinct (g r @ concat (map g (update_node key k f xs))) \<and>
    set (g r @ concat (map g (update_node key k f xs))) = set (concat (map g xs))"
  using assms(2,3)
proof (induction xs)
  case (Cons x xs)
  show ?case
  proof (cases "key x = k")
    case True
    then show ?thesis using Cons.prems assms(1) by auto
  next
    case False
    then have IH: "distinct (g r @ concat (map g (update_node key k f xs)))"
        "set (g r @ concat (map g (update_node key k f xs))) = set (concat (map g xs))"
      using Cons.IH Cons.prems by auto
    have "update_node key k f (x # xs) = x # update_node key k f xs" using False by simp
    then show ?thesis
      using IH Cons.prems by (auto simp del: set_concat update_node.simps)
  qed
qed simp

end
