(* ===== verification/Parser_Base.thy ===== *)
theory Parser_Base
  imports Prelude
begin

text \<open>
  What every decoder shares: the decoded unit \<open>AML_SPUVAR\<close>
  (\<open>utils/SubtitleTypes.h\<close>) and the base class \<open>Parser\<close> of
  \<open>subtitle/parser/Parser.h\<close> with its bounded queue of decoded units. A decoder's
  class is an extension of the record \<open>Parser\<close>, as it is a subclass in the code.

  The calls a parser makes on its notifiers are recorded in order in \<open>notified\<close>.
\<close>

section \<open>Decoded units\<close>

record AML_SPUVAR =
  sync_bytes :: int
  buffer_size :: int
  useMalloc :: bool
  isSimpleText :: bool
  spu_pid :: int
  pts :: int
  isImmediatePresent :: bool
  isExtSub :: bool
  isKeepShowing :: bool
  isTtxSubtitle :: bool
  objectSegmentId :: int
  m_delay :: int
  spu_data :: "u8 list option"
  cmd_offset :: int
  spu_length :: int
  r_pt :: int
  frame_rdy :: int
  spu_color :: int
  spu_alpha :: int
  spu_start_x :: int
  spu_start_y :: int
  spu_width :: int
  spu_height :: int
  top_pxd_addr :: int
  bottom_pxd_addr :: int
  spu_origin_display_w :: int
  spu_origin_display_h :: int
  disp_colcon_addr :: int
  display_pending :: int
  displaying :: int
  subtitle_type :: int
  resize_height :: int
  resize_width :: int
  resize_xstart :: int
  resize_ystart :: int
  resize_size :: int
  disPlayBackground :: int
  isQtoneData :: bool
  dynGen :: bool
  spu_pos :: int

definition new_spu :: AML_SPUVAR where
  "new_spu = \<lparr>sync_bytes = 0, buffer_size = 0, useMalloc = True, isSimpleText = False, spu_pid = 0, pts = 0,
     isImmediatePresent = False, isExtSub = False, isKeepShowing = False, isTtxSubtitle = False,
     objectSegmentId = 0, m_delay = 0, spu_data = None, cmd_offset = 0, spu_length = 0,
     r_pt = 0, frame_rdy = 0, spu_color = 0, spu_alpha = 0, spu_start_x = 0, spu_start_y = 0, spu_width = 0,
     spu_height = 0, top_pxd_addr = 0, bottom_pxd_addr = 0, spu_origin_display_w = 0,
     spu_origin_display_h = 0, disp_colcon_addr = 0, display_pending = 0, displaying = 0, subtitle_type = 0, resize_height = 0,
     resize_width = 0, resize_xstart = 0, resize_ystart = 0, resize_size = 0,
     disPlayBackground = 0, isQtoneData = False, dynGen = False, spu_pos = 0\<rparr>"

definition TYPE_SUBTITLE_VOB :: int where "TYPE_SUBTITLE_VOB = 0"
definition TYPE_SUBTITLE_PGS :: int where "TYPE_SUBTITLE_PGS = 1"
definition TYPE_SUBTITLE_DVB :: int where "TYPE_SUBTITLE_DVB = 7"
definition TYPE_SUBTITLE_CLOSED_CAPTION :: int where "TYPE_SUBTITLE_CLOSED_CAPTION = 10"
definition TYPE_SUBTITLE_EXTERNAL :: int where "TYPE_SUBTITLE_EXTERNAL = 14"

definition AML_PARSER_SYNC_WORD :: int where "AML_PARSER_SYNC_WORD = 0x414D4C55"

section \<open>The base class\<close>

definition SUB_INIT :: int where "SUB_INIT = 0"
definition SUB_PLAYING :: int where "SUB_PLAYING = 1"
definition SUB_STOP :: int where "SUB_STOP = 2"
definition SUB_EXIT :: int where "SUB_EXIT = 3"

definition INTERNAL_MAX_NUMBER_SPU_ITEM :: int where "INTERNAL_MAX_NUMBER_SPU_ITEM = 20"

definition ERROR_DECODER_LOSEDATA :: int where "ERROR_DECODER_LOSEDATA = 3"
definition ERROR_DECODER_INVALIDDATA :: int where "ERROR_DECODER_INVALIDDATA = 4"
definition ERROR_DECODER_TIMEERROR :: int where "ERROR_DECODER_TIMEERROR = 5"

datatype notice =
    onSubtitleAvailable int
  | onSubtitleDimension int int
  | notifySubdataAdded

record Parser =
  mState :: int
  mParseType :: int
  mMaxSpuItems :: int
  mPtsRecord :: int
  mThreadExitRequested :: bool
  mHasNotifier :: bool
  mHasDataNotifier :: bool
  mStartTime :: int
  mCurrentRenderTime :: int
  mPresentationTime :: int
  mDecodedSpu :: "AML_SPUVAR list"
  notified :: "notice list"

text \<open>The constructor, with \<open>startParser\<close>'s \<open>SUB_INIT\<close> and notifiers.\<close>

definition start_parser :: "int \<Rightarrow> Parser" where
  "start_parser type = \<lparr>mState = SUB_INIT, mParseType = type,
     mMaxSpuItems = INTERNAL_MAX_NUMBER_SPU_ITEM, mPtsRecord = 0, mThreadExitRequested = False,
     mHasNotifier = True, mHasDataNotifier = True, mStartTime = 0, mCurrentRenderTime = 0,
     mPresentationTime = 0, mDecodedSpu = [], notified = []\<rparr>"

definition resetForSeek :: "'a Parser_scheme \<Rightarrow> 'a Parser_scheme" where
  "resetForSeek p = p\<lparr>mDecodedSpu := []\<rparr>"

text \<open>The result tells whether \<open>stopParser\<close> goes on to join the thread.\<close>

definition stopParser :: "'a Parser_scheme \<Rightarrow> bool \<times> 'a Parser_scheme" where
  "stopParser p =
     (let p = p\<lparr>mDecodedSpu := [], mState := SUB_STOP\<rparr> in
      if mThreadExitRequested p then (False, p) else (True, p\<lparr>mThreadExitRequested := True\<rparr>))"

definition tryConsumeDecodedItem :: "'a Parser_scheme \<Rightarrow> AML_SPUVAR option \<times> 'a Parser_scheme" where
  "tryConsumeDecodedItem p =
     (case mDecodedSpu p of
        [] \<Rightarrow> (None, p)
      | item # rest \<Rightarrow> (Some item, p\<lparr>mDecodedSpu := rest\<rparr>))"

text \<open>\<open>while (mDecodedSpu.size() >= mMaxSpuItems) mDecodedSpu.pop_front();\<close>\<close>

fun pop_excess :: "int \<Rightarrow> 'b list \<Rightarrow> 'b list" where
  "pop_excess n [] = []"
| "pop_excess n (x # xs) = (if n \<le> int (length (x # xs)) then pop_excess n xs else x # xs)"

definition notify :: "notice \<Rightarrow> 'a Parser_scheme \<Rightarrow> 'a Parser_scheme" where
  "notify n p = p\<lparr>notified := notified p @ [n]\<rparr>"

definition addDecodedItem :: "AML_SPUVAR \<Rightarrow> 'a Parser_scheme \<Rightarrow> 'a Parser_scheme" where
  "addDecodedItem item p =
     (if mState p = SUB_STOP \<or> mState p = SUB_EXIT then p
      else
        let p = p\<lparr>mDecodedSpu := pop_excess (mMaxSpuItems p) (mDecodedSpu p) @ [item]\<rparr>
        in if mHasDataNotifier p then notify notifySubdataAdded p else p)"

definition notifyRenderStartTimestamp :: "int \<Rightarrow> 'a Parser_scheme \<Rightarrow> 'a Parser_scheme" where
  "notifyRenderStartTimestamp startTime p =
     p\<lparr>mStartTime := startTime, mPresentationTime := startTime\<rparr>"

definition notifyRenderTimeChanged :: "int \<Rightarrow> 'a Parser_scheme \<Rightarrow> 'a Parser_scheme" where
  "notifyRenderTimeChanged renderTime p =
     p\<lparr>mCurrentRenderTime := renderTime, mPresentationTime := renderTime + mStartTime p\<rparr>"

section \<open>The queue of decoded units\<close>

text \<open>
  What the presentation relies on: a bounded first-in first-out queue that prefers the
  newest units.
\<close>

lemma pop_excess_suffix: "\<exists>dropped. xs = dropped @ pop_excess n xs"
  by (induction xs) (auto, metis append_Cons)

lemma pop_excess_short: "int (length xs) < n \<Longrightarrow> pop_excess n xs = xs"
  by (cases xs) auto

lemma pop_excess_length:
  "0 < n \<Longrightarrow> int (length (pop_excess n xs)) < n"
  by (induction xs) auto

lemma pop_excess_full:
  "0 < n \<Longrightarrow> n \<le> int (length xs) \<Longrightarrow> int (length (pop_excess n xs)) = n - 1"
proof (induction xs)
  case (Cons x xs)
  then show ?case by (cases "n \<le> int (length xs)") (auto simp: pop_excess_short)
qed simp

locale bounded_fifo =
  fixes items :: "'p \<Rightarrow> 'b list" and add :: "'b \<Rightarrow> 'p \<Rightarrow> 'p"
    and try_take :: "'p \<Rightarrow> 'b option \<times> 'p" and accepting :: "'p \<Rightarrow> bool" and bound :: "'p \<Rightarrow> int"
  assumes add_accepted: "accepting p \<Longrightarrow> items (add x p) = pop_excess (bound p) (items p) @ [x]"
    and add_refused: "\<not> accepting p \<Longrightarrow> add x p = p"
    and add_frame: "accepting (add x p) = accepting p" "bound (add x p) = bound p"
    and take_empty: "items p = [] \<Longrightarrow> try_take p = (None, p)"
    and take_item: "items p = x # xs \<Longrightarrow> fst (try_take p) = Some x \<and> items (snd (try_take p)) = xs"
begin

lemma add_bounded:
  "0 < bound p \<Longrightarrow> int (length (items p)) \<le> bound p \<Longrightarrow> int (length (items (add x p))) \<le> bound p"
  using pop_excess_length [of "bound p" "items p"]
  by (cases "accepting p") (auto simp: add_accepted add_refused)

lemma adds_keep_newest:
  assumes "accepting p" "0 < bound p"
  shows "accepting (fold add xs p) \<and> bound (fold add xs p) = bound p \<and>
    (\<exists>dropped. items p @ xs = dropped @ items (fold add xs p)) \<and>
    (xs \<noteq> [] \<longrightarrow> last (items (fold add xs p)) = last xs)"
  using assms
proof (induction xs arbitrary: p)
  case (Cons x xs)
  obtain d where d: "items p = d @ pop_excess (bound p) (items p)"
    using pop_excess_suffix by metis
  have IH: "accepting (fold add xs (add x p)) \<and> bound (fold add xs (add x p)) = bound p \<and>
    (\<exists>e. items (add x p) @ xs = e @ items (fold add xs (add x p))) \<and>
    (xs \<noteq> [] \<longrightarrow> last (items (fold add xs (add x p))) = last xs)"
    using Cons.IH [of "add x p"] Cons.prems add_frame by simp
  then obtain e where e: "items (add x p) @ xs = e @ items (fold add xs (add x p))" by blast
  then have "items p @ x # xs = (d @ e) @ items (fold add xs (add x p))"
    using d Cons.prems(1) by (metis add_accepted append.assoc append_Cons append_Nil)
  with IH show ?case using Cons.prems(1) by (auto simp: add_accepted)
qed simp

lemma take_added:
  "accepting p \<Longrightarrow> items p = [] \<Longrightarrow> 0 < bound p \<Longrightarrow>
     fst (try_take (add x p)) = Some x \<and> items (snd (try_take (add x p))) = []"
  by (rule take_item) (simp add: add_accepted)

end

interpretation decoded: bounded_fifo mDecodedSpu addDecodedItem tryConsumeDecodedItem
  "\<lambda>p. mState p \<noteq> SUB_STOP \<and> mState p \<noteq> SUB_EXIT" mMaxSpuItems
  by unfold_locales
    (auto simp: addDecodedItem_def tryConsumeDecodedItem_def notify_def Let_def)

lemmas decoded_defs = addDecodedItem_def tryConsumeDecodedItem_def resetForSeek_def
  stopParser_def notify_def

end
