(* ===== verification/Dvb_Pixels.thy ===== *)
theory Dvb_Pixels
  imports Code_Strings Dvb_Context Parser_Base
begin

text \<open>
  Pixel data of \<open>DvbParser.cpp\<close>: the class state, \<open>parsePixelDataBlock\<close> and
  \<open>parseObjectSegment\<close>. A block draws rows of one field of an object into the region
  the display names, through the readers of \<open>Code_Strings\<close>.
\<close>

section \<open>The decoder\<close>

record DvbParser = Parser +
  mContext :: DVBSubContext
  mPendingAction :: int

definition notifySubtitleErrorInfo :: "int \<Rightarrow> 'a DvbParser_scheme \<Rightarrow> 'a DvbParser_scheme" where
  "notifySubtitleErrorInfo err p =
     (if mHasNotifier p then notify (onSubtitleAvailable err) p else p)"

definition notifySubtitleDimension :: "int \<Rightarrow> int \<Rightarrow> 'a DvbParser_scheme \<Rightarrow> 'a DvbParser_scheme" where
  "notifySubtitleDimension width height p =
     (if mHasNotifier p then
        (if lastSpuOriginDisplayW (mContext p) \<noteq> u32_of width
            \<or> lastSpuOriginDisplayH (mContext p) \<noteq> u32_of height
         then (notify (onSubtitleDimension width height) p)
           \<lparr>mContext := (mContext p)\<lparr>lastSpuOriginDisplayW := u32_of width,
              lastSpuOriginDisplayH := u32_of height\<rparr>\<rparr>
         else p)
      else p)"

section \<open>Pixel data blocks\<close>

definition DVBSUB_DT_2BP_CODE_STRING :: int where "DVBSUB_DT_2BP_CODE_STRING = 0x10"
definition DVBSUB_DT_4BP_CODE_STRING :: int where "DVBSUB_DT_4BP_CODE_STRING = 0x11"
definition DVBSUB_DT_8BP_CODE_STRING :: int where "DVBSUB_DT_8BP_CODE_STRING = 0x12"
definition DVBSUB_DT_24_MAP_TABLE_DATA :: int where "DVBSUB_DT_24_MAP_TABLE_DATA = 0x20"
definition DVBSUB_DT_28_MAP_TABLE_DATA :: int where "DVBSUB_DT_28_MAP_TABLE_DATA = 0x21"
definition DVBSUB_DT_48_MAP_TABLE_DATA :: int where "DVBSUB_DT_48_MAP_TABLE_DATA = 0x22"
definition DVBSUB_DT_END_OF_OBJECT_LINE :: int where "DVBSUB_DT_END_OF_OBJECT_LINE = 0xf0"

lemmas pixel_codes = DVBSUB_DT_2BP_CODE_STRING_def DVBSUB_DT_4BP_CODE_STRING_def
  DVBSUB_DT_8BP_CODE_STRING_def DVBSUB_DT_24_MAP_TABLE_DATA_def DVBSUB_DT_28_MAP_TABLE_DATA_def
  DVBSUB_DT_48_MAP_TABLE_DATA_def DVBSUB_DT_END_OF_OBJECT_LINE_def

text \<open>The locals of \<open>parsePixelDataBlock\<close>, with the region's buffer.\<close>

record pixel_state =
  px_buf :: nat
  px_xPos :: int
  px_yPos :: int
  px_map2to4 :: "u8 list"
  px_map2to8 :: "u8 list"
  px_map4to8 :: "u8 list"
  px_pbuf :: "u8 list"

datatype 'a outcome = Again 'a | Return int 'a

definition pixel_start :: "DVBSubObjectDisplay \<Rightarrow> DVBSubRegion \<Rightarrow> nat \<Rightarrow> int \<Rightarrow> pixel_state" where
  "pixel_start display region buf top_bottom =
     \<lparr>px_buf = buf, px_xPos = od_xPos display,
      px_yPos = (if top_bottom = 1 then od_yPos display + 1 else od_yPos display),
      px_map2to4 = [0x0, 0x7, 0x8, 0xf],
      px_map2to8 = [0x00, 0x77, 0x88, 0xff],
      px_map4to8 = [0x00, 0x11, 0x22, 0x33, 0x44, 0x55, 0x66, 0x77,
                    0x88, 0x99, 0xaa, 0xbb, 0xcc, 0xdd, 0xee, 0xff],
      px_pbuf = reg_pbuf region\<rparr>"

text \<open>A code string drawn by one of the readers, \<open>xPos += dvbsub_read_...(pbuf + ..., &buf, ...)\<close>.\<close>

definition draw_string ::
  "(u8 list \<Rightarrow> int \<Rightarrow> int \<Rightarrow> mem \<Rightarrow> nat \<Rightarrow> int \<Rightarrow> int \<Rightarrow> u8 list option \<Rightarrow> (int \<times> nat \<times> u8 list) option)
     \<Rightarrow> mem \<Rightarrow> DVBSubRegion \<Rightarrow> int \<Rightarrow> int \<Rightarrow> u8 list option \<Rightarrow> pixel_state
     \<Rightarrow> pixel_state outcome option" where
  "draw_string reader m region needReads nonMod mapTable s = do {
     (n, buf, pbuf) \<leftarrow> reader (px_pbuf s)
        (wrap32 (px_yPos s * reg_width region) + px_xPos s)
        (reg_width region - px_xPos s) m (px_buf s) needReads nonMod mapTable;
     Some (Again (s\<lparr>px_xPos := px_xPos s + n, px_buf := buf, px_pbuf := pbuf\<rparr>)) }"

text \<open>The \<open>switch\<close> on the block's type byte, already consumed.\<close>

definition pixel_block ::
  "mem \<Rightarrow> DVBSubObjectDisplay \<Rightarrow> DVBSubRegion \<Rightarrow> nat \<Rightarrow> int \<Rightarrow> int \<Rightarrow> int \<Rightarrow> pixel_state
     \<Rightarrow> pixel_state outcome option" where
  "pixel_block m display region bufEnd nonMod needReads code s =
     (let buf = px_buf s; left = int bufEnd - int buf in
      if code = DVBSUB_DT_2BP_CODE_STRING then
        draw_string dvbsub_read_2bit_string m region needReads nonMod
          (if reg_depth region = 8 then Some (px_map2to8 s)
           else if reg_depth region = 4 then Some (px_map2to4 s) else None) s
      else if code = DVBSUB_DT_4BP_CODE_STRING then
        (if reg_depth region < 4 then Some (Return 0 s)
         else draw_string dvbsub_read_4bit_string m region needReads nonMod
           (if reg_depth region = 8 then Some (px_map4to8 s) else None) s)
      else if code = DVBSUB_DT_8BP_CODE_STRING then
        (if reg_depth region < 8 then Some (Return 0 s)
         else draw_string dvbsub_read_8bit_string m region needReads nonMod None s)
      else if code = DVBSUB_DT_24_MAP_TABLE_DATA then
        (if left < 2 then Some (Again s)
         else Some (Again (s\<lparr>px_map2to4 := [drop_bit 4 (m buf), m buf AND 0xf,
                drop_bit 4 (m (buf + 1)), m (buf + 1) AND 0xf], px_buf := buf + 2\<rparr>)))
      else if code = DVBSUB_DT_28_MAP_TABLE_DATA then
        (if left < 4 then Some (Again s)
         else Some (Again (s\<lparr>px_map2to8 := map (\<lambda>i. m (buf + i)) [0..<4], px_buf := buf + 4\<rparr>)))
      else if code = DVBSUB_DT_48_MAP_TABLE_DATA then
        (if left < 16 then Some (Again s)
         else Some (Again (s\<lparr>px_map4to8 := map (\<lambda>i. m (buf + i)) [0..<16], px_buf := buf + 16\<rparr>)))
      else if code = DVBSUB_DT_END_OF_OBJECT_LINE then
        Some (Again (s\<lparr>px_xPos := od_xPos display, px_yPos := px_yPos s + 2\<rparr>))
      else Some (Again s))"

text \<open>One round of the \<open>while (buf < bufEnd)\<close> loop.\<close>

definition pixel_round ::
  "mem \<Rightarrow> DVBSubObjectDisplay \<Rightarrow> DVBSubRegion \<Rightarrow> nat \<Rightarrow> int \<Rightarrow> pixel_state
     \<Rightarrow> pixel_state outcome option" where
  "pixel_round m display region bufEnd nonMod s =
     (let bufcaps = wrap32 (reg_bufSize region
            - wrap32 (px_yPos s * reg_width region + px_xPos s));
          needReads = int bufEnd - int (px_buf s);
          needReads = (if needReads > bufcaps then bufcaps else needReads)
      in if px_xPos s > reg_width region \<or> px_yPos s > reg_height region \<or> needReads < 0
         then Some (Return (-1) s)
         else pixel_block m display region bufEnd nonMod needReads (byte_at m (px_buf s))
                (s\<lparr>px_buf := px_buf s + 1\<rparr>))"

partial_function (option) pixel_loop ::
  "(pixel_state \<Rightarrow> pixel_state outcome option) \<Rightarrow> nat \<Rightarrow> pixel_state
     \<Rightarrow> (int \<times> pixel_state) option" where
  "pixel_loop round bufEnd s =
     (if px_buf s < bufEnd
      then do {
        r \<leftarrow> round s;
        (case r of Again t \<Rightarrow> pixel_loop round bufEnd t | Return v t \<Rightarrow> Some (v, t)) }
      else Some (0, s))"

declare pixel_loop.simps [code]

definition parsePixelDataBlock ::
  "DVBSubObjectDisplay \<Rightarrow> mem \<Rightarrow> nat \<Rightarrow> nat \<Rightarrow> int \<Rightarrow> int \<Rightarrow> DVBSubContext
     \<Rightarrow> (int \<times> DVBSubContext) option" where
  "parsePixelDataBlock display m buf bufSize top_bottom nonMod ctx =
     (case getRegion ctx (od_regionId display) of
        None \<Rightarrow> Some (0, ctx)
      | Some region \<Rightarrow> do {
          (ret, s) \<leftarrow> pixel_loop (pixel_round m display region (buf + bufSize) nonMod)
            (buf + bufSize) (pixel_start display region buf top_bottom);
          Some (ret, update_region (reg_id region) (\<lambda>r. r\<lparr>reg_pbuf := px_pbuf s\<rparr>) ctx) })"

section \<open>Object segments\<close>

text \<open>
  The loop over the object's displays. \<open>bottomFieldLen\<close> is a local that the loop
  itself overwrites when it is 0, so it is an argument of the recursion.
\<close>

fun object_fields ::
  "mem \<Rightarrow> nat \<Rightarrow> nat \<Rightarrow> nat \<Rightarrow> int \<Rightarrow> DVBSubContext \<Rightarrow> nat list
     \<Rightarrow> (int \<times> DVBSubContext) option" where
  "object_fields m buf topFieldLen bottomFieldLen nonMod ctx [] = Some (0, ctx)"
| "object_fields m buf topFieldLen bottomFieldLen nonMod ctx (a # rest) = do {
     display \<leftarrow> od_heap ctx a;
     (ret, ctx) \<leftarrow> parsePixelDataBlock display m buf topFieldLen 0 nonMod ctx;
     if ret = -1 then Some (ret, ctx)
     else
       let (block, bottomFieldLen) =
             (if bottomFieldLen > 0 then (buf + topFieldLen, bottomFieldLen)
              else (buf, topFieldLen))
       in do {
         (ret, ctx) \<leftarrow> parsePixelDataBlock display m block bottomFieldLen 1 nonMod ctx;
         if ret = -1 then Some (ret, ctx)
         else object_fields m buf topFieldLen bottomFieldLen nonMod ctx rest } }"

definition parseObjectSegment ::
  "mem \<Rightarrow> nat \<Rightarrow> nat \<Rightarrow> DvbParser \<Rightarrow> (int \<times> DvbParser) option" where
  "parseObjectSegment m buf bufSize p =
     (let bufEnd = buf + bufSize; objectId = AV_RB16 m buf in
      case getObject (mContext p) objectId of
        None \<Rightarrow> Some (0, p)
      | Some object \<Rightarrow>
          let codingMethod = (drop_bit 2 (byte_at m (buf + 2))) AND 3;
              nonModifyingColor = (drop_bit 1 (byte_at m (buf + 2))) AND 1
          in if codingMethod = 0 then
               let topFieldLen = AV_RB16 m (buf + 3); bottomFieldLen = AV_RB16 m (buf + 5);
                   data = buf + 7
               in if int data + topFieldLen + bottomFieldLen > int bufEnd
                  then Some (0, notifySubtitleErrorInfo ERROR_DECODER_INVALIDDATA p)
                  else do {
                    (ret, ctx) \<leftarrow> object_fields m data (nat topFieldLen) (nat bottomFieldLen)
                      nonModifyingColor (mContext p) (obj_displayList object);
                    Some (ret, p\<lparr>mContext := ctx\<rparr>) }
             else Some (-1, notifySubtitleErrorInfo ERROR_DECODER_INVALIDDATA p))"

section \<open>Pixel data stays in its region\<close>

definition region_ok :: "DVBSubRegion \<Rightarrow> bool" where
  "region_ok r \<longleftrightarrow> 0 \<le> reg_width r \<and> reg_width r < 65536 \<and> 0 \<le> reg_height r \<and> reg_height r < 65536 \<and>
     reg_width r * reg_height r < 2 ^ 31 \<and> reg_bufSize r = reg_width r * reg_height r \<and>
     int (length (reg_pbuf r)) = reg_bufSize r"

text \<open>The state of a block: tables of the right sizes, and no pixel above row \<open>y0\<close> changed.\<close>

definition pixel_inv :: "DVBSubRegion \<Rightarrow> int \<Rightarrow> pixel_state \<Rightarrow> bool" where
  "pixel_inv region y0 s \<longleftrightarrow>
     length (px_map2to4 s) = 4 \<and> length (px_map2to8 s) = 4 \<and> length (px_map4to8 s) = 16 \<and>
     0 \<le> px_xPos s \<and> y0 \<le> px_yPos s \<and> length (px_pbuf s) = length (reg_pbuf region) \<and>
     (\<forall>i < length (reg_pbuf region). int i < y0 * reg_width region \<longrightarrow> px_pbuf s ! i = reg_pbuf region ! i)"

definition outcome_ok :: "(pixel_state \<Rightarrow> bool) \<Rightarrow> (pixel_state \<Rightarrow> bool) \<Rightarrow> pixel_state outcome \<Rightarrow> bool" where
  "outcome_ok P I r \<longleftrightarrow> (case r of Again t \<Rightarrow> P t \<and> I t | Return v t \<Rightarrow> v \<in> {-1, 0} \<and> I t)"

lemma outcome_ok_simps [simp]:
  "outcome_ok P I (Again t) \<longleftrightarrow> P t \<and> I t"
  "outcome_ok P I (Return v t) \<longleftrightarrow> (v = -1 \<or> v = 0) \<and> I t"
  by (auto simp: outcome_ok_def)

text \<open>The guard of the loop leaves either a row inside the buffer or an empty budget.\<close>

lemma row_budget:
  assumes "region_ok r" "0 \<le> x" "x \<le> reg_width r" "0 \<le> y" "y \<le> reg_height r"
    and "0 \<le> n" "n \<le> wrap32 (reg_bufSize r - wrap32 (y * reg_width r + x))"
  shows "wrap32 (y * reg_width r) = y * reg_width r \<and>
    (n = 0 \<or> y * reg_width r + x + (reg_width r - x) \<le> reg_bufSize r)"
proof -
  let ?w = "reg_width r" and ?h = "reg_height r"
  have le: "y * ?w \<le> ?h * ?w" using assms by (intro mult_right_mono) (auto simp: region_ok_def)
  then have small: "0 \<le> y * ?w" "y * ?w < 2 ^ 31" "?h * ?w < 2 ^ 31" "0 \<le> ?h * ?w"
    using assms by (auto simp: region_ok_def mult.commute)
  show ?thesis
  proof (cases "y = ?h")
    case False
    then have "(y + 1) * ?w \<le> ?h * ?w" using assms by (intro mult_right_mono) (auto simp: region_ok_def)
    then show ?thesis using small assms(1) by (simp add: region_ok_def algebra_simps)
  next
    case True
    have "reg_bufSize r - (y * ?w + x) = - x"
      using assms(1) True by (simp add: region_ok_def algebra_simps)
    then have "wrap32 (reg_bufSize r - wrap32 (y * ?w + x)) = - x"
      using assms(1-3) by (simp add: wrap32_diff_right region_ok_def)
    then have "n = 0" using assms by linarith
    then show ?thesis using small by simp
  qed
qed

context string_reader begin

lemma draw_string_inv:
  assumes "region_ok r" "pixel_inv r y0 s" "0 \<le> y0" "px_xPos s \<le> reg_width r" "px_yPos s \<le> reg_height r"
    and "0 \<le> n" "n \<le> wrap32 (reg_bufSize r - wrap32 (px_yPos s * reg_width r + px_xPos s))"
    and "map_fits k t"
  shows "yields (outcome_ok (\<lambda>u. px_buf s \<le> px_buf u \<and> int (px_buf u) \<le> int (px_buf s) + n + 4) (pixel_inv r y0))
    (draw_string reader m r n nm t s)"
proof -
  let ?w = "reg_width r" and ?x = "px_xPos s" and ?y = "px_yPos s"
  have xy: "0 \<le> ?x" "0 \<le> ?y" "y0 \<le> ?y" "0 \<le> ?w" using assms by (auto simp: pixel_inv_def region_ok_def)
  have base: "wrap32 (?y * ?w) = ?y * ?w"
    and fits: "n = 0 \<or> ?y * ?w + ?x + (?w - ?x) \<le> int (length (px_pbuf s))"
    using row_budget [OF assms(1) xy(1) assms(4) xy(2) assms(5-7)] assms(1,2)
    by (auto simp: pixel_inv_def region_ok_def)
  have above: "y0 * ?w \<le> ?y * ?w + ?x"
    using xy mult_right_mono [OF xy(3) xy(4)] by linarith
  have "yields (\<lambda>(px, src', buf'). 0 \<le> px \<and> px_buf s \<le> src' \<and> int src' \<le> int (px_buf s) + n + 4 \<and>
      row_frame (?y * ?w + ?x) (?w - ?x) (px_pbuf s) buf')
    (reader (px_pbuf s) (?y * ?w + ?x) (?w - ?x) m (px_buf s) n nm t)"
    using xy assms(4,6,8) fits by (intro reader_total) auto
  then show ?thesis
    unfolding draw_string_def base
    using assms(2) above by (auto intro!: wp elim!: yields_mono simp: pixel_inv_def row_frame_def)
qed

end

lemma pixel_block_inv:
  assumes "region_ok r" "pixel_inv r (od_yPos dp) s" "0 \<le> od_xPos dp" "0 \<le> od_yPos dp"
    and "px_xPos s \<le> reg_width r" "px_yPos s \<le> reg_height r"
    and "0 \<le> n" "n \<le> wrap32 (reg_bufSize r - wrap32 (px_yPos s * reg_width r + px_xPos s))"
    and "n \<le> int bufEnd - int (px_buf s) + 1"
  shows "yields (outcome_ok (\<lambda>u. px_buf s \<le> px_buf u \<and> int (px_buf u) \<le> max (int bufEnd + 5) (int (px_buf s)))
      (pixel_inv r (od_yPos dp))) (pixel_block m dp r bufEnd nm n code s)"
proof -
  note draws = reader2.draw_string_inv [OF assms(1,2,4-8)] reader4.draw_string_inv [OF assms(1,2,4-8)]
    reader8.draw_string_inv [OF assms(1,2,4-8)]
  have tabs: "map_fits 4 (Some (px_map2to4 s))" "map_fits 4 (Some (px_map2to8 s))"
      "map_fits 16 (Some (px_map4to8 s))" "map_fits j None" for j
    using assms(2) by (auto simp: pixel_inv_def map_fits_def)
  have close: "yields (outcome_ok (\<lambda>u. px_buf s \<le> px_buf u \<and> int (px_buf u) \<le> max (int bufEnd + 5) (int (px_buf s)))
      (pixel_inv r (od_yPos dp))) x"
    if "yields (outcome_ok (\<lambda>u. px_buf s \<le> px_buf u \<and> int (px_buf u) \<le> int (px_buf s) + n + 4)
      (pixel_inv r (od_yPos dp))) x" for x
    using that by (rule yields_mono) (use assms(9) in \<open>auto simp: outcome_ok_def split: outcome.splits\<close>)
  show ?thesis
    unfolding pixel_block_def Let_def
    apply (intro yields_if)
    subgoal by (rule close, rule draws(1)) (simp add: tabs)
    subgoal using assms(2) by simp
    subgoal by (rule close, rule draws(2)) (simp add: tabs)
    subgoal using assms(2) by simp
    subgoal by (rule close, rule draws(3)) (simp add: tabs)
    using assms(2,3) by (simp_all add: pixel_inv_def)
qed

lemma pixel_round_inv:
  assumes "region_ok r" "pixel_inv r (od_yPos dp) s" "0 \<le> od_xPos dp" "0 \<le> od_yPos dp"
    and "px_buf s < bufEnd"
  shows "yields (outcome_ok (\<lambda>u. px_buf s < px_buf u \<and> px_buf u \<le> bufEnd + 5) (pixel_inv r (od_yPos dp)))
    (pixel_round m dp r bufEnd nm s)"
proof -
  let ?t = "s\<lparr>px_buf := px_buf s + 1\<rparr>"
  have inv: "pixel_inv r (od_yPos dp) ?t" using assms(2) by (simp add: pixel_inv_def)
  have "yields (outcome_ok (\<lambda>u. px_buf s < px_buf u \<and> px_buf u \<le> bufEnd + 5) (pixel_inv r (od_yPos dp)))
      (pixel_block m dp r bufEnd nm n code ?t)"
    if "px_xPos s \<le> reg_width r" "px_yPos s \<le> reg_height r" "0 \<le> n"
      "n \<le> wrap32 (reg_bufSize r - wrap32 (px_yPos s * reg_width r + px_xPos s))"
      "n \<le> int bufEnd - int (px_buf s)" for n code
  proof -
    have "yields (outcome_ok (\<lambda>u. px_buf ?t \<le> px_buf u \<and> int (px_buf u) \<le> max (int bufEnd + 5) (int (px_buf ?t)))
      (pixel_inv r (od_yPos dp))) (pixel_block m dp r bufEnd nm n code ?t)"
      using that assms(3,4) by (intro pixel_block_inv [OF assms(1) inv]) auto
    then show ?thesis
      using assms(5) by (auto elim!: yields_mono simp: outcome_ok_def split: outcome.splits)
  qed
  then show ?thesis
    using assms(2) unfolding pixel_round_def Let_def by (intro yields_if) auto
qed

lemma pixel_loop_inv:
  assumes "region_ok r" "pixel_inv r (od_yPos dp) s" "0 \<le> od_xPos dp" "0 \<le> od_yPos dp"
    and "px_buf s \<le> bufEnd + 5"
  shows "yields (\<lambda>(v, t). v \<in> {-1, 0} \<and> pixel_inv r (od_yPos dp) t)
    (pixel_loop (pixel_round m dp r bufEnd nm) bufEnd s)"
  using assms(2,5)
proof (induction "bufEnd - px_buf s" arbitrary: s rule: less_induct)
  case less
  show ?case
  proof (cases "px_buf s < bufEnd")
    case False
    then show ?thesis using less.prems by (subst pixel_loop.simps) simp
  next
    case True
    obtain o1 where o1: "pixel_round m dp r bufEnd nm s = Some o1"
      and ok: "outcome_ok (\<lambda>u. px_buf s < px_buf u \<and> px_buf u \<le> bufEnd + 5) (pixel_inv r (od_yPos dp)) o1"
      using pixel_round_inv [OF assms(1) less.prems(1) assms(3,4) True] by (auto elim!: yieldsE)
    show ?thesis
    proof (cases o1)
      case (Again t)
      with ok have "yields (\<lambda>(v, u). v \<in> {-1, 0} \<and> pixel_inv r (od_yPos dp) u)
          (pixel_loop (pixel_round m dp r bufEnd nm) bufEnd t)"
        using True by (intro less.hyps) auto
      with True o1 Again show ?thesis by (subst pixel_loop.simps) simp
    next
      case (Return v t)
      with True o1 ok show ?thesis by (subst pixel_loop.simps) auto
    qed
  qed
qed

section \<open>Repainting a context\<close>

text \<open>Everything but the contents of the regions' buffers is as before.\<close>

definition repainted :: "DVBSubContext \<Rightarrow> DVBSubContext \<Rightarrow> bool" where
  "repainted ctx ctx' \<longleftrightarrow>
     ctx'\<lparr>regionList := []\<rparr> = ctx\<lparr>regionList := []\<rparr> \<and>
     map (\<lambda>r. r\<lparr>reg_pbuf := []\<rparr>) (regionList ctx') = map (\<lambda>r. r\<lparr>reg_pbuf := []\<rparr>) (regionList ctx) \<and>
     map (\<lambda>r. length (reg_pbuf r)) (regionList ctx') = map (\<lambda>r. length (reg_pbuf r)) (regionList ctx)"

lemma repainted_refl [simp]: "repainted ctx ctx"
  by (simp add: repainted_def)

lemma repainted_trans: "repainted a b \<Longrightarrow> repainted b c \<Longrightarrow> repainted a c"
  by (simp add: repainted_def)

lemma repainted_map:
  assumes "repainted ctx ctx'" "\<And>r. f (r\<lparr>reg_pbuf := []\<rparr>) = f r"
  shows "map f (regionList ctx') = map f (regionList ctx)"
proof -
  have "map f xs = map f (map (\<lambda>r. r\<lparr>reg_pbuf := []\<rparr>) xs)" for xs
    using assms(2) by simp
  with assms(1) show ?thesis unfolding repainted_def by metis
qed

lemma repainted_fields:
  assumes "repainted ctx ctx'"
  shows "objectList ctx' = objectList ctx" "clutList ctx' = clutList ctx"
    "od_heap ctx' = od_heap ctx" "od_next ctx' = od_next ctx" "displayList ctx' = displayList ctx"
    "displayDefinition ctx' = displayDefinition ctx" "compositionId ctx' = compositionId ctx"
    "ancillaryId ctx' = ancillaryId ctx" "timeOut ctx' = timeOut ctx"
  using assms unfolding repainted_def
  by (cases ctx, cases ctx', simp)+

lemma repainted_region:
  assumes "repainted ctx ctx'" "r' \<in> set (regionList ctx')"
  obtains r where "r \<in> set (regionList ctx)" "r'\<lparr>reg_pbuf := []\<rparr> = r\<lparr>reg_pbuf := []\<rparr>"
    "length (reg_pbuf r') = length (reg_pbuf r)"
proof -
  from assms(2) obtain i where i: "i < length (regionList ctx')" "r' = regionList ctx' ! i"
    by (auto simp: in_set_conv_nth)
  have len: "length (regionList ctx') = length (regionList ctx)"
    using assms(1) unfolding repainted_def by (metis length_map)
  have "(regionList ctx' ! i)\<lparr>reg_pbuf := []\<rparr> = (regionList ctx ! i)\<lparr>reg_pbuf := []\<rparr>"
    and "length (reg_pbuf (regionList ctx' ! i)) = length (reg_pbuf (regionList ctx ! i))"
    using assms(1) i(1) len unfolding repainted_def by (metis nth_map)+
  with i len that [of "regionList ctx ! i"] show ?thesis by simp
qed

lemma region_ok_repainted:
  "r'\<lparr>reg_pbuf := []\<rparr> = r\<lparr>reg_pbuf := []\<rparr> \<Longrightarrow> length (reg_pbuf r') = length (reg_pbuf r) \<Longrightarrow>
     region_ok r \<Longrightarrow> region_ok r'"
  by (cases r, cases r') (auto simp: region_ok_def)

definition displays_ok :: "DVBSubContext \<Rightarrow> bool" where
  "displays_ok ctx \<longleftrightarrow> (\<forall>a d. od_heap ctx a = Some d \<longrightarrow> 0 \<le> od_xPos d \<and> 0 \<le> od_yPos d)"

text \<open>The invariant of the decoder's context.\<close>

definition context_ok :: "DVBSubContext \<Rightarrow> bool" where
  "context_ok ctx \<longleftrightarrow> linked ctx \<and> distinct (map reg_id (regionList ctx)) \<and>
     (\<forall>r \<in> set (regionList ctx). region_ok r) \<and> displays_ok ctx \<and>
     (\<forall>c \<in> set (clutList ctx). length (clut_words c) = CLUT_WORDS)"

lemma context_ok_repainted:
  assumes "repainted ctx ctx'" "context_ok ctx"
  shows "context_ok ctx'"
proof -
  note fs = repainted_fields [OF assms(1)]
  have ids: "map reg_id (regionList ctx') = map reg_id (regionList ctx)"
    and pairs: "map (\<lambda>r. (reg_id r, reg_displayList r)) (regionList ctx')
      = map (\<lambda>r. (reg_id r, reg_displayList r)) (regionList ctx)"
    by (rule repainted_map [OF assms(1)], simp)+
  have dl: "map reg_displayList (regionList ctx') = map reg_displayList (regionList ctx)"
    by (rule repainted_map [OF assms(1)]) simp
  have "region_links ctx' [] (regionList ctx')"
    unfolding region_links_def dl fs
  proof (intro conjI ballI allI impI)
    fix r' a d assume r': "r' \<in> set (regionList ctx')" "a \<in> set (reg_displayList r')" "od_heap ctx a = Some d"
    obtain r where r: "r \<in> set (regionList ctx)" "r'\<lparr>reg_pbuf := []\<rparr> = r\<lparr>reg_pbuf := []\<rparr>"
      by (rule repainted_region [OF assms(1) r'(1)])
    have "reg_id r' = reg_id r" "reg_displayList r' = reg_displayList r"
      using r(2) by (cases r, cases r', simp)+
    with r(1) r' assms(2) show "od_regionId d = reg_id r'"
      by (simp add: context_ok_def linked_def region_links_def)
  qed (use assms(2) in \<open>auto simp: context_ok_def linked_def region_links_def\<close>)
  moreover have "region_ok r'" if h: "r' \<in> set (regionList ctx')" for r'
  proof -
    obtain r where r: "r \<in> set (regionList ctx)" "r'\<lparr>reg_pbuf := []\<rparr> = r\<lparr>reg_pbuf := []\<rparr>"
        "length (reg_pbuf r') = length (reg_pbuf r)"
      by (rule repainted_region [OF assms(1) h])
    show ?thesis
      by (rule region_ok_repainted [OF r(2,3)]) (use assms(2) r(1) in \<open>simp add: context_ok_def\<close>)
  qed
  ultimately show ?thesis
    using assms(2) ids fs
    by (auto simp: context_ok_def linked_def object_links_def displays_ok_def)
qed

lemma update_region_repainted:
  assumes "r \<in> set (regionList ctx)" "distinct (map reg_id (regionList ctx))"
    and "length pb = length (reg_pbuf r)"
  shows "repainted ctx (update_region (reg_id r) (\<lambda>r. r\<lparr>reg_pbuf := pb\<rparr>) ctx)"
proof -
  let ?f = "\<lambda>r. r\<lparr>reg_pbuf := pb\<rparr>"
  have "map (\<lambda>r. length (reg_pbuf r)) (update_node reg_id (reg_id r) ?f xs)
      = map (\<lambda>r. length (reg_pbuf r)) xs"
    if "r \<in> set xs" "distinct (map reg_id xs)" for xs
    using that assms(3) by (induction xs) (auto simp: rev_image_eqI)
  with assms show ?thesis
    by (simp add: repainted_def update_region_def map_update_node)
qed

lemma parsePixelDataBlock_ok:
  assumes "context_ok ctx" "od_heap ctx a = Some dp"
  shows "yields (\<lambda>(ret, ctx'). ret \<in> {-1, 0} \<and> repainted ctx ctx')
    (parsePixelDataBlock dp m buf n tb nm ctx)"
proof (cases "getRegion ctx (od_regionId dp)")
  case None
  then show ?thesis by (simp add: parsePixelDataBlock_def)
next
  case (Some r)
  have r: "r \<in> set (regionList ctx)" using regions.get_SomeD [OF Some] by simp
  have ok: "region_ok r" "distinct (map reg_id (regionList ctx))" "0 \<le> od_xPos dp" "0 \<le> od_yPos dp"
    using assms r by (auto simp: context_ok_def displays_ok_def)
  have "yields (\<lambda>(v, t). v \<in> {-1, 0} \<and> pixel_inv r (od_yPos dp) t)
    (pixel_loop (pixel_round m dp r (buf + n) nm) (buf + n) (pixel_start dp r buf tb))"
    using ok by (intro pixel_loop_inv) (auto simp: pixel_start_def pixel_inv_def)
  then show ?thesis
    unfolding parsePixelDataBlock_def Some option.case
    using update_region_repainted [OF r ok(2)]
    by (auto intro!: wp elim!: yields_mono simp: pixel_inv_def)
qed

lemma object_fields_ok:
  assumes "context_ok ctx" "\<forall>a \<in> set as. a \<in> dom (od_heap ctx)"
  shows "yields (\<lambda>(ret, ctx'). ret \<in> {-1, 0} \<and> repainted ctx ctx')
    (object_fields m buf tf bf nm ctx as)"
  using assms
proof (induction as arbitrary: bf ctx)
  case (Cons a as)
  then obtain dp where dp: "od_heap ctx a = Some dp" by auto
  obtain r1 c1 where p1: "parsePixelDataBlock dp m buf tf 0 nm ctx = Some (r1, c1)"
    and c1: "r1 \<in> {-1, 0}" "repainted ctx c1"
    using parsePixelDataBlock_ok [OF Cons.prems(1) dp, of m buf tf 0 nm] by (auto elim!: yieldsE)
  have ok1: "context_ok c1" "od_heap c1 = od_heap ctx"
    using context_ok_repainted [OF c1(2) Cons.prems(1)] repainted_fields [OF c1(2)] by auto
  obtain blk b2 where blk: "(if bf > 0 then (buf + tf, bf) else (buf, tf)) = (blk, b2)"
    by (metis surj_pair)
  obtain r2 c2 where p2: "parsePixelDataBlock dp m blk b2 1 nm c1 = Some (r2, c2)"
    and c2: "r2 \<in> {-1, 0}" "repainted c1 c2"
    using parsePixelDataBlock_ok [OF ok1(1), of a dp m blk b2 1 nm] dp ok1(2) by (auto elim!: yieldsE)
  have ok2: "context_ok c2" "od_heap c2 = od_heap ctx" "repainted ctx c2"
    using context_ok_repainted [OF c2(2) ok1(1)] repainted_fields [OF c2(2)] ok1
      repainted_trans [OF c1(2) c2(2)] by auto
  have "yields (\<lambda>(ret, ctx'). ret \<in> {-1, 0} \<and> repainted c2 ctx')
      (object_fields m buf tf b2 nm c2 as)"
    using Cons.prems ok2 by (intro Cons.IH) auto
  then have "yields (\<lambda>(ret, ctx'). ret \<in> {-1, 0} \<and> repainted ctx ctx')
      (object_fields m buf tf b2 nm c2 as)"
    by (rule yields_mono) (use repainted_trans [OF ok2(3)] in auto)
  then show ?case
    using dp p1 p2 c1 c2 ok2 blk by (simp add: Let_def)
qed simp

lemma notifySubtitleErrorInfo_frame [simp]:
  "mContext (notifySubtitleErrorInfo e p) = mContext p"
  "mState (notifySubtitleErrorInfo e p) = mState p"
  "mDecodedSpu (notifySubtitleErrorInfo e p) = mDecodedSpu p"
  by (simp_all add: notifySubtitleErrorInfo_def notify_def)

lemma parseObjectSegment_ok:
  assumes "context_ok (mContext p)"
  shows "yields (\<lambda>(ret, q). ret \<in> {-1, 0} \<and> repainted (mContext p) (mContext q)
      \<and> mState q = mState p) (parseObjectSegment m buf n p)"
proof (cases "getObject (mContext p) (AV_RB16 m buf)")
  case None
  then show ?thesis by (simp add: parseObjectSegment_def)
next
  case (Some ob)
  have ob: "ob \<in> set (objectList (mContext p))" using objects.get_SomeD [OF Some] by simp
  have "\<forall>a \<in> set (obj_displayList ob). a \<in> dom (od_heap (mContext p))"
  proof -
    have "object_links (mContext p)" using assms by (simp add: context_ok_def linked_def)
    from object_links_live [OF this ob] show ?thesis by blast
  qed
  note fields = object_fields_ok [OF assms this]
  show ?thesis
    unfolding parseObjectSegment_def Let_def Some option.case
    by (intro yields_if yields_bind) (auto intro!: yields_mono [OF fields])
qed

end
