(* ===== verification/Stream_Utils.thy ===== *)
theory Stream_Utils
  imports Prelude
begin

text \<open>
  \<open>utils/StreamUtils.h\<close>, the PES header fields that the demultiplexing parsers decode,
  and the search for a packet's start code over a \<open>DataSource\<close>.

  A data source is a state \<open>'s\<close> with \<open>read\<close>: the bytes delivered, at most as many as
  asked for, and the state after; \<open>None\<close> is a call that blocks for ever. \<open>cval\<close> is the value of a
  plain \<open>char\<close>: \<open>uint\<close> on the targets with an unsigned \<open>char\<close>, \<open>sint\<close> on the others.
\<close>

type_synonym 's reader = "nat \<Rightarrow> 's \<Rightarrow> (u8 list \<times> 's) option"

section \<open>Integers of a byte buffer\<close>

definition pts2Ms :: "int \<Rightarrow> int" where
  "pts2Ms p = (if 0 \<le> p then p div 90 else - ((- p) div 90))"

definition ms2Pts :: "int \<Rightarrow> int" where
  "ms2Pts ms = ms * 90"

definition subAscii2Value :: "int \<Rightarrow> int" where
  "subAscii2Value ascii = ascii - 48"

text \<open>\<open>value <<= 8; value |= buffer[i]\<close>, at the width of the result.\<close>

definition peek_signed :: "(u8 \<Rightarrow> int) \<Rightarrow> nat \<Rightarrow> u8 list \<Rightarrow> int" where
  "peek_signed cval w = foldl (\<lambda>value b. signed_take_bit (w - 1) (push_bit 8 value) OR cval b) 0"

definition peek_unsigned :: "(u8 \<Rightarrow> int) \<Rightarrow> nat \<Rightarrow> u8 list \<Rightarrow> int" where
  "peek_unsigned cval w = foldl (\<lambda>value b. take_bit w (push_bit 8 value OR cval b)) 0"

definition subPeekAsInt32 :: "(u8 \<Rightarrow> int) \<Rightarrow> u8 list \<Rightarrow> int" where
  "subPeekAsInt32 cval buffer = peek_signed cval 32 (take 4 buffer)"

definition subPeekAsUint32 :: "(u8 \<Rightarrow> int) \<Rightarrow> u8 list \<Rightarrow> int" where
  "subPeekAsUint32 cval buffer = peek_unsigned cval 32 (take 4 buffer)"

definition subPeekAsInt64 :: "(u8 \<Rightarrow> int) \<Rightarrow> u8 list \<Rightarrow> int" where
  "subPeekAsInt64 cval buffer = peek_signed cval 64 (take 8 buffer)"

definition subPeekAsUint64 :: "(u8 \<Rightarrow> int) \<Rightarrow> u8 list \<Rightarrow> int" where
  "subPeekAsUint64 cval buffer = peek_unsigned cval 64 (take 8 buffer)"

text \<open>\<open>bytestream_get_*\<close>: the value and the advanced pointer.\<close>

definition bytestream_get_be32 :: "mem \<Rightarrow> nat \<Rightarrow> int \<times> nat" where
  "bytestream_get_be32 m p =
     (((byte_at m (p + 3) OR push_bit 8 (byte_at m (p + 2))) OR push_bit 16 (byte_at m (p + 1)))
        OR push_bit 24 (byte_at m p), p + 4)"

definition bytestream_get_be24 :: "mem \<Rightarrow> nat \<Rightarrow> int \<times> nat" where
  "bytestream_get_be24 m p =
     ((byte_at m (p + 2) OR push_bit 8 (byte_at m (p + 1))) OR push_bit 16 (byte_at m p), p + 3)"

definition bytestream_get_be16 :: "mem \<Rightarrow> nat \<Rightarrow> int \<times> nat" where
  "bytestream_get_be16 m p = (byte_at m (p + 1) OR push_bit 8 (byte_at m p), p + 2)"

definition bytestream_get_byte :: "mem \<Rightarrow> nat \<Rightarrow> int \<times> nat" where
  "bytestream_get_byte m p = (byte_at m p, p + 1)"

section \<open>Reading into a buffer\<close>

text \<open>
  \<open>mDataSource->read(buf, n)\<close> into an array: the byte count, the array and the source.
  A negative \<open>n\<close> is a huge \<open>size_t\<close>; delivering more than the array holds is a fault.
\<close>

definition read_into :: "'s reader \<Rightarrow> int \<Rightarrow> u8 list \<Rightarrow> 's \<Rightarrow> (int \<times> u8 list \<times> 's) option" where
  "read_into rd n buf s = do {
     (bs, s) \<leftarrow> rd (nat (size_of n)) s;
     (if length bs \<le> length buf then Some (int (length bs), bs @ drop (length bs) buf, s) else None) }"

text \<open>The time stamp at position \<open>k\<close> of a PES header: every \<open>char\<close> is masked before use.\<close>

definition pes_timestamp :: "(u8 \<Rightarrow> int) \<Rightarrow> u8 list \<Rightarrow> nat \<Rightarrow> int" where
  "pes_timestamp cval buf k =
     (((push_bit 29 (cval (buf ! k) AND 0xe)
        OR push_bit 22 (cval (buf ! (k + 1)) AND 0xff))
        OR push_bit 14 (cval (buf ! (k + 2)) AND 0xfe))
        OR push_bit 7 (cval (buf ! (k + 3)) AND 0xff))
        OR drop_bit 1 (cval (buf ! (k + 4)) AND 0xfe)"

section \<open>Big-endian values\<close>

text \<open>What the peeks are for: the big-endian value of the bytes.\<close>

definition be_value :: "u8 list \<Rightarrow> int" where
  "be_value = foldl (\<lambda>v b. v * 256 + uint b) 0"

lemma foldl_be_value_range:
  "0 \<le> v \<Longrightarrow> v < 2 ^ n \<Longrightarrow> 0 \<le> foldl (\<lambda>v b. v * 256 + uint (b :: u8)) v bs \<and>
     foldl (\<lambda>v b. v * 256 + uint (b :: u8)) v bs < 2 ^ (n + 8 * length bs)"
proof (induction bs arbitrary: v n)
  case (Cons b bs)
  have "0 \<le> uint b \<and> uint b < 256" using uint_bounded [of b] by simp
  then have "0 \<le> v * 256 + uint b \<and> v * 256 + uint b < 2 ^ (n + 8)"
    using Cons.prems by (auto simp: power_add)
  then show ?case using Cons.IH [of "v * 256 + uint b" "n + 8"] by (simp add: add.assoc)
qed simp

lemma be_value_range: "0 \<le> be_value bs" "be_value bs < 2 ^ (8 * length bs)"
  using foldl_be_value_range [of 0 0 bs] by (simp_all add: be_value_def)

lemma or_byte: "push_bit 8 v OR uint (b :: u8) = v * 256 + uint b"
proof -
  have "push_bit 8 v AND uint b = 0"
    by (rule bit_eqI) (auto simp: bit_simps dest: bit_imp_le_length)
  then have "push_bit 8 v OR uint b = push_bit 8 v + uint b" by (simp add: disjunctive_add_eq_or)
  then show ?thesis by (simp add: push_bit_eq_mult)
qed

lemma foldl_or_bytes:
  "foldl (\<lambda>value b. take_bit w (push_bit 8 value OR uint (b :: u8))) (take_bit w v) bs
     = take_bit w (foldl (\<lambda>v b. v * 256 + uint b) v bs)"
proof (induction bs arbitrary: v)
  case (Cons b bs)
  have "take_bit w (push_bit 8 (take_bit w v) OR uint b) = take_bit w (push_bit 8 v OR uint b)"
    by (rule bit_eqI) (auto simp: bit_simps)
  then show ?case using Cons.IH [of "v * 256 + uint b"] by (simp add: or_byte)
qed simp

lemma peek_unsigned_eq: "peek_unsigned uint w bs = take_bit w (be_value bs)"
  using foldl_or_bytes [of w 0 bs] by (simp add: peek_unsigned_def be_value_def)

lemma byte_bits: "bit (uint (b :: u8)) n \<Longrightarrow> n < 8"
  using bit_imp_le_length [of b n] by (simp add: bit_uint_iff)

lemma foldl_or_signed:
  assumes "16 \<le> w"
  shows "foldl (\<lambda>value b. signed_take_bit (w - 1) (push_bit 8 value) OR uint (b :: u8)) (signed_take_bit (w - 1) v) bs
     = signed_take_bit (w - 1) (foldl (\<lambda>v b. v * 256 + uint b) v bs)"
proof (induction bs arbitrary: v)
  case (Cons b bs)
  have "signed_take_bit (w - 1) (push_bit 8 (signed_take_bit (w - 1) v)) OR uint b
      = signed_take_bit (w - 1) (push_bit 8 v OR uint b)"
  proof (rule bit_eqI)
    fix n
    show "bit (signed_take_bit (w - 1) (push_bit 8 (signed_take_bit (w - 1) v)) OR uint b) n
        = bit (signed_take_bit (w - 1) (push_bit 8 v OR uint b)) n"
      using assms byte_bits [of b n] byte_bits [of b "w - 1"]
      by (auto simp: bit_simps min_def)
  qed
  then show ?case using Cons.IH [of "v * 256 + uint b"] by (simp add: or_byte)
qed simp

lemma peek_signed_eq: "16 \<le> w \<Longrightarrow> peek_signed uint w bs = signed_take_bit (w - 1) (be_value bs)"
  using foldl_or_signed [of w 0 bs] by (simp add: peek_signed_def be_value_def)

section \<open>Time stamps\<close>

text \<open>The five bytes with which a PES header carries a 33-bit time stamp (ISO 13818-1).\<close>

definition encode_timestamp :: "int \<Rightarrow> int \<Rightarrow> u8 list" where
  "encode_timestamp prefix t =
     [word_of_int ((push_bit 4 prefix OR (drop_bit 29 t AND 0xe)) OR 1),
      word_of_int (drop_bit 22 t),
      word_of_int ((drop_bit 14 t AND 0xfe) OR 1),
      word_of_int (drop_bit 7 t),
      word_of_int (push_bit 1 t OR 1)]"

lemma and_masks:
  "x AND 0xff = take_bit 8 x" "x AND 0xe = push_bit 1 (take_bit 3 (drop_bit 1 x))"
  "x AND 0xfe = push_bit 1 (take_bit 7 (drop_bit 1 x))" for x :: int
proof -
  show "x AND 0xff = take_bit 8 x" by (simp add: take_bit_eq_mask mask_eq_exp_minus_1)
  have e: "(0xe :: int) = push_bit 1 (mask 3)" and fe: "(0xfe :: int) = push_bit 1 (mask 7)"
    by (simp_all add: mask_eq_exp_minus_1 push_bit_eq_mult)
  show "x AND 0xe = push_bit 1 (take_bit 3 (drop_bit 1 x))"
    unfolding e by (rule bit_eqI) (simp only: bit_simps, auto)
  show "x AND 0xfe = push_bit 1 (take_bit 7 (drop_bit 1 x))"
    unfolding fe by (rule bit_eqI) (simp only: bit_simps, auto)
qed

lemma pes_timestamp_bytes:
  "pes_timestamp cval [a, b, c, d, e] 0 =
     (((push_bit 29 (cval a AND 0xe) OR push_bit 22 (cval b AND 0xff)) OR push_bit 14 (cval c AND 0xfe))
        OR push_bit 7 (cval d AND 0xff)) OR drop_bit 1 (cval e AND 0xfe)"
  by (simp add: pes_timestamp_def)

lemma byte_of_int_bit: "bit (uint (word_of_int x :: u8)) n \<longleftrightarrow> n < 8 \<and> bit x n"
  by (simp add: bit_simps)

lemma timestamp_roundtrip:
  assumes "0 \<le> t" "t < 2 ^ 33"
  shows "pes_timestamp uint (encode_timestamp prefix t) 0 = t"
proof (rule bit_eqI)
  fix n
  have high: "\<not> bit t n" if "33 \<le> n"
  proof -
    have "take_bit 33 t = t" using assms by (simp add: take_bit_int_eq_self)
    then show ?thesis using that by (metis bit_take_bit_iff not_less)
  qed
  consider "n < 7" | "7 \<le> n" "n < 15" | "15 \<le> n" "n < 22" | "22 \<le> n" "n < 30" | "30 \<le> n" "n < 33" | "33 \<le> n"
    by linarith
  then show "bit (pes_timestamp uint (encode_timestamp prefix t) 0) n = bit t n"
    using high unfolding encode_timestamp_def pes_timestamp_bytes and_masks
    by cases (simp_all only: byte_of_int_bit bit_or_iff bit_push_bit_iff bit_drop_bit_eq
        bit_take_bit_iff comp_def bit_1_iff, auto)
qed

end
