(* ===== verification/Data_Source.thy ===== *)
theory Data_Source
  imports Stream_Utils
begin

text \<open>
  The byte queue between the I/O threads and the parser threads:
  \<open>BufferItem\<close> and \<open>BufferSegment\<close> of \<open>utils/Segment.h\<close>, and the reading ends in
  \<open>io/DeviceSource.cpp\<close> (\<open>SocketSource\<close>, \<open>VbiSource\<close> and \<open>ExternalDataSource\<close> run the same
  loop) and \<open>io/DemuxSource.cpp\<close>.

  The model is the parser thread's view: the queue holds what has been pushed so far,
  and waiting on an empty queue is \<open>None\<close>.
\<close>

section \<open>Buffers and their queue\<close>

record BufferItem =
  mSize :: int
  mBuffer :: "u8 list"
  mPtr :: int
  mRemainSize :: int

definition new_item :: "u8 list \<Rightarrow> BufferItem" where
  "new_item buf = \<lparr>mSize = int (length buf), mBuffer = buf, mPtr = 0, mRemainSize = int (length buf)\<rparr>"

definition isEmpty :: "BufferItem \<Rightarrow> bool" where
  "isEmpty it \<longleftrightarrow> mRemainSize it = 0"

text \<open>\<open>memcpy\<close> of the next \<open>n\<close> bytes; a negative count or an over-read faults.\<close>

definition item_copy :: "int \<Rightarrow> BufferItem \<Rightarrow> (u8 list \<times> BufferItem) option" where
  "item_copy n it =
     (if 0 \<le> n \<and> 0 \<le> mPtr it \<and> mPtr it + n \<le> int (length (mBuffer it))
      then Some (take (nat n) (drop (nat (mPtr it)) (mBuffer it)),
                 it\<lparr>mPtr := mPtr it + n, mRemainSize := mRemainSize it - n\<rparr>)
      else None)"

definition need_read :: "int \<Rightarrow> BufferItem \<Rightarrow> int" where
  "need_read sz it = (if sz > mRemainSize it then mRemainSize it else sz)"

definition read_l :: "int \<Rightarrow> BufferItem \<Rightarrow> (u8 list \<times> BufferItem) option" where
  "read_l sz it =
     (if sz = 0 \<or> mRemainSize it = 0 then Some ([], it) else item_copy (need_read sz it) it)"

text \<open>The position of the first PES start code that \<open>read_check\<close> looks at.\<close>

definition start_code_at :: "u8 list \<Rightarrow> nat \<Rightarrow> bool" where
  "start_code_at xs i \<longleftrightarrow> take 4 (drop i xs) = [0, 0, 1, 0xbd]"

definition find_start_code :: "u8 list \<Rightarrow> nat \<Rightarrow> nat option" where
  "find_start_code xs n = List.find (start_code_at xs) [0..<n]"

text \<open>The result's flag is \<open>*isReadItemEnd = -1\<close>: the copy stopped before a start code.\<close>

definition read_check :: "int \<Rightarrow> bool \<Rightarrow> BufferItem \<Rightarrow> (u8 list \<times> bool \<times> BufferItem) option" where
  "read_check sz demux it =
     (if sz = 0 \<or> mRemainSize it = 0 then Some ([], False, it)
      else
        let n = need_read sz it;
            hit = (if n \<ge> 4 \<and> demux
                   then find_start_code (drop (nat (mPtr it)) (mBuffer it)) (nat (n - 4)) else None)
        in case hit of
             None \<Rightarrow> do { (bs, it) \<leftarrow> item_copy n it; Some (bs, False, it) }
           | Some i \<Rightarrow> do { (bs, it) \<leftarrow> item_copy (int i) it; Some (bs, True, it) })"

record Source =
  mSegments :: "BufferItem list"
  mAvailableDataSize :: int
  mEnabled :: bool
  mCurrentItem :: "BufferItem option"
  mStarted :: bool

definition push :: "u8 list \<Rightarrow> Source \<Rightarrow> bool \<times> Source" where
  "push buf s =
     (if buf = [] then (False, s)
      else (True, s\<lparr>mSegments := mSegments s @ [new_item buf],
              mAvailableDataSize := mAvailableDataSize s + int (length buf)\<rparr>))"

definition pop :: "Source \<Rightarrow> (BufferItem option \<times> Source) option" where
  "pop s =
     (case mSegments s of
        [] \<Rightarrow> if mEnabled s then None else Some (None, s)
      | item # rest \<Rightarrow> Some (Some item, s\<lparr>mSegments := rest,
            mAvailableDataSize := mAvailableDataSize s - mSize item\<rparr>))"

definition notifyExit :: "Source \<Rightarrow> Source" where
  "notifyExit s = s\<lparr>mEnabled := False, mAvailableDataSize := 0\<rparr>"

section \<open>Reading\<close>

partial_function (option) read_loop :: "int \<Rightarrow> u8 list \<Rightarrow> Source \<Rightarrow> (u8 list \<times> Source) option" where
  "read_loop sz acc s =
     (if int (length acc) \<noteq> sz \<and> mStarted s then
        (case mCurrentItem s of
           Some item \<Rightarrow>
             if \<not> isEmpty item then do {
               (bs, item) \<leftarrow> read_l (wrap32 (sz - int (length acc))) item;
               let s = s\<lparr>mCurrentItem := Some item\<rparr>;
               (if int (length (acc @ bs)) = sz then Some (acc @ bs, s) else read_loop sz (acc @ bs) s) }
             else do { (next, s) \<leftarrow> pop s; read_loop sz acc (s\<lparr>mCurrentItem := next\<rparr>) }
         | None \<Rightarrow> do { (next, s) \<leftarrow> pop s; read_loop sz acc (s\<lparr>mCurrentItem := next\<rparr>) })
      else Some (acc, s))"

declare read_loop.simps [code]

definition device_read :: "Source reader" where
  "device_read n s = read_loop (int n) [] s"

partial_function (option) demux_loop :: "int \<Rightarrow> u8 list \<Rightarrow> Source \<Rightarrow> (u8 list \<times> Source) option" where
  "demux_loop sz acc s =
     (if int (length acc) \<noteq> sz \<and> mStarted s then
        (case mCurrentItem s of
           Some item \<Rightarrow>
             if \<not> isEmpty item then
               let sz = (if sz = 0xffff then mSize item else sz) in do {
                 (bs, hit, item) \<leftarrow> read_check (wrap32 (sz - int (length acc))) True item;
                 let s = s\<lparr>mCurrentItem := Some item\<rparr>;
                 (if int (length (acc @ bs)) = sz \<or> hit then Some (acc @ bs, s)
                  else demux_loop sz (acc @ bs) s) }
             else do { (next, s) \<leftarrow> pop s; demux_loop sz acc (s\<lparr>mCurrentItem := next\<rparr>) }
         | None \<Rightarrow> do { (next, s) \<leftarrow> pop s; demux_loop sz acc (s\<lparr>mCurrentItem := next\<rparr>) })
      else Some (acc, s))"

declare demux_loop.simps [code]

definition demux_read :: "Source reader" where
  "demux_read n s = demux_loop (int n) [] s"

section \<open>The contract of a source\<close>

text \<open>
  What the parsers rely on: as long as enough bytes are queued, a read delivers exactly
  the next ones and leaves the others, whatever the sizes of the queued buffers.
\<close>

locale byte_source =
  fixes rd :: "'s reader" and pending :: "'s \<Rightarrow> u8 list" and live :: "'s \<Rightarrow> bool"
  assumes rd_enough: "live s \<Longrightarrow> n < 2 ^ 31 \<Longrightarrow> n \<le> length (pending s) \<Longrightarrow>
    yields (\<lambda>(bs, s'). bs = take n (pending s) \<and> pending s' = drop n (pending s) \<and> live s') (rd n s)"
begin

lemma rd_exact:
  assumes "live s" "pending s = xs @ rest" "length xs < 2 ^ 31"
  obtains s' where "rd (length xs) s = Some (xs, s')" "pending s' = rest" "live s'"
  using rd_enough [of s "length xs"] assms that by (auto elim: yieldsE)

lemma read_into_exact:
  assumes "live s" "pending s = xs @ rest" "n = int (length xs)" "length xs < 2 ^ 31" "length xs \<le> length buf"
  obtains s' where "read_into rd n buf s = Some (n, xs @ drop (length xs) buf, s')" "pending s' = rest" "live s'"
proof -
  obtain s' where s': "rd (length xs) s = Some (xs, s')" "pending s' = rest" "live s'"
    by (rule rd_exact [OF assms(1,2,4)])
  have "nat (size_of n) = length xs" using assms(3,4) by simp
  then have "read_into rd n buf s = Some (n, xs @ drop (length xs) buf, s')"
    using s'(1) assms(3,5) by (simp add: read_into_def)
  with s'(2,3) show ?thesis by (intro that)
qed

text \<open>Two reads deliver what one read of both sizes does.\<close>

lemma rd_split:
  assumes "live s" "n + k < 2 ^ 31" "n + k \<le> length (pending s)"
  shows "yields (\<lambda>(ys, s'). yields (\<lambda>(zs, s''). ys @ zs = take (n + k) (pending s) \<and>
      pending s'' = drop (n + k) (pending s)) (rd k s')) (rd n s)"
proof -
  obtain s' where s': "rd n s = Some (take n (pending s), s')" "pending s' = drop n (pending s)" "live s'"
    using rd_enough [of s n] assms by (auto elim: yieldsE)
  have "yields (\<lambda>(zs, s''). zs = take k (pending s') \<and> pending s'' = drop k (pending s') \<and> live s'') (rd k s')"
    using s' assms by (intro rd_enough) auto
  then show ?thesis using s' by (auto elim!: yieldsE simp: add.commute simp flip: take_add)
qed

end

section \<open>The device source keeps the contract\<close>

definition item_ok :: "BufferItem \<Rightarrow> bool" where
  "item_ok it \<longleftrightarrow> 0 \<le> mPtr it \<and> 0 \<le> mRemainSize it \<and> mPtr it + mRemainSize it = int (length (mBuffer it)) \<and>
     length (mBuffer it) < 2 ^ 31"

definition item_rest :: "BufferItem \<Rightarrow> u8 list" where
  "item_rest it = drop (nat (mPtr it)) (mBuffer it)"

definition source_pending :: "Source \<Rightarrow> u8 list" where
  "source_pending s = (case mCurrentItem s of None \<Rightarrow> [] | Some it \<Rightarrow> item_rest it)
     @ concat (map item_rest (mSegments s))"

definition source_live :: "Source \<Rightarrow> bool" where
  "source_live s \<longleftrightarrow> mStarted s \<and> (\<forall>it \<in> set (mSegments s). item_ok it) \<and>
     (\<forall>it. mCurrentItem s = Some it \<longrightarrow> item_ok it)"

lemma length_item_rest: "item_ok it \<Longrightarrow> int (length (item_rest it)) = mRemainSize it"
  by (auto simp: item_ok_def item_rest_def)

lemma read_l_yields:
  assumes "item_ok it" "0 < n"
  shows "yields (\<lambda>(bs, it'). bs = take (nat n) (item_rest it) \<and> item_rest it' = drop (nat n) (item_rest it) \<and>
    item_ok it') (read_l n it)"
proof -
  have len: "length (item_rest it) = nat (mRemainSize it)" using length_item_rest [OF assms(1)] by simp
  show ?thesis
  proof (cases "mRemainSize it = 0")
    case True
    with len assms show ?thesis by (simp add: read_l_def)
  next
    case False
    let ?k = "need_read n it"
    have k: "0 \<le> ?k" "?k \<le> mRemainSize it" "nat ?k = min (nat n) (length (item_rest it))"
      using assms len by (auto simp: need_read_def item_ok_def min_def)
    then have "item_copy ?k it = Some (take (nat ?k) (item_rest it),
        it\<lparr>mPtr := mPtr it + ?k, mRemainSize := mRemainSize it - ?k\<rparr>)"
      using assms(1) by (simp add: item_copy_def item_ok_def item_rest_def)
    moreover have "take (nat ?k) (item_rest it) = take (nat n) (item_rest it)"
        "drop (nat ?k) (item_rest it) = drop (nat n) (item_rest it)"
      unfolding k(3) by (simp_all add: min_def)
    moreover have "item_rest (it\<lparr>mPtr := mPtr it + ?k, mRemainSize := mRemainSize it - ?k\<rparr>) = drop (nat ?k) (item_rest it)"
      using k(1) assms(1) by (simp add: item_rest_def item_ok_def nat_add_distrib add.commute)
    ultimately show ?thesis
      using False assms k(1,2) by (simp add: read_l_def item_ok_def)
  qed
qed

lemma read_loop_yields:
  assumes "source_live s" "0 \<le> n" "n < 2 ^ 31" "int (length acc) \<le> n"
    "n - int (length acc) \<le> int (length (source_pending s))"
  shows "yields (\<lambda>(bs, s'). \<exists>ys. bs = acc @ ys \<and> int (length bs) = n \<and> source_pending s = ys @ source_pending s' \<and>
    source_live s') (read_loop n acc s)"
  using assms(1,4,5)
proof (induction "length (mSegments s)" arbitrary: s acc rule: less_induct)
  case less
  have finished: ?case if "int (length acc) = n"
    using that less.prems by (subst read_loop.simps) simp
  have popped: ?case if "mCurrentItem s = None \<or> (\<exists>it. mCurrentItem s = Some it \<and> isEmpty it)" "int (length acc) \<noteq> n"
  proof -
    have none: "(case mCurrentItem s of None \<Rightarrow> [] | Some it \<Rightarrow> item_rest it) = []"
      using that(1) less.prems(1) by (auto simp: isEmpty_def source_live_def dest!: length_item_rest)
    then have "mSegments s \<noteq> []"
      using that(2) less.prems(2,3) by (auto simp: source_pending_def)
    then obtain it segs where segs: "mSegments s = it # segs" by (cases "mSegments s") auto
    let ?s = "s\<lparr>mSegments := segs, mAvailableDataSize := mAvailableDataSize s - mSize it, mCurrentItem := Some it\<rparr>"
    have pend: "source_pending ?s = source_pending s" using none segs by (simp add: source_pending_def)
    have "read_loop n acc s = read_loop n acc ?s"
      using that less.prems(1) segs
      by (subst read_loop.simps) (auto simp: pop_def source_live_def)
    moreover have "source_live ?s" using less.prems(1) segs by (auto simp: source_live_def)
    then have "yields (\<lambda>(bs, s'). \<exists>ys. bs = acc @ ys \<and> int (length bs) = n \<and> source_pending ?s = ys @ source_pending s' \<and>
        source_live s') (read_loop n acc ?s)"
      using segs less.prems(2,3) pend by (intro less.hyps) auto
    ultimately show ?thesis using pend by simp
  qed
  show ?case
  proof (cases "int (length acc) = n \<or> mCurrentItem s = None \<or> (\<exists>it. mCurrentItem s = Some it \<and> isEmpty it)")
    case True
    with finished popped show ?thesis by blast
  next
    case False
    then obtain it where it: "mCurrentItem s = Some it" "\<not> isEmpty it" "item_ok it" "int (length acc) \<noteq> n"
      using less.prems(1) by (auto simp: source_live_def)
    let ?k = "n - int (length acc)"
    have k: "wrap32 ?k = ?k" "0 < ?k" using less.prems(2) assms(3) it(4) by auto
    obtain it' where rl: "read_l ?k it = Some (take (nat ?k) (item_rest it), it')"
        "item_rest it' = drop (nat ?k) (item_rest it)" "item_ok it'"
      using read_l_yields [OF it(3) k(2)] by (auto elim: yieldsE)
    let ?bs = "take (nat ?k) (item_rest it)" and ?s = "s\<lparr>mCurrentItem := Some it'\<rparr>"
    have run: "read_loop n acc s = (if int (length (acc @ ?bs)) = n then Some (acc @ ?bs, ?s)
        else read_loop n (acc @ ?bs) ?s)"
      using it less.prems(1) k(1) rl(1) by (subst read_loop.simps) (simp add: source_live_def)
    have pend: "source_pending s = ?bs @ source_pending ?s"
      using it(1) rl(2) by (simp add: source_pending_def)
    have live: "source_live ?s" using less.prems(1) rl(3) by (simp add: source_live_def)
    show ?thesis
    proof (cases "int (length (acc @ ?bs)) = n")
      case True
      then show ?thesis unfolding run using pend live by simp
    next
      case False2: False
      then have short: "length (item_rest it) < nat ?k" using k(2) by (auto simp: min_def split: if_splits)
      then have empty: "isEmpty it'"
        using rl(2,3) length_item_rest [OF rl(3)] by (simp add: isEmpty_def)
      have bs: "?bs = item_rest it" using short by simp
      have rest: "(case mCurrentItem ?s of None \<Rightarrow> [] | Some it \<Rightarrow> item_rest it) = []"
        using rl(2) short by simp
      have need: "n - int (length (acc @ ?bs)) \<le> int (length (source_pending ?s))"
        using less.prems(3) pend by (simp add: bs)
      have "mSegments s \<noteq> []"
        using need rest short bs by (auto simp: source_pending_def)
      then obtain it2 segs where segs: "mSegments s = it2 # segs" by (cases "mSegments s") auto
      let ?t = "?s\<lparr>mSegments := segs, mAvailableDataSize := mAvailableDataSize s - mSize it2, mCurrentItem := Some it2\<rparr>"
      have pt: "source_pending ?t = source_pending ?s" using rest segs by (simp add: source_pending_def)
      have "read_loop n (acc @ ?bs) ?s = read_loop n (acc @ ?bs) ?t"
        using False2 empty live segs by (subst read_loop.simps) (simp add: pop_def source_live_def)
      moreover have "yields (\<lambda>(bs, s'). \<exists>ys. bs = (acc @ ?bs) @ ys \<and> int (length bs) = n \<and>
          source_pending ?t = ys @ source_pending s' \<and> source_live s') (read_loop n (acc @ ?bs) ?t)"
      proof (rule less.hyps)
        show "source_live ?t" using live segs by (auto simp: source_live_def)
        show "int (length (acc @ ?bs)) \<le> n" using short k(2) by (simp add: bs)
        show "n - int (length (acc @ ?bs)) \<le> int (length (source_pending ?t))" using need pt by simp
      qed (use segs in simp)
      ultimately show ?thesis
        using run False2 pend pt by (auto elim!: yieldsE)
    qed
  qed
qed

interpretation device: byte_source device_read source_pending source_live
proof
  fix s n assume h: "source_live s" "n < (2 :: nat) ^ 31" "n \<le> length (source_pending s)"
  then have "yields (\<lambda>(bs, s'). \<exists>ys. bs = [] @ ys \<and> int (length bs) = int n \<and>
      source_pending s = ys @ source_pending s' \<and> source_live s') (read_loop (int n) [] s)"
    by (intro read_loop_yields) auto
  then show "yields (\<lambda>(bs, s'). bs = take n (source_pending s) \<and> source_pending s' = drop n (source_pending s) \<and>
      source_live s') (device_read n s)"
    by (auto simp: device_read_def elim!: yields_mono)
qed

text \<open>What is pushed is appended to what is pending.\<close>

lemma push_pending:
  assumes "source_live s" "length buf < 2 ^ 31"
  shows "source_live (snd (push buf s)) \<and> source_pending (snd (push buf s)) = source_pending s @ buf"
  using assms by (auto simp: push_def source_live_def source_pending_def new_item_def item_ok_def item_rest_def)

end
