(* ===== verification/Packet_Sync.thy ===== *)
theory Packet_Sync
  imports Data_Source Parser_Base
begin

text \<open>
  What the binary decoders share when they look for a packet: the C environment, the
  search for a start code over a data source, and the skipping of bytes.

  \<open>env\<close> collects what the C environment decides: which allocations succeed, the bytes
  of the heap after a packet, whether plain \<open>char\<close> is signed, and whether the build leaves
  \<open>assert\<close> in (it does unless \<open>NDEBUG\<close> is defined).
\<close>

section \<open>The environment\<close>

text \<open>The allocations of the decoders.\<close>

datatype request =
    ClutNode
  | RegionNode
  | PixelBuffer int
  | ObjectNode
  | ObjectDisplayNode
  | RegionDisplayNode
  | DisplayDefinitionNode
  | DisplayBuffer int
  | SpuData int
  | PacketBuffer int
  | RleBuffer int
  | BitmapBuffer int
  | ExtraDataBuffer int
  | FieldBuffer int
  | ResizeBuffer int
  | UnitBuffer int
  | RestBuffer int
  | RingNode
  | RingData int
  | Payload int

record env =
  malloc_ok :: "request \<Rightarrow> bool"
  stray :: mem
  cval :: "u8 \<Rightarrow> int"
  asserts :: bool

text \<open>\<open>assert\<close> aborts when the build leaves it in, and does nothing otherwise.\<close>

definition assert_that :: "'a env_scheme \<Rightarrow> bool \<Rightarrow> unit option" where
  "assert_that E b = (if asserts E \<and> \<not> b then None else Some ())"

lemma assert_that_holds [simp]: "b \<Longrightarrow> assert_that E b = Some ()"
  by (simp add: assert_that_def)

definition packet_mem :: "env \<Rightarrow> u8 list \<Rightarrow> mem" where
  "packet_mem E data = (\<lambda>i. if i < length data then data ! i else stray E i)"

section \<open>Start codes\<close>

datatype sync = NoSync | HwSync | SoftSync

definition shift_header :: "int \<Rightarrow> int \<Rightarrow> int" where
  "shift_header packetHeader c = (push_bit 8 packetHeader AND 0xffffffff00) OR c"

definition sync_of :: "int \<Rightarrow> sync" where
  "sync_of h =
     (if h AND 0xffffffff = 0x1bd then HwSync
      else if drop_bit 8 (h AND 0xffffffffff) = AML_PARSER_SYNC_WORD
          \<and> (h AND 0xff = 0x77 \<or> h AND 0xff = 0xaa) then SoftSync
      else NoSync)"

text \<open>\<open>while (read(tmpbuf, 1) == 1)\<close>: the loop ends when the source has no byte left.\<close>

partial_function (option) find_sync ::
  "(u8 \<Rightarrow> int) \<Rightarrow> 's reader \<Rightarrow> bool \<Rightarrow> int \<Rightarrow> 's \<Rightarrow> (sync \<times> 's) option" where
  "find_sync cv rd stopped h s = do {
     (bs, s) \<leftarrow> rd 1 s;
     (case bs of
        [b] \<Rightarrow>
          if stopped then Some (NoSync, s)
          else
            let h = shift_header h (cv b) in
            (if sync_of h = NoSync then find_sync cv rd stopped h s else Some (sync_of h, s))
      | _ \<Rightarrow> Some (NoSync, s)) }"

declare find_sync.simps [code]

text \<open>Bytes that are read and dropped, until the source has none.\<close>

fun skip_bytes :: "'s reader \<Rightarrow> nat \<Rightarrow> 's \<Rightarrow> 's option" where
  "skip_bytes rd 0 s = Some s"
| "skip_bytes rd (Suc k) s = do {
     (bs, s) \<leftarrow> rd 1 s;
     (if bs = [] then Some s else skip_bytes rd k s) }"

section \<open>The first start code of a stream\<close>

text \<open>The header register after some bytes, and where the first start code ends.\<close>

definition header_after :: "(u8 \<Rightarrow> int) \<Rightarrow> int \<Rightarrow> u8 list \<Rightarrow> int" where
  "header_after cv h bs = foldl (\<lambda>h b. shift_header h (cv b)) h bs"

definition first_sync :: "(u8 \<Rightarrow> int) \<Rightarrow> int \<Rightarrow> u8 list \<Rightarrow> sync \<Rightarrow> bool" where
  "first_sync cv h bs x \<longleftrightarrow> bs \<noteq> [] \<and> x \<noteq> NoSync \<and> sync_of (header_after cv h bs) = x \<and>
     (\<forall>k \<in> {1..<length bs}. sync_of (header_after cv h (take k bs)) = NoSync)"

context byte_source begin

lemma find_sync_first:
  assumes "live s" "pending s = bs @ rest" "first_sync cv h bs x"
  shows "yields (\<lambda>(y, s'). y = x \<and> pending s' = rest \<and> live s') (find_sync cv rd False h s)"
  using assms
proof (induction bs arbitrary: h s)
  case Nil
  then show ?case by (simp add: first_sync_def)
next
  case (Cons b bs)
  obtain s1 where s1: "rd 1 s = Some ([b], s1)" "pending s1 = bs @ rest" "live s1"
    using rd_exact [OF Cons.prems(1), of "[b]" "bs @ rest"] Cons.prems(2) by auto
  let ?h = "shift_header h (cv b)"
  have eq: "find_sync cv rd False h s
      = (if sync_of ?h = NoSync then find_sync cv rd False ?h s1 else Some (sync_of ?h, s1))"
    using s1(1) by (subst find_sync.simps) (simp add: Let_def)
  show ?case
  proof (cases "bs = []")
    case True
    then show ?thesis using eq s1 Cons.prems(3) by (simp add: first_sync_def header_after_def)
  next
    case False
    then have no: "sync_of ?h = NoSync"
      using Cons.prems(3) by (auto simp: first_sync_def header_after_def dest: bspec [of _ _ 1])
    moreover have "first_sync cv ?h bs x"
      unfolding first_sync_def
    proof (intro conjI ballI)
      show "bs \<noteq> []" "x \<noteq> NoSync" "sync_of (header_after cv ?h bs) = x"
        using False Cons.prems(3) by (auto simp: first_sync_def header_after_def)
      fix k assume "k \<in> {1..<length bs}"
      then have "Suc k \<in> {1..<length (b # bs)}" by auto
      then have "sync_of (header_after cv h (take (Suc k) (b # bs))) = NoSync"
        using Cons.prems(3) unfolding first_sync_def by blast
      then show "sync_of (header_after cv ?h (take k bs)) = NoSync" by (simp add: header_after_def)
    qed
    ultimately show ?thesis using eq Cons.IH [OF s1(3,2)] by simp
  qed
qed

end

lemma or_bytes: "push_bit 8 (uint a) OR uint (b :: u8) = 256 * uint (a :: u8) + uint b"
  using or_byte [of "uint a" b] by simp

text \<open>With a signed \<open>char\<close> the start code of the hardware demultiplexer is never seen.\<close>

lemma signed_sync_never: "sync_of (shift_header h (sint (b :: u8))) \<noteq> HwSync"
proof
  let ?x = "push_bit 8 h AND 0xffffffff00"
  assume "sync_of (shift_header h (sint b)) = HwSync"
  then have eq: "(?x OR sint b) AND 0xffffffff = 0x1bd"
    by (simp add: sync_of_def shift_header_def split: if_splits)
  have masks: "(0xffffffff :: int) = mask 32" "(0x1bd :: int) = 445" by (simp_all add: mask_eq_exp_minus_1)
  have low: "\<not> bit ?x 7" by (simp add: bit_simps)
  have "bit ((?x OR sint b) AND 0xffffffff) 7" unfolding eq by (simp add: bit_numeral_rec)
  then have "bit (sint b) 7" using low by (simp add: bit_or_iff bit_and_iff)
  then have "bit b 7" by (simp add: bit_sint_iff)
  then have "bit (sint b) 9" by (simp add: bit_sint_iff)
  then have "bit ((?x OR sint b) AND 0xffffffff) 9" unfolding masks by (simp add: bit_simps)
  then show False unfolding eq by (simp add: bit_numeral_rec)
qed

end
