(* ===== verification/Colour.thy ===== *)
theory Colour
  imports Prelude
begin

text \<open>
  The conversion of YCbCr colours that the DVB and PGS decoders share: the macros
  \<open>YUV_TO_RGB1_CCIR\<close>, \<open>YUV_TO_RGB1_CCIR_BT709\<close> and \<open>YUV_TO_RGB2_CCIR\<close> with their crop table
  (each file has its own copy of the table, with the same bytes).
\<close>

definition MAX_NEG_CROP :: int where "MAX_NEG_CROP = 1024"

definition sffCropTbl :: "int list" where
  "sffCropTbl = replicate 1024 0 @ [0..255] @ replicate 1024 255"

definition crop :: "int \<Rightarrow> int option" where
  "crop i = load sffCropTbl (MAX_NEG_CROP + i)"

text \<open>
  \<open>YUV_TO_RGB2_CCIR\<close> after a first macro, which fixes the four chroma coefficients
  \<open>FIX(c * 255.0 / 224.0)\<close>; \<open>FIX(255.0 / 219.0)\<close> is 1192 and \<open>ONE_HALF\<close> is 512.
\<close>

definition yuv_convert :: "int \<Rightarrow> int \<Rightarrow> int \<Rightarrow> int \<Rightarrow> int \<Rightarrow> int \<Rightarrow> int \<Rightarrow> (int \<times> int \<times> int) option" where
  "yuv_convert r_cr g_cb g_cr b_cb y1 cb1 cr1 =
     (let cb = cb1 - 128; cr = cr1 - 128;
          r_add = r_cr * cr + 512;
          g_add = - g_cb * cb - g_cr * cr + 512;
          b_add = b_cb * cb + 512;
          y = (y1 - 16) * 1192
      in do {
        r \<leftarrow> crop (drop_bit 10 (y + r_add));
        g \<leftarrow> crop (drop_bit 10 (y + g_add));
        b \<leftarrow> crop (drop_bit 10 (y + b_add));
        Some (r, g, b) })"

definition yuv_to_rgb :: "int \<Rightarrow> int \<Rightarrow> int \<Rightarrow> (int \<times> int \<times> int) option" where
  "yuv_to_rgb = yuv_convert 1634 401 832 2066"

definition yuv_to_rgb_bt709 :: "int \<Rightarrow> int \<Rightarrow> int \<Rightarrow> (int \<times> int \<times> int) option" where
  "yuv_to_rgb_bt709 = yuv_convert 1836 218 546 2163"

section \<open>The crop table is never left\<close>

lemma crop_eq:
  assumes "-1024 \<le> i" "i < 1280"
  shows "crop i = Some (max 0 (min 255 i))"
proof -
  consider "i < 0" | "0 \<le> i" "i < 256" | "256 \<le> i" by linarith
  then show ?thesis
    using assms
    by cases (auto simp: crop_def load_def MAX_NEG_CROP_def sffCropTbl_def nth_append nat_less_iff
        nat_add_distrib nat_diff_distrib)
qed

definition byte_range :: "int \<Rightarrow> bool" where
  "byte_range v \<longleftrightarrow> 0 \<le> v \<and> v \<le> 255"

definition clamp8 :: "int \<Rightarrow> int" where
  "clamp8 v = max 0 (min 255 v)"

lemma clamp8_byte [simp]: "byte_range (clamp8 v)"
  by (auto simp: clamp8_def byte_range_def)

lemma yuv_convert_clamps:
  assumes "byte_range y" "byte_range cb" "byte_range cr"
    "r_cr \<in> {0..2200}" "g_cb \<in> {0..500}" "g_cr \<in> {0..900}" "b_cb \<in> {0..2200}"
  shows "yuv_convert r_cr g_cb g_cr b_cb y cb cr = Some
    (clamp8 ((1192 * (y - 16) + r_cr * (cr - 128) + 512) div 1024),
     clamp8 ((1192 * (y - 16) - g_cb * (cb - 128) - g_cr * (cr - 128) + 512) div 1024),
     clamp8 ((1192 * (y - 16) + b_cb * (cb - 128) + 512) div 1024))"
proof -
  define R G1 G2 B where "R = r_cr * (cr - 128)" and "G1 = g_cb * (cb - 128)"
    and "G2 = g_cr * (cr - 128)" and "B = b_cb * (cb - 128)"
  have mul: "- (n * 128) \<le> k * (c - 128) \<and> k * (c - 128) \<le> n * 128"
    if "k \<in> {0..n}" "byte_range c" for k c n :: int
  proof -
    have "\<bar>k * (c - 128)\<bar> \<le> n * 128"
      unfolding abs_mult using that by (intro mult_mono) (auto simp: byte_range_def)
    then show ?thesis by linarith
  qed
  have b: "-281600 \<le> R" "R \<le> 281600" "-64000 \<le> G1" "G1 \<le> 64000" "-115200 \<le> G2" "G2 \<le> 115200"
      "-281600 \<le> B" "B \<le> 281600" "0 \<le> y" "y \<le> 255"
    using mul [OF assms(4,3)] mul [OF assms(5,2)] mul [OF assms(6,3)] mul [OF assms(7,2)] assms(1)
    by (simp_all add: R_def G1_def G2_def B_def byte_range_def)
  have scaled: "crop (n div 2 ^ 10) = Some (clamp8 (n' div 1024))"
    if "n = n'" "-1048576 \<le> n" "n < 1310720" for n n' :: int
  proof -
    have "-1024 \<le> n div 1024" "n div 1024 < 1280" using that by linarith+
    then show ?thesis using that(1) by (simp add: crop_eq clamp8_def)
  qed
  have "crop (((y - 16) * 1192 + (R + 512)) div 2 ^ 10) = Some (clamp8 ((1192 * (y - 16) + R + 512) div 1024))"
    by (rule scaled) (use b in simp_all)
  moreover have "crop (((y - 16) * 1192 + (- G1 - G2 + 512)) div 2 ^ 10)
      = Some (clamp8 ((1192 * (y - 16) - G1 - G2 + 512) div 1024))"
    by (rule scaled) (use b in simp_all)
  moreover have "crop (((y - 16) * 1192 + (B + 512)) div 2 ^ 10) = Some (clamp8 ((1192 * (y - 16) + B + 512) div 1024))"
    by (rule scaled) (use b in simp_all)
  ultimately show ?thesis
    unfolding yuv_convert_def Let_def drop_bit_eq_div mult_minus_left R_def G1_def G2_def B_def
    by (simp only: Option.bind.simps)
qed

lemmas yuv_coefficients = yuv_to_rgb_def yuv_to_rgb_bt709_def

lemma yuv_to_rgb_yields:
  assumes "byte_range y" "byte_range cb" "byte_range cr"
  shows "yields (\<lambda>(r, g, b). byte_range r \<and> byte_range g \<and> byte_range b) (yuv_to_rgb y cb cr)"
    "yields (\<lambda>(r, g, b). byte_range r \<and> byte_range g \<and> byte_range b) (yuv_to_rgb_bt709 y cb cr)"
  using assms by (simp_all add: yuv_coefficients yuv_convert_clamps)

section \<open>The bytes of a colour\<close>

text \<open>A 32-bit colour as the renderers store it, lowest byte first.\<close>

definition colour_bytes :: "u32 \<Rightarrow> u8 list" where
  "colour_bytes v = [ucast v, ucast (drop_bit 8 v), ucast (drop_bit 16 v), ucast (drop_bit 24 v)]"

end
