(* ===== verification/Dvb_Segments.thy ===== *)
theory Dvb_Segments
  imports Dvb_Pixels Packet_Sync Colour
begin

text \<open>
  The other segment parsers of \<open>DvbParser.cpp\<close>: the default colour table of \<open>init\<close>,
  \<open>updateParameter\<close>, and the CLUT, region, page and display definition segments.

  \<open>alloc\<close> is a parameter: it says which allocations of the C library succeed.
\<close>

section \<open>Colours\<close>

definition RGBA :: "int \<Rightarrow> int \<Rightarrow> int \<Rightarrow> int \<Rightarrow> u32" where
  "RGBA r g b a = word_of_int (((push_bit 24 a OR push_bit 16 r) OR push_bit 8 g) OR b)"

definition default_clut4 :: "u32 list" where
  "default_clut4 = [RGBA 0 0 0 0, RGBA 255 255 255 255, RGBA 0 0 0 255, RGBA 127 127 127 255]"

definition default_clut16_entry :: "int \<Rightarrow> u32" where
  "default_clut16_entry i =
     (let v = (if i < 8 then 255 else 127);
          r = (if i AND 1 \<noteq> 0 then v else 0);
          g = (if i AND 2 \<noteq> 0 then v else 0);
          b = (if i AND 4 \<noteq> 0 then v else 0)
      in RGBA r g b 255)"

definition default_clut256_entry :: "int \<Rightarrow> u32" where
  "default_clut256_entry i =
     (if i < 8 then
        RGBA (if i AND 1 \<noteq> 0 then 255 else 0) (if i AND 2 \<noteq> 0 then 255 else 0)
          (if i AND 4 \<noteq> 0 then 255 else 0) 63
      else
        let part = (\<lambda>base lo hi l h. base + (if i AND l \<noteq> 0 then lo else 0) + (if i AND h \<noteq> 0 then hi else 0));
            row = i AND 0x88
        in if row = 0x00 then
             RGBA (part 0 85 170 1 0x10) (part 0 85 170 2 0x20) (part 0 85 170 4 0x40) 255
           else if row = 0x08 then
             RGBA (part 0 85 170 1 0x10) (part 0 85 170 2 0x20) (part 0 85 170 4 0x40) 127
           else if row = 0x80 then
             RGBA (part 127 43 85 1 0x10) (part 127 43 85 2 0x20) (part 127 43 85 4 0x40) 255
           else
             RGBA (part 0 43 85 1 0x10) (part 0 43 85 2 0x20) (part 0 43 85 4 0x40) 255)"

definition gDefaultClut :: DVBSubCLUT where
  "gDefaultClut = \<lparr>clut_id = -1,
     clut_words = default_clut4
       @ (RGBA 0 0 0 0 # map default_clut16_entry [1..15])
       @ (RGBA 0 0 0 0 # map default_clut256_entry [1..255])\<rparr>"

text \<open>\<open>init\<close> allocates a context whose page ids are the wildcard \<open>-1\<close>.\<close>

definition init_context :: DVBSubContext where
  "init_context = new_context\<lparr>compositionId := -1, ancillaryId := -1\<rparr>"

definition updateParameter :: "int \<Rightarrow> int \<Rightarrow> int \<Rightarrow> 'a DvbParser_scheme \<Rightarrow> 'a DvbParser_scheme" where
  "updateParameter type composition ancillary p =
     (if type = TYPE_SUBTITLE_DVB then
        (if composition \<le> 0 \<and> ancillary \<le> 0
         then p\<lparr>mContext := (mContext p)\<lparr>compositionId := -1, ancillaryId := -1\<rparr>\<rparr>
         else p\<lparr>mContext := (mContext p)\<lparr>compositionId := composition, ancillaryId := ancillary\<rparr>\<rparr>)
      else p)"

section \<open>CLUT segments\<close>

text \<open>The colour entry at \<open>buf\<close> (after entry id and depth): y, cr, cb, alpha and its size.\<close>

definition clut_entry :: "mem \<Rightarrow> nat \<Rightarrow> bool \<Rightarrow> int \<times> int \<times> int \<times> int \<times> nat" where
  "clut_entry m buf fullRange =
     (let (y, cr, cb, alpha, n) =
        (if fullRange
         then (byte_at m buf, byte_at m (buf + 1), byte_at m (buf + 2), byte_at m (buf + 3), 4)
         else (byte_at m buf AND 0xfc,
               push_bit 4 (push_bit 2 (byte_at m buf AND 3) OR (drop_bit 6 (byte_at m (buf + 1)) AND 3)),
               push_bit 2 (byte_at m (buf + 1)) AND 0xf0,
               push_bit 6 (byte_at m (buf + 1)) AND 0xc0, 2))
      in if y = 0 then (y, 0, 0, 0xff, n) else (y, cr, cb, alpha, n))"

definition store_colour :: "int \<Rightarrow> int \<Rightarrow> u32 \<Rightarrow> DVBSubCLUT \<Rightarrow> DVBSubCLUT option" where
  "store_colour depth entry_id v c = do {
     ws \<leftarrow> (if depth AND 0x80 \<noteq> 0 then store (clut_words c) (clut4 + entry_id) v else Some (clut_words c));
     ws \<leftarrow> (if depth AND 0x40 \<noteq> 0 then store ws (clut16 + entry_id) v else Some ws);
     ws \<leftarrow> (if depth AND 0x20 \<noteq> 0 then store ws (clut256 + entry_id) v else Some ws);
     Some (c\<lparr>clut_words := ws\<rparr>) }"

text \<open>
  The loop \<open>while (buf + 4 < bufEnd)\<close>; the flag is \<open>False\<close> after the early return of an
  entry with an invalid depth.
\<close>

function clut_entries :: "mem \<Rightarrow> nat \<Rightarrow> nat \<Rightarrow> DVBSubCLUT \<Rightarrow> (bool \<times> DVBSubCLUT) option" where
  "clut_entries m bufEnd buf c =
     (if buf + 4 < bufEnd then
        let entry_id = byte_at m buf; depth = byte_at m (buf + 1) AND 0xe0 in
        if depth = 0 then Some (False, c)
        else
          let (y, cr, cb, alpha, n) = clut_entry m (buf + 2) (byte_at m (buf + 1) AND 1 \<noteq> 0) in do {
            (r, g, b) \<leftarrow> yuv_to_rgb y cb cr;
            c \<leftarrow> store_colour depth entry_id (RGBA r g b (255 - alpha)) c;
            clut_entries m bufEnd (buf + 2 + n) c }
      else Some (True, c))"
  by pat_completeness auto
termination
  by (relation "measure (\<lambda>(m, bufEnd, buf, c). bufEnd - buf)") auto

declare clut_entries.simps [simp del]

definition parseClutSegment ::
  "(request \<Rightarrow> bool) \<Rightarrow> mem \<Rightarrow> nat \<Rightarrow> nat \<Rightarrow> 'a DvbParser_scheme \<Rightarrow> 'a DvbParser_scheme option" where
  "parseClutSegment alloc m buf bufSize p =
     (let ctx = mContext p; bufEnd = buf + bufSize; clutId = byte_at m buf in
      if getClut ctx clutId = None \<and> \<not> alloc ClutNode then Some p
      else
        let ctx = (if getClut ctx clutId = None
                   then ctx\<lparr>clutList := gDefaultClut\<lparr>clut_id := clutId\<rparr> # clutList ctx\<rparr>
                   else ctx)
        in do {
          clut \<leftarrow> getClut ctx clutId;
          (valid, clut) \<leftarrow> clut_entries m bufEnd (buf + 2) clut;
          let p = p\<lparr>mContext := update_clut clutId (\<lambda>_. clut) ctx\<rparr>;
          Some (if valid then p else notifySubtitleErrorInfo ERROR_DECODER_INVALIDDATA p) })"

section \<open>Region segments\<close>

definition DVBSUB_OT_BASIC_CHARACTER :: int where "DVBSUB_OT_BASIC_CHARACTER = 1"
definition DVBSUB_OT_COMPOSITE_STRING :: int where "DVBSUB_OT_COMPOSITE_STRING = 2"

definition zero_region :: DVBSubRegion where
  "zero_region = \<lparr>reg_id = 0, reg_width = 0, reg_height = 0, reg_depth = 0, reg_clut = 0,
     reg_bgcolor = 0, reg_pbuf = [], reg_bufSize = 0, reg_displayList = []\<rparr>"

text \<open>\<open>memset(pbuf, c, n)\<close>, with \<open>n\<close> converted to \<open>size_t\<close>.\<close>

definition memset_bytes :: "u8 list \<Rightarrow> int \<Rightarrow> int \<Rightarrow> u8 list option" where
  "memset_bytes pbuf c n =
     (if size_of n \<le> int (length pbuf)
      then Some (replicate (nat (size_of n)) (word_of_int c) @ drop (nat (size_of n)) pbuf)
      else None)"

text \<open>
  The dimensions, with the reallocation of the buffer when its size changes. The first
  component is \<open>False\<close> when \<open>malloc\<close> fails, the second is the \<open>fill\<close> flag. The new
  buffer's contents do not matter: \<open>fill\<close> is set.
\<close>

definition region_resize ::
  "(request \<Rightarrow> bool) \<Rightarrow> int \<Rightarrow> int \<Rightarrow> bool \<Rightarrow> DVBSubRegion \<Rightarrow> bool \<times> bool \<times> DVBSubRegion" where
  "region_resize alloc width height fill region =
     (let region = region\<lparr>reg_width := width, reg_height := height\<rparr>;
          n = wrap32 (width * height)
      in if n \<noteq> reg_bufSize region then
           (if alloc (PixelBuffer (size_of n))
            then (True, True, region\<lparr>reg_bufSize := n, reg_pbuf := replicate (nat (size_of n)) 0\<rparr>)
            else (False, True, region\<lparr>reg_bufSize := n, reg_pbuf := []\<rparr>))
         else (True, fill, region))"

definition region_colours :: "mem \<Rightarrow> nat \<Rightarrow> DVBSubRegion \<Rightarrow> DVBSubRegion" where
  "region_colours m buf region =
     (let depth = push_bit (nat (drop_bit 2 (byte_at m (buf + 6)) AND 7)) 1;
          depth = (if depth < 2 \<or> depth > 8 then 4 else depth);
          bgcolor = (if depth = 8 then byte_at m (buf + 8)
                     else if depth = 4 then drop_bit 4 (byte_at m (buf + 9)) AND 15
                     else drop_bit 2 (byte_at m (buf + 9)) AND 3)
      in region\<lparr>reg_depth := depth, reg_clut := byte_at m (buf + 7), reg_bgcolor := bgcolor\<rparr>)"

text \<open>A new display enters the heap, its object's list and its region's list.\<close>

definition attach_display :: "DVBSubObjectDisplay \<Rightarrow> DVBSubContext \<Rightarrow> DVBSubContext" where
  "attach_display display ctx =
     (let a = od_next ctx;
          ctx = ctx\<lparr>od_heap := (od_heap ctx)(a \<mapsto> display), od_next := a + 1\<rparr>;
          ctx = update_region (od_regionId display) (\<lambda>r. r\<lparr>reg_displayList := a # reg_displayList r\<rparr>) ctx
      in update_object (od_objectId display) (\<lambda>ob. ob\<lparr>obj_displayList := a # obj_displayList ob\<rparr>) ctx)"

text \<open>The object of a region, found or made, with the type the region gives it.\<close>

definition enter_object :: "mem \<Rightarrow> nat \<Rightarrow> DVBSubContext \<Rightarrow> DVBSubContext" where
  "enter_object m buf ctx =
     (let objectId = AV_RB16 m buf;
          ctx = (if getObject ctx objectId = None
                 then ctx\<lparr>objectList :=
                   \<lparr>obj_id = objectId, obj_type = 0, obj_displayList = []\<rparr> # objectList ctx\<rparr>
                 else ctx)
      in update_object objectId (\<lambda>ob. ob\<lparr>obj_type := drop_bit 6 (byte_at m (buf + 2))\<rparr>) ctx)"

definition has_colours :: "mem \<Rightarrow> nat \<Rightarrow> nat \<Rightarrow> bool" where
  "has_colours m bufEnd buf =
     (let type = drop_bit 6 (byte_at m (buf + 2))
      in (type = DVBSUB_OT_BASIC_CHARACTER \<or> type = DVBSUB_OT_COMPOSITE_STRING) \<and> buf + 7 < bufEnd)"

definition object_display :: "mem \<Rightarrow> int \<Rightarrow> nat \<Rightarrow> nat \<Rightarrow> DVBSubObjectDisplay" where
  "object_display m regionId bufEnd buf =
     \<lparr>od_objectId = AV_RB16 m buf, od_regionId = regionId,
      od_xPos = AV_RB16 m (buf + 2) AND 0xfff, od_yPos = AV_RB16 m (buf + 4) AND 0xfff,
      od_fgcolor = (if has_colours m bufEnd buf then byte_at m (buf + 6) else 0),
      od_bgcolor = (if has_colours m bufEnd buf then byte_at m (buf + 7) else 0)\<rparr>"

text \<open>One object of the region; the result is whether the loop goes on and the extra bytes read.\<close>

definition region_object ::
  "(request \<Rightarrow> bool) \<Rightarrow> mem \<Rightarrow> int \<Rightarrow> nat \<Rightarrow> nat \<Rightarrow> DVBSubContext \<Rightarrow> bool \<times> nat \<times> DVBSubContext" where
  "region_object alloc m regionId bufEnd buf ctx =
     (if getObject ctx (AV_RB16 m buf) = None \<and> \<not> alloc ObjectNode then (False, 0, ctx)
      else
        let ctx = enter_object m buf ctx in
        if \<not> alloc ObjectDisplayNode then (False, 0, ctx)
        else (True, if has_colours m bufEnd buf then 2 else 0,
              attach_display (object_display m regionId bufEnd buf) ctx))"

function region_objects ::
  "(request \<Rightarrow> bool) \<Rightarrow> mem \<Rightarrow> int \<Rightarrow> nat \<Rightarrow> nat \<Rightarrow> DVBSubContext \<Rightarrow> DVBSubContext" where
  "region_objects alloc m regionId bufEnd buf ctx =
     (if buf + 5 < bufEnd then
        let (go, n, ctx) = region_object alloc m regionId bufEnd buf ctx in
        if go then region_objects alloc m regionId bufEnd (buf + 6 + n) ctx else ctx
      else ctx)"
  by pat_completeness auto
termination
  by (relation "measure (\<lambda>(alloc, m, regionId, bufEnd, buf, ctx). bufEnd - buf)") auto

declare region_objects.simps [simp del]

definition parseRegionSegment ::
  "(request \<Rightarrow> bool) \<Rightarrow> mem \<Rightarrow> nat \<Rightarrow> nat \<Rightarrow> DVBSubContext \<Rightarrow> DVBSubContext option" where
  "parseRegionSegment alloc m buf bufSize ctx =
     (if bufSize < 10 then Some ctx
      else
        let bufEnd = buf + bufSize; regionId = byte_at m buf in
        if getRegion ctx regionId = None \<and> \<not> alloc RegionNode then Some ctx
        else
          let ctx = (if getRegion ctx regionId = None
                     then ctx\<lparr>regionList := zero_region\<lparr>reg_id := regionId\<rparr> # regionList ctx\<rparr>
                     else ctx);
              fill = (drop_bit 3 (byte_at m (buf + 1)) AND 1 = 1)
          in do {
            region \<leftarrow> getRegion ctx regionId;
            let (allocated, fill, region) =
              region_resize alloc (AV_RB16 m (buf + 2)) (AV_RB16 m (buf + 4)) fill region;
            if \<not> allocated then Some (update_region regionId (\<lambda>_. region) ctx)
            else do {
              let region = region_colours m buf region;
              pbuf \<leftarrow> (if fill then memset_bytes (reg_pbuf region) (reg_bgcolor region) (reg_bufSize region)
                      else Some (reg_pbuf region));
              let region = region\<lparr>reg_pbuf := pbuf\<rparr>;
              let ctx = update_region regionId (\<lambda>_. region) ctx;
              ctx \<leftarrow> deleteRegionDisplayList ctx (reg_displayList region);
              let ctx = update_region regionId (\<lambda>r. r\<lparr>reg_displayList := []\<rparr>) ctx;
              Some (region_objects alloc m regionId bufEnd (buf + 10) ctx) } })"

section \<open>Page segments\<close>

definition DVB_TIME_OUT_LONG_DURATION :: int where "DVB_TIME_OUT_LONG_DURATION = 30"
definition DVB_TIME_OUT_ADJUST :: int where "DVB_TIME_OUT_ADJUST = 5"
definition DVBSUB_PCS_STATE_ACQUISITION :: int where "DVBSUB_PCS_STATE_ACQUISITION = 1"
definition DVBSUB_PCS_STATE_MODE_CHANGE :: int where "DVBSUB_PCS_STATE_MODE_CHANGE = 2"

text \<open>
  The loop over the regions of the page: a display of the old list (\<open>tmp\<close>) with the
  same region is moved, otherwise a new one is made. Both go to the front of the new list.
\<close>

function page_regions ::
  "(request \<Rightarrow> bool) \<Rightarrow> mem \<Rightarrow> nat \<Rightarrow> nat \<Rightarrow> DVBSubRegionDisplay list
     \<Rightarrow> DVBSubContext \<Rightarrow> DVBSubContext" where
  "page_regions alloc m bufEnd buf tmp ctx =
     (if buf + 5 < bufEnd then
        let regionId = byte_at m buf;
            known = (List.find (\<lambda>d. rd_regionId d = regionId) tmp \<noteq> None)
        in if \<not> known \<and> \<not> alloc RegionDisplayNode then ctx
           else
             let display = \<lparr>rd_regionId = regionId, rd_xPos = AV_RB16 m (buf + 2),
                   rd_yPos = AV_RB16 m (buf + 4)\<rparr>
             in page_regions alloc m bufEnd (buf + 6) (remove_node rd_regionId regionId tmp)
                  (ctx\<lparr>displayList := display # displayList ctx,
                       displayListSize := displayListSize ctx + 1\<rparr>)
      else ctx)"
  by pat_completeness auto
termination
  by (relation "measure (\<lambda>(alloc, m, bufEnd, buf, tmp, ctx). bufEnd - buf)") auto

declare page_regions.simps [simp del]

definition page_timeout :: "int \<Rightarrow> int" where
  "page_timeout t = (if t \<ge> DVB_TIME_OUT_LONG_DURATION then DVB_TIME_OUT_ADJUST else t)"

definition parsePageSegment ::
  "(request \<Rightarrow> bool) \<Rightarrow> mem \<Rightarrow> nat \<Rightarrow> nat \<Rightarrow> DVBSubContext \<Rightarrow> DVBSubContext option" where
  "parsePageSegment alloc m buf bufSize ctx =
     (if bufSize < 1 then Some ctx
      else
        let ctx = ctx\<lparr>timeOut := page_timeout (byte_at m buf)\<rparr>;
            page_state = drop_bit 2 (byte_at m (buf + 1)) AND 3
        in do {
          ctx \<leftarrow> (if page_state = DVBSUB_PCS_STATE_ACQUISITION \<or> page_state = DVBSUB_PCS_STATE_MODE_CHANGE
                 then do { ctx \<leftarrow> deleteRegions ctx; Some (deleteCluts (deleteObjects ctx)) }
                 else Some ctx);
          Some (page_regions alloc m (buf + bufSize) (buf + 2) (displayList ctx)
                  (ctx\<lparr>displayList := [], displayListSize := 0\<rparr>)) })"

section \<open>Display definition segments\<close>

definition parseDisplayDefinitionSegment ::
  "(request \<Rightarrow> bool) \<Rightarrow> mem \<Rightarrow> nat \<Rightarrow> nat \<Rightarrow> DVBSubContext \<Rightarrow> DVBSubContext" where
  "parseDisplayDefinitionSegment alloc m buf bufSize ctx =
     (if bufSize < 5 then ctx
      else
        let infoByte = byte_at m buf; ddsVersion = drop_bit 4 infoByte in
        if (case displayDefinition ctx of None \<Rightarrow> False | Some dd \<Rightarrow> dd_version dd = ddsVersion)
        then ctx
        else if displayDefinition ctx = None \<and> \<not> alloc DisplayDefinitionNode then ctx
        else
          let dd = \<lparr>dd_version = ddsVersion, dd_x = 0, dd_y = 0,
                dd_width = AV_RB16 m (buf + 1) + 1, dd_height = AV_RB16 m (buf + 3) + 1\<rparr>;
              dd = (if infoByte AND 8 \<noteq> 0 \<and> \<not> bufSize < 13 then
                      let horizontalMin = AV_RB16 m (buf + 5); horizontalMax = AV_RB16 m (buf + 7);
                          verticalMin = AV_RB16 m (buf + 9); verticalMax = AV_RB16 m (buf + 11)
                      in dd\<lparr>dd_x := horizontalMin, dd_y := verticalMin,
                            dd_width := horizontalMax - horizontalMin + 1,
                            dd_height := verticalMax - verticalMin + 1\<rparr>
                    else dd)
          in ctx\<lparr>displayDefinition := Some dd\<rparr>)"

section \<open>CLUT entries stay in range\<close>

lemma clut_entry_range:
  "clut_entry m buf full = (y, cr, cb, alpha, n) \<Longrightarrow>
     byte_range y \<and> byte_range cr \<and> byte_range cb \<and> byte_range alpha \<and> n \<le> 4"
proof -
  have and_le: "0 \<le> x AND c \<and> x AND c \<le> c" if "0 \<le> c" for x c :: int
    using that by (simp add: AND_upper2')
  have cr: "byte_range (push_bit 4 (push_bit 2 (a AND 3) OR (b AND 3)))" for a b :: int
  proof -
    have "0 \<le> push_bit 2 (a AND 3) OR (b AND 3)" using and_le [of 3] by simp
    moreover have "push_bit 2 (a AND 3) OR (b AND 3) < 2 ^ 4"
      using and_le [of 3 a] and_le [of 3 b] by (intro OR_upper) (auto simp: push_bit_eq_mult)
    ultimately show ?thesis by (simp add: byte_range_def push_bit_eq_mult)
  qed
  assume "clut_entry m buf full = (y, cr, cb, alpha, n)"
  then show ?thesis
    using and_le [of 0xfc] and_le [of 0xf0] and_le [of 0xc0] cr
    by (auto simp: clut_entry_def Let_def byte_range_def split: if_splits prod.splits)
qed

lemma store_colour_yields:
  assumes "length (clut_words c) = CLUT_WORDS" "byte_range e"
  shows "yields (\<lambda>c'. clut_id c' = clut_id c \<and> length (clut_words c') = CLUT_WORDS) (store_colour depth e v c)"
  using assms unfolding store_colour_def
  by (auto simp: store_def CLUT_WORDS_def clut4_def clut16_def clut256_def byte_range_def)

lemma clut_entries_yields:
  assumes "length (clut_words c) = CLUT_WORDS"
  shows "yields (\<lambda>(ok, c'). clut_id c' = clut_id c \<and> length (clut_words c') = CLUT_WORDS)
    (clut_entries m bufEnd buf c)"
  using assms
proof (induction "bufEnd - buf" arbitrary: buf c rule: less_induct)
  case less
  let ?e = "byte_at m buf" and ?d = "byte_at m (buf + 1) AND 0xe0"
  show ?case
  proof (cases "buf + 4 < bufEnd \<and> ?d \<noteq> 0")
    case False
    then show ?thesis using less.prems by (subst clut_entries.simps) (auto simp: Let_def)
  next
    case True
    obtain y cr cb al n where ent: "clut_entry m (buf + 2) (byte_at m (buf + 1) AND 1 \<noteq> 0) = (y, cr, cb, al, n)"
      by (metis prod_cases5)
    note rng = clut_entry_range [OF ent]
    obtain r g b where rgb: "yuv_to_rgb y cb cr = Some (r, g, b)"
      using yuv_to_rgb_yields(1) [of y cb cr] rng by (auto elim!: yieldsE)
    obtain c1 where c1: "store_colour ?d ?e (RGBA r g b (255 - al)) c = Some c1"
        "clut_id c1 = clut_id c" "length (clut_words c1) = CLUT_WORDS"
      using store_colour_yields [OF less.prems, of ?e ?d "RGBA r g b (255 - al)"]
      by (auto elim!: yieldsE simp: byte_range_def)
    have "clut_entries m bufEnd buf c = clut_entries m bufEnd (buf + 2 + n) c1"
      using True ent rgb c1(1) by (subst clut_entries.simps) (simp add: Let_def)
    moreover have "yields (\<lambda>(ok, c'). clut_id c' = clut_id c1 \<and> length (clut_words c') = CLUT_WORDS)
        (clut_entries m bufEnd (buf + 2 + n) c1)"
      using True c1(3) by (intro less.hyps) auto
    ultimately show ?thesis using c1(2) by simp
  qed
qed

lemma length_default_clut: "length (clut_words gDefaultClut) = CLUT_WORDS"
  by (simp add: gDefaultClut_def CLUT_WORDS_def default_clut4_def)

lemma context_ok_cluts:
  "context_ok ctx \<Longrightarrow> \<forall>c \<in> set cs. length (clut_words c) = CLUT_WORDS \<Longrightarrow>
     context_ok (ctx\<lparr>clutList := cs\<rparr>)"
  by (simp add: context_ok_def linked_def object_links_def region_links_def displays_ok_def)

lemma context_ok_clut_lengths:
  "context_ok ctx \<Longrightarrow> c \<in> set (clutList ctx) \<Longrightarrow> length (clut_words c) = CLUT_WORDS"
  by (simp add: context_ok_def)

lemma set_update_node_subset: "set (update_node key k f xs) \<subseteq> set xs \<union> f ` set xs"
  by (induction xs) auto

lemma parseClutSegment_ok:
  assumes "context_ok (mContext p)"
  shows "yields (\<lambda>q. context_ok (mContext q) \<and> mState q = mState p \<and>
      (\<exists>cs. mContext q = (mContext p)\<lparr>clutList := cs\<rparr>)) (parseClutSegment A m buf n p)"
proof -
  let ?id = "byte_at m buf" and ?ctx = "mContext p"
  let ?c = "if getClut ?ctx ?id = None
    then ?ctx\<lparr>clutList := gDefaultClut\<lparr>clut_id := ?id\<rparr> # clutList ?ctx\<rparr> else ?ctx"
  have cs: "\<forall>c \<in> set (clutList ?c). length (clut_words c) = CLUT_WORDS"
    using assms length_default_clut by (auto simp: context_ok_def)
  have ok: "context_ok ?c" using assms length_default_clut context_ok_clut_lengths [OF assms]
    by (auto intro!: context_ok_cluts)
  obtain cl where cl: "getClut ?c ?id = Some cl" by (cases "getClut ?ctx ?id") (auto simp: getClut_def)
  have "length (clut_words cl) = CLUT_WORDS" using cluts.get_SomeD [OF cl] cs by blast
  from clut_entries_yields [OF this, of m "buf + n" "buf + 2"] obtain v c1 where
    c1: "clut_entries m (buf + n) (buf + 2) cl = Some (v, c1)" "length (clut_words c1) = CLUT_WORDS"
    by (auto elim!: yieldsE)
  have "context_ok (update_clut ?id (\<lambda>_. c1) ?c)"
    unfolding update_clut_def
    using cs c1(2) set_update_node_subset [of clut_id ?id "\<lambda>_. c1" "clutList ?c"]
    by (intro context_ok_cluts [OF ok]) auto
  moreover have "\<exists>cs. update_clut ?id (\<lambda>_. c1) ?c = ?ctx\<lparr>clutList := cs\<rparr>"
    by (cases "getClut ?ctx ?id = None") (auto simp: update_clut_def)
  moreover have "\<exists>cs. ?ctx = ?ctx\<lparr>clutList := cs\<rparr>" by (rule exI [of _ "clutList ?ctx"]) simp
  ultimately show ?thesis
    using assms cl c1(1) unfolding parseClutSegment_def Let_def by simp
qed

section \<open>Region segments keep the context\<close>

lemma context_okD:
  assumes "context_ok ctx"
  shows "object_links ctx" "region_links ctx [] (regionList ctx)" "distinct (map reg_id (regionList ctx))"
    "r \<in> set (regionList ctx) \<Longrightarrow> region_ok r" "displays_ok ctx"
    "\<forall>c \<in> set (clutList ctx). length (clut_words c) = CLUT_WORDS"
  using assms by (auto simp: context_ok_def linked_def)

text \<open>Everything but the objects is as before.\<close>

lemma context_ok_objects:
  assumes "context_ok ctx" "object_links (ctx\<lparr>objectList := objs\<rparr>)"
  shows "context_ok (ctx\<lparr>objectList := objs\<rparr>)"
  using assms by (auto simp: context_ok_def linked_def region_links_def displays_ok_def)

lemma push_object_ok:
  assumes "context_ok ctx" "getObject ctx (obj_id ob) = None" "obj_displayList ob = []"
  shows "context_ok (ctx\<lparr>objectList := ob # objectList ctx\<rparr>)"
  using context_okD(1) [OF assms(1)] assms(2,3)
  by (intro context_ok_objects [OF assms(1)]) (auto simp: object_links_def objects.get_None_iff)

lemma object_type_ok:
  assumes "context_ok ctx"
  shows "context_ok (update_object k (\<lambda>ob. ob\<lparr>obj_type := t\<rparr>) ctx)"
proof -
  let ?f = "\<lambda>ob. ob\<lparr>obj_type := t\<rparr>"
  have d: "distinct (map obj_id (objectList ctx))" using context_okD(1) [OF assms] by (simp add: object_links_def)
  have owner: "\<exists>ob \<in> set (update_node obj_id k ?f (objectList ctx)). obj_id ob = i \<and> a \<in> set (obj_displayList ob)"
    if "ob \<in> set (objectList ctx)" "obj_id ob = i" "a \<in> set (obj_displayList ob)" for ob i a
  proof -
    let ?ob = "if obj_id ob = k then ?f ob else ob"
    have "?ob \<in> set (update_node obj_id k ?f (objectList ctx))"
      using that(1) set_update_node [OF d, of ?f k] by simp
    with that show ?thesis by (intro bexI [of _ ?ob]) auto
  qed
  have "object_links (ctx\<lparr>objectList := update_node obj_id k ?f (objectList ctx)\<rparr>)"
    unfolding object_links_def
  proof (intro conjI ballI allI impI)
    fix a e assume "od_heap (ctx\<lparr>objectList := update_node obj_id k ?f (objectList ctx)\<rparr>) a = Some e"
    then show "\<exists>ob \<in> set (objectList (ctx\<lparr>objectList := update_node obj_id k ?f (objectList ctx)\<rparr>)).
        obj_id ob = od_objectId e \<and> a \<in> set (obj_displayList ob)"
      using object_links_owner [OF context_okD(1) [OF assms], of a e] owner by auto
  qed (use context_okD(1) [OF assms] in \<open>auto simp: object_links_def set_update_node [OF d] map_update_node\<close>)
  then show ?thesis unfolding update_object_def by (rule context_ok_objects [OF assms])
qed

lemma attach_display_fields:
  "od_heap (attach_display d ctx) = (od_heap ctx)(od_next ctx \<mapsto> d)"
  "od_next (attach_display d ctx) = od_next ctx + 1"
  "clutList (attach_display d ctx) = clutList ctx"
  "displayList (attach_display d ctx) = displayList ctx"
  "regionList (attach_display d ctx) = update_node reg_id (od_regionId d)
     (\<lambda>r. r\<lparr>reg_displayList := od_next ctx # reg_displayList r\<rparr>) (regionList ctx)"
  "objectList (attach_display d ctx) = update_node obj_id (od_objectId d)
     (\<lambda>ob. ob\<lparr>obj_displayList := od_next ctx # obj_displayList ob\<rparr>) (objectList ctx)"
  by (simp_all add: attach_display_def Let_def update_region_def update_object_def)

lemma attach_object_links:
  assumes "object_links ctx" "od_objectId d \<in> obj_id ` set (objectList ctx)" "od_next ctx \<notin> dom (od_heap ctx)"
  shows "object_links (attach_display d ctx)"
proof -
  let ?a = "od_next ctx" and ?k = "od_objectId d" and ?xs = "objectList ctx"
  let ?f = "\<lambda>ob. ob\<lparr>obj_displayList := ?a # obj_displayList ob\<rparr>"
  have dist: "distinct (map obj_id ?xs)" using assms(1) by (simp add: object_links_def)
  have fresh: "?a \<notin> set (obj_displayList ob)" if "ob \<in> set ?xs" for ob
    using object_links_live [OF assms(1) that] assms(3) by blast
  note upd = set_update_node [OF dist, of ?f ?k]
  show ?thesis
    unfolding object_links_def attach_display_fields
  proof (intro conjI ballI allI impI)
    show "distinct (map obj_id (update_node obj_id ?k ?f ?xs))" using dist by (simp add: map_update_node)
  next
    fix ob assume "ob \<in> set (update_node obj_id ?k ?f ?xs)"
    then show "distinct (obj_displayList ob)"
      using fresh assms(1) by (auto simp: upd object_links_def)
  next
    fix ob a assume "ob \<in> set (update_node obj_id ?k ?f ?xs)" "a \<in> set (obj_displayList ob)"
    then obtain o0 where "o0 \<in> set ?xs" "ob = (if obj_id o0 = ?k then ?f o0 else o0)" "a \<in> set (obj_displayList ob)"
      by (auto simp: upd)
    then show "\<exists>d'. ((od_heap ctx)(?a \<mapsto> d)) a = Some d' \<and> od_objectId d' = obj_id ob"
      using fresh [of o0] object_links_live [OF assms(1), of o0 a] by (cases "a = ?a") (auto split: if_splits)
  next
    fix a d' assume h: "((od_heap ctx)(?a \<mapsto> d)) a = Some d'"
    show "\<exists>ob \<in> set (update_node obj_id ?k ?f ?xs). obj_id ob = od_objectId d' \<and> a \<in> set (obj_displayList ob)"
    proof (cases "a = ?a")
      case True
      then have "d' = d" using h by simp
      from assms(2) obtain ob where ob: "ob \<in> set ?xs" "obj_id ob = ?k" by auto
      then have "?f ob \<in> set (update_node obj_id ?k ?f ?xs)" by (auto simp: upd image_iff intro!: bexI [of _ ob])
      with ob True \<open>d' = d\<close> show ?thesis by (intro bexI [of _ "?f ob"]) auto
    next
      case False
      with h obtain ob where ob: "ob \<in> set ?xs" "obj_id ob = od_objectId d'" "a \<in> set (obj_displayList ob)"
        using object_links_owner [OF assms(1), of a d'] by auto
      let ?ob = "if obj_id ob = ?k then ?f ob else ob"
      have "?ob \<in> set (update_node obj_id ?k ?f ?xs)" using ob(1) upd by simp
      with ob show ?thesis by (intro bexI [of _ ?ob]) auto
    qed
  qed
qed

lemma attach_region_links:
  assumes "region_links ctx [] (regionList ctx)" "od_regionId d \<in> reg_id ` set (regionList ctx)"
    "distinct (map reg_id (regionList ctx))"
  shows "region_links (attach_display d ctx) [] (regionList (attach_display d ctx))"
proof -
  let ?a = "od_next ctx" and ?k = "od_regionId d" and ?xs = "regionList ctx"
  let ?f = "\<lambda>r. r\<lparr>reg_displayList := ?a # reg_displayList r\<rparr>"
  have dom: "dom (od_heap ctx) = set (concat (map reg_displayList ?xs))"
    using assms(1) by (simp add: region_links_def)
  have fresh: "?a \<notin> dom (od_heap ctx)"
    using assms(1) unfolding region_links_def by blast
  have links: "distinct (concat (map reg_displayList (update_node reg_id ?k ?f ?xs))) \<and>
      set (concat (map reg_displayList (update_node reg_id ?k ?f ?xs)))
        = insert ?a (set (concat (map reg_displayList ?xs)))"
    using assms(1,2) fresh dom by (intro push_links) (auto simp: region_links_def)
  note upd = set_update_node [OF assms(3), of ?f ?k]
  show ?thesis
    unfolding region_links_def attach_display_fields
  proof (intro conjI ballI allI impI)
    show "distinct ([] @ concat (map reg_displayList (update_node reg_id ?k ?f ?xs)))" using links by simp
    show "dom ((od_heap ctx)(?a \<mapsto> d)) = set ([] @ concat (map reg_displayList (update_node reg_id ?k ?f ?xs)))"
      using links dom by simp
  next
    fix r a d' assume h: "r \<in> set (update_node reg_id ?k ?f ?xs)" "a \<in> set (reg_displayList r)"
      "((od_heap ctx)(?a \<mapsto> d)) a = Some d'"
    then obtain r0 where r0: "r0 \<in> set ?xs" "r = (if reg_id r0 = ?k then ?f r0 else r0)" by (auto simp: upd)
    show "od_regionId d' = reg_id r"
    proof (cases "a = ?a")
      case False
      with h r0 have "a \<in> set (reg_displayList r0)" "od_heap ctx a = Some d'" by (auto split: if_splits)
      with r0 assms(1) show ?thesis by (auto simp: region_links_def)
    next
      case True
      moreover have "?a \<notin> set (reg_displayList r0)" using fresh dom r0(1) by auto
      ultimately show ?thesis using h r0 by (auto split: if_splits)
    qed
  next
    fix a assume "a \<in> dom ((od_heap ctx)(?a \<mapsto> d))"
    then show "a < ?a + 1" using assms(1) by (auto simp: region_links_def less_Suc_eq)
  qed
qed

lemma attach_display_ok:
  assumes "context_ok ctx" "od_objectId d \<in> obj_id ` set (objectList ctx)"
    "od_regionId d \<in> reg_id ` set (regionList ctx)" "0 \<le> od_xPos d" "0 \<le> od_yPos d"
  shows "context_ok (attach_display d ctx)"
proof -
  note ok = context_okD [OF assms(1)]
  have "od_next ctx \<notin> dom (od_heap ctx)" using ok(2) unfolding region_links_def by blast
  then have "linked (attach_display d ctx)"
    using attach_object_links [OF ok(1) assms(2)] attach_region_links [OF ok(2) assms(3) ok(3)]
    by (simp add: linked_def)
  moreover have "region_ok r" if "r \<in> set (regionList (attach_display d ctx))" for r
    using that ok(4) unfolding attach_display_fields
    by (auto simp: set_update_node [OF ok(3)] region_ok_def)
  moreover have "distinct (map reg_id (regionList (attach_display d ctx)))"
    using ok(3) by (simp add: attach_display_fields map_update_node)
  moreover have "displays_ok (attach_display d ctx)"
    using ok(5) assms(4,5) by (auto simp: displays_ok_def attach_display_fields)
  ultimately show ?thesis
    using ok(6) by (auto simp: context_ok_def attach_display_fields)
qed

text \<open>The regions keep their ids and dimensions, and the page its list.\<close>

definition same_regions :: "DVBSubContext \<Rightarrow> DVBSubContext \<Rightarrow> bool" where
  "same_regions ctx c \<longleftrightarrow> displayList c = displayList ctx \<and>
     map (\<lambda>r. (reg_id r, reg_width r, reg_height r)) (regionList c)
       = map (\<lambda>r. (reg_id r, reg_width r, reg_height r)) (regionList ctx)"

lemma same_regions_ids: "same_regions ctx c \<Longrightarrow> map reg_id (regionList c) = map reg_id (regionList ctx)"
  by (drule same_regions_def [THEN iffD1], drule conjunct2, drule arg_cong [of _ _ "map fst"])
    (simp add: comp_def)

lemma same_regions_dims:
  assumes "same_regions ctx c" "r \<in> set (regionList c)"
  shows "\<exists>r0 \<in> set (regionList ctx). reg_width r = reg_width r0 \<and> reg_height r = reg_height r0"
proof -
  have "(reg_id r, reg_width r, reg_height r)
      \<in> set (map (\<lambda>r. (reg_id r, reg_width r, reg_height r)) (regionList ctx))"
    using assms unfolding same_regions_def by (metis (mono_tags, lifting) image_eqI list.set_map)
  then show ?thesis by auto
qed

lemma same_regions_trans: "same_regions a b \<Longrightarrow> same_regions b c \<Longrightarrow> same_regions a c"
  by (simp add: same_regions_def)

lemma enter_object_ok:
  assumes "context_ok ctx"
  shows "context_ok (enter_object m buf ctx) \<and> regionList (enter_object m buf ctx) = regionList ctx \<and>
    displayList (enter_object m buf ctx) = displayList ctx \<and>
    AV_RB16 m buf \<in> obj_id ` set (objectList (enter_object m buf ctx))"
proof -
  let ?k = "AV_RB16 m buf"
  let ?c1 = "if getObject ctx ?k = None
    then ctx\<lparr>objectList := \<lparr>obj_id = ?k, obj_type = 0, obj_displayList = []\<rparr> # objectList ctx\<rparr> else ctx"
  let ?c2 = "update_object ?k (\<lambda>ob. ob\<lparr>obj_type := drop_bit 6 (byte_at m (buf + 2))\<rparr>) ?c1"
  have def: "enter_object m buf ctx = ?c2" by (simp only: enter_object_def Let_def)
  have "context_ok ?c1" using assms by (auto intro!: push_object_ok)
  then have "context_ok ?c2" by (rule object_type_ok)
  moreover have "map obj_id (objectList ?c2) = map obj_id (objectList ?c1)"
    by (simp add: update_object_def map_update_node)
  then have "set (map obj_id (objectList ?c2)) = set (map obj_id (objectList ?c1))" by (rule arg_cong)
  moreover have "?k \<in> set (map obj_id (objectList ?c1))" by (auto simp: objects.get_None_iff)
  moreover have "regionList ?c2 = regionList ctx" "displayList ?c2 = displayList ctx"
    by (simp_all add: update_object_def)
  ultimately show ?thesis unfolding def by simp
qed

lemma region_object_ok:
  assumes "context_ok ctx" "regionId \<in> reg_id ` set (regionList ctx)"
    "region_object A m regionId bufEnd buf ctx = (go, n, c)"
  shows "context_ok c \<and> same_regions ctx c"
proof -
  note ent = enter_object_ok [OF assms(1), of m buf]
  have "context_ok (attach_display (object_display m regionId bufEnd buf) (enter_object m buf ctx))"
    using assms(2) ent by (intro attach_display_ok) (auto simp: object_display_def)
  then show ?thesis
    using assms(1,3) ent
    by (auto simp: region_object_def Let_def same_regions_def attach_display_fields map_update_node split: if_splits)
qed

lemma region_objects_ok:
  assumes "context_ok ctx" "regionId \<in> reg_id ` set (regionList ctx)"
  shows "context_ok (region_objects A m regionId bufEnd buf ctx) \<and>
    same_regions ctx (region_objects A m regionId bufEnd buf ctx)"
  using assms
proof (induction A m regionId bufEnd buf ctx rule: region_objects.induct)
  case (1 A m regionId bufEnd buf ctx)
  show ?case
  proof (cases "buf + 5 < bufEnd")
    case True
    obtain go n c where c: "region_object A m regionId bufEnd buf ctx = (go, n, c)" by (metis prod_cases3)
    from region_object_ok [OF 1(2,3) c] have ok: "context_ok c" "same_regions ctx c" by auto
    then have "regionId \<in> reg_id ` set (regionList c)"
      using 1(3) same_regions_ids [OF ok(2)] by (metis list.set_map)
    then show ?thesis
      using 1(1) [OF True c [symmetric] refl] ok True c same_regions_trans [OF ok(2)]
      by (cases go) (auto simp: region_objects.simps [of A m regionId bufEnd buf ctx])
  qed (use 1(2) in \<open>simp add: region_objects.simps same_regions_def\<close>)
qed

definition pixel_memory :: "(request \<Rightarrow> bool) \<Rightarrow> bool" where
  "pixel_memory A \<longleftrightarrow> (\<forall>n. 0 \<le> n \<and> n < 2 ^ 31 \<longrightarrow> A (PixelBuffer n))"

lemma region_resize_ok:
  assumes "region_ok r" "pixel_memory A" "0 \<le> w" "w < 65536" "0 \<le> h" "h < 65536" "w * h < 2 ^ 31"
    "region_resize A w h fill r = (ok, fill', r')"
  shows "ok \<and> region_ok r' \<and> reg_id r' = reg_id r \<and> reg_displayList r' = reg_displayList r \<and>
    reg_width r' = w \<and> reg_height r' = h"
proof -
  have wh: "0 \<le> w * h" using assms by simp
  have wr: "wrap32 (w * h) = w * h" and sz: "size_of (w * h) = w * h" using wh assms(7) by simp_all
  have "A (PixelBuffer (w * h))" using assms(2,7) wh by (simp add: pixel_memory_def)
  then show ?thesis
    using assms(1,3-8) wh unfolding region_resize_def Let_def wr sz
    by (auto simp: region_ok_def split: if_splits)
qed

lemma region_colours_ok:
  "region_ok (region_colours m buf r) = region_ok r" "reg_id (region_colours m buf r) = reg_id r"
  "reg_displayList (region_colours m buf r) = reg_displayList r"
  "reg_width (region_colours m buf r) = reg_width r" "reg_height (region_colours m buf r) = reg_height r"
  by (simp_all add: region_colours_def Let_def region_ok_def)

lemma fill_ok:
  assumes "region_ok r"
  shows "yields (\<lambda>pb. region_ok (r\<lparr>reg_pbuf := pb\<rparr>))
    (if fill then memset_bytes (reg_pbuf r) c (reg_bufSize r) else Some (reg_pbuf r))"
proof -
  have "0 \<le> reg_bufSize r \<and> reg_bufSize r < 2 ^ 64" using assms by (auto simp: region_ok_def)
  then show ?thesis using assms by (auto simp: memset_bytes_def region_ok_def)
qed

text \<open>Replacing the region that a lookup found, keeping its displays.\<close>

lemma replace_region_ok:
  assumes "context_ok ctx" "getRegion ctx k = Some r" "region_ok r'" "reg_id r' = reg_id r"
    "reg_displayList r' = reg_displayList r"
  shows "context_ok (update_region k (\<lambda>_. r') ctx)"
proof -
  note ok = context_okD [OF assms(1)]
  have same: "map (\<lambda>r. (reg_id r, reg_displayList r)) (update_node reg_id k (\<lambda>_. r') xs)
      = map (\<lambda>r. (reg_id r, reg_displayList r)) xs"
    if "List.find (\<lambda>r. reg_id r = k) xs = Some r" for xs
    using that assms(4,5) by (induction xs) (auto split: if_splits)
  let ?c = "update_region k (\<lambda>_. r') ctx"
  have pairs: "map (\<lambda>r. (reg_id r, reg_displayList r)) (regionList ?c)
      = map (\<lambda>r. (reg_id r, reg_displayList r)) (regionList ctx)"
    using same assms(2) by (simp add: update_region_def getRegion_def)
  have ids: "map reg_id (regionList ?c) = map reg_id (regionList ctx)"
    using arg_cong [OF pairs, of "map fst"] by (simp add: comp_def)
  have ds: "map reg_displayList (regionList ?c) = map reg_displayList (regionList ctx)"
    using arg_cong [OF pairs, of "map snd"] by (simp add: comp_def)
  have heap: "od_heap ?c = od_heap ctx" "od_next ?c = od_next ctx" by (simp_all add: update_region_def)
  have "region_links ?c [] (regionList ?c)"
    unfolding region_links_def ds heap
  proof (intro conjI ballI allI impI)
    fix r1 a d assume h: "r1 \<in> set (regionList ?c)" "a \<in> set (reg_displayList r1)" "od_heap ctx a = Some d"
    then have "(reg_id r1, reg_displayList r1) \<in> set (map (\<lambda>r. (reg_id r, reg_displayList r)) (regionList ctx))"
      unfolding pairs [symmetric] by auto
    with h ok(2) show "od_regionId d = reg_id r1" by (auto simp: region_links_def)
  qed (use ok(2) in \<open>auto simp: region_links_def\<close>)
  moreover have "object_links ?c" using ok(1) by (simp add: object_links_def update_region_def)
  moreover have "region_ok r1" if "r1 \<in> set (regionList ?c)" for r1
    using that ok(4) assms(3) set_update_node_subset [of reg_id k "\<lambda>_. r'" "regionList ctx"]
    by (auto simp: update_region_def)
  ultimately show ?thesis
    using ok ids by (simp add: context_ok_def linked_def displays_ok_def update_region_def)
qed

text \<open>The displays of a region are freed and its list emptied.\<close>

lemma clear_region_ok:
  assumes "context_ok ctx" "getRegion ctx k = Some r"
  shows "yields (\<lambda>c. context_ok (update_region k (\<lambda>r. r\<lparr>reg_displayList := []\<rparr>) c) \<and>
      regionList c = regionList ctx \<and> displayList c = displayList ctx)
    (deleteRegionDisplayList ctx (reg_displayList r))"
proof -
  note ok = context_okD [OF assms(1)]
  let ?f = "\<lambda>r. r\<lparr>reg_displayList := []\<rparr>"
  let ?rs = "update_node reg_id k ?f (regionList ctx)"
  note links = empty_links [where g = reg_displayList and f = ?f and key = reg_id and k = k
      and xs = "regionList ctx" and r = r]
  have "region_links ctx (reg_displayList r) ?rs"
    unfolding region_links_def
  proof (intro conjI ballI allI impI)
    show "distinct (reg_displayList r @ concat (map reg_displayList ?rs))"
      "dom (od_heap ctx) = set (reg_displayList r @ concat (map reg_displayList ?rs))"
      using links assms(2) ok(2) by (auto simp: getRegion_def region_links_def)
  next
    fix r1 a d assume "r1 \<in> set ?rs" "a \<in> set (reg_displayList r1)" "od_heap ctx a = Some d"
    then show "od_regionId d = reg_id r1"
      using ok(2) set_update_node [OF ok(3), of ?f k] by (auto simp: region_links_def split: if_splits)
  qed (use ok(2) in \<open>auto simp: region_links_def\<close>)
  with ok(1) have y: "yields (\<lambda>c. object_links c \<and> region_links c [] ?rs \<and>
      regionList c = regionList ctx \<and> od_next c = od_next ctx)
    (deleteRegionDisplayList ctx (reg_displayList r))"
    by (rule deleteRegionDisplayList_links)
  then obtain c where c: "deleteRegionDisplayList ctx (reg_displayList r) = Some c"
      "object_links c" "region_links c [] ?rs" "regionList c = regionList ctx"
    by (auto elim!: yieldsE)
  have "displays_ok c \<and> clutList c = clutList ctx \<and> displayList c = displayList ctx"
  proof -
    from deleteRegionDisplayList_frame [OF c(1)]
    have "od_heap c \<subseteq>\<^sub>m od_heap ctx"
      and eq: "c\<lparr>objectList := [], od_heap := Map.empty\<rparr> = ctx\<lparr>objectList := [], od_heap := Map.empty\<rparr>" by auto
    then have "displays_ok c" using ok(5) by (auto simp: displays_ok_def map_le_def dom_def)
    moreover have "clutList c = clutList ctx" using arg_cong [OF eq, of clutList] by simp
    moreover have "displayList c = displayList ctx" using arg_cong [OF eq, of displayList] by simp
    ultimately show ?thesis by simp
  qed
  note kept = this
  moreover have "\<forall>r1 \<in> set ?rs. region_ok r1"
    using ok(4) set_update_node_subset [of reg_id k ?f "regionList ctx"] by (auto simp: region_ok_def)
  moreover have "distinct (map reg_id ?rs)" using ok(3) by (simp add: map_update_node)
  ultimately have "context_ok (update_region k ?f c)"
    using c(2-4) ok(6)
    by (simp add: context_ok_def linked_def update_region_def object_links_def region_links_def displays_ok_def)
  with c kept show ?thesis by simp
qed

lemma parseRegionSegment_ok:
  assumes "context_ok ctx" "pixel_memory A" "AV_RB16 m (buf + 2) * AV_RB16 m (buf + 4) < 2 ^ 31"
  shows "yields (\<lambda>c. context_ok c \<and> displayList c = displayList ctx \<and>
      (\<forall>r \<in> set (regionList c). (reg_width r = AV_RB16 m (buf + 2) \<and> reg_height r = AV_RB16 m (buf + 4)) \<or>
         (\<exists>r0 \<in> set (regionList ctx). reg_width r = reg_width r0 \<and> reg_height r = reg_height r0)))
    (parseRegionSegment A m buf n ctx)"
proof -
  let ?k = "byte_at m buf"
  let ?c = "if getRegion ctx ?k = None
    then ctx\<lparr>regionList := zero_region\<lparr>reg_id := ?k\<rparr> # regionList ctx\<rparr> else ctx"
  let ?fill = "drop_bit 3 (byte_at m (buf + 1)) AND 1 = 1"
  have c: "context_ok ?c"
    using assms(1) regions.get_None_iff [of ctx ?k]
    by (auto simp: context_ok_def linked_def object_links_def region_links_def displays_ok_def
        zero_region_def region_ok_def)
  obtain r where r: "getRegion ?c ?k = Some r" by (cases "getRegion ctx ?k") (auto simp: getRegion_def)
  have rin: "r \<in> set (regionList ?c)" "reg_id r = ?k" using regions.get_SomeD [OF r] by auto
  have rok: "region_ok r" using context_okD(4) [OF c rin(1)] .
  obtain ok fill r1 where rs: "region_resize A (AV_RB16 m (buf + 2)) (AV_RB16 m (buf + 4)) ?fill r = (ok, fill, r1)"
    by (metis prod_cases3)
  have r1: "ok" "region_ok r1" "reg_id r1 = ?k" "reg_displayList r1 = reg_displayList r"
      "reg_width r1 = AV_RB16 m (buf + 2)" "reg_height r1 = AV_RB16 m (buf + 4)"
    using region_resize_ok [OF rok assms(2) _ _ _ _ assms(3) rs] rin(2) AV_RB16_range by auto
  let ?r2 = "region_colours m buf r1"
  obtain pb where pb: "(if fill then memset_bytes (reg_pbuf ?r2) (reg_bgcolor ?r2) (reg_bufSize ?r2)
      else Some (reg_pbuf ?r2)) = Some pb" and r3: "region_ok (?r2\<lparr>reg_pbuf := pb\<rparr>)"
    using fill_ok [of ?r2 fill "reg_bgcolor ?r2"] r1(2) by (auto simp: region_colours_ok elim: yieldsE)
  let ?r3 = "?r2\<lparr>reg_pbuf := pb\<rparr>" and ?c2 = "update_region ?k (\<lambda>_. ?r2\<lparr>reg_pbuf := pb\<rparr>) ?c"
  have r3f: "reg_id ?r3 = ?k" "reg_displayList ?r3 = reg_displayList r"
    using r1 by (simp_all add: region_colours_ok)
  have c2: "context_ok ?c2"
    using r3f rin(2) by (intro replace_region_ok [OF c r r3]) auto
  have found: "List.find (\<lambda>x. reg_id x = ?k) (update_node reg_id ?k (\<lambda>_. ?r3) xs) = Some ?r3"
    if "List.find (\<lambda>x. reg_id x = ?k) xs = Some r" for xs
    using that r3f(1) by (induction xs) (auto split: if_splits)
  have get3: "getRegion ?c2 ?k = Some ?r3"
    using found r by (simp add: getRegion_def update_region_def)
  obtain c3 where c3: "deleteRegionDisplayList ?c2 (reg_displayList ?r3) = Some c3"
      "context_ok (update_region ?k (\<lambda>r. r\<lparr>reg_displayList := []\<rparr>) c3)" "regionList c3 = regionList ?c2"
      "displayList c3 = displayList ?c2"
    using clear_region_ok [OF c2 get3] by (auto elim: yieldsE)
  let ?c4 = "update_region ?k (\<lambda>r. r\<lparr>reg_displayList := []\<rparr>) c3"
  have "?k \<in> reg_id ` set (regionList c3)" using regions.get_SomeD [OF get3] c3(3) by force
  then have "?k \<in> reg_id ` set (regionList ?c4)"
    unfolding update_region_def by (simp add: map_update_node flip: set_map)
  note fin = region_objects_ok [OF c3(2) this, of A m "buf + n" "buf + 10"]
  let ?c5 = "region_objects A m ?k (buf + n) (buf + 10) ?c4"
  have dims: "(reg_width q = AV_RB16 m (buf + 2) \<and> reg_height q = AV_RB16 m (buf + 4)) \<or>
      (\<exists>r0 \<in> set (regionList ctx). reg_width q = reg_width r0 \<and> reg_height q = reg_height r0)"
    if h: "q \<in> set (regionList ?c5)" for q
  proof -
    obtain q4 where q4: "q4 \<in> set (regionList ?c4)" "reg_width q = reg_width q4" "reg_height q = reg_height q4"
      using same_regions_dims [OF conjunct2 [OF fin] h] by blast
    have "same_regions c3 ?c4" by (simp add: same_regions_def update_region_def map_update_node)
    then obtain q3 where q3: "q3 \<in> set (regionList ?c2)" "reg_width q = reg_width q3" "reg_height q = reg_height q3"
      using same_regions_dims q4 c3(3) by metis
    have "q3 = ?r3 \<or> q3 \<in> set (regionList ctx)"
      using q3(1) unfolding update_region_def
      by (cases "getRegion ctx ?k") (auto simp: zero_region_def dest!: set_update_node_subset [THEN subsetD])
    then show ?thesis using q3 r1(5,6) by (auto simp: region_colours_ok)
  qed
  have disp: "displayList ?c5 = displayList ctx"
    using fin c3(4) by (simp add: same_regions_def update_region_def)
  show ?thesis
    using assms(1) r rs r1(1) pb c3(1) fin dims disp
    unfolding parseRegionSegment_def Let_def by (auto simp: Let_def)
qed

section \<open>Page and display definition segments keep the context\<close>

lemma context_ok_cong:
  assumes "context_ok ctx" "regionList c = regionList ctx" "objectList c = objectList ctx"
    "clutList c = clutList ctx" "od_heap c = od_heap ctx" "od_next c = od_next ctx"
  shows "context_ok c"
  using assms by (simp add: context_ok_def linked_def object_links_def region_links_def displays_ok_def)

definition page_list_ok :: "DVBSubContext \<Rightarrow> bool" where
  "page_list_ok ctx \<longleftrightarrow> displayListSize ctx = int (length (displayList ctx)) \<and>
     (\<forall>d \<in> set (displayList ctx). 0 \<le> rd_xPos d \<and> rd_xPos d < 65536 \<and> 0 \<le> rd_yPos d \<and> rd_yPos d < 65536)"

lemma page_regions_frame:
  "\<exists>ds n. page_regions A m e buf tmp ctx = ctx\<lparr>displayList := ds, displayListSize := n\<rparr>"
proof (induction A m e buf tmp ctx rule: page_regions.induct)
  case (1 A m e buf tmp ctx)
  show ?case
  proof (cases "buf + 5 < e \<and> \<not> (List.find (\<lambda>d. rd_regionId d = byte_at m buf) tmp = None \<and> \<not> A RegionDisplayNode)")
    case True
    then show ?thesis using 1 [OF _ refl refl _ refl]
      by (subst page_regions.simps) (auto simp: Let_def)
  next
    case False
    then show ?thesis
      by (intro exI [of _ "displayList ctx"] exI [of _ "displayListSize ctx"])
        (subst page_regions.simps, auto simp: Let_def)
  qed
qed

lemma page_regions_list:
  "page_list_ok ctx \<Longrightarrow> page_list_ok (page_regions A m e buf tmp ctx)"
proof (induction A m e buf tmp ctx rule: page_regions.induct)
  case (1 A m e buf tmp ctx)
  show ?case
  proof (cases "buf + 5 < e \<and> \<not> (List.find (\<lambda>d. rd_regionId d = byte_at m buf) tmp = None \<and> \<not> A RegionDisplayNode)")
    case True
    have "page_list_ok (ctx\<lparr>displayList := \<lparr>rd_regionId = byte_at m buf, rd_xPos = AV_RB16 m (buf + 2),
        rd_yPos = AV_RB16 m (buf + 4)\<rparr> # displayList ctx, displayListSize := displayListSize ctx + 1\<rparr>)"
      using 1(2) AV_RB16_range by (simp add: page_list_ok_def)
    then show ?thesis using True 1(1) [OF _ refl refl _ refl]
      by (subst page_regions.simps) (auto simp: Let_def)
  next
    case False
    then show ?thesis using 1(2)
      by (subst page_regions.simps) (auto simp: Let_def)
  qed
qed

lemma page_regions_ok:
  "context_ok ctx \<Longrightarrow> context_ok (page_regions A m e buf tmp ctx)"
  using page_regions_frame [of A m e buf tmp ctx] by (auto intro: context_ok_cong [of ctx])

lemma parsePageSegment_ok:
  assumes "context_ok ctx"
  shows "yields (\<lambda>c. context_ok c \<and> (0 < n \<longrightarrow> page_list_ok c) \<and>
      (0 < n \<and> drop_bit 2 (byte_at m (buf + 1)) AND 3 \<in> {1, 2} \<longrightarrow>
         regionList c = [] \<and> objectList c = [] \<and> clutList c = [] \<and> od_heap c = Map.empty))
    (parsePageSegment A m buf n ctx)"
proof (cases "n < 1")
  case True
  then show ?thesis using assms by (simp add: parsePageSegment_def)
next
  case False
  let ?s = "drop_bit 2 (byte_at m (buf + 1)) AND 3" and ?c = "ctx\<lparr>timeOut := page_timeout (byte_at m buf)\<rparr>"
  have c: "context_ok ?c" using assms by (rule context_ok_cong) simp_all
  have fin: "context_ok (page_regions A m (buf + n) (buf + 2) (displayList d) (d\<lparr>displayList := [], displayListSize := 0\<rparr>)) \<and>
      page_list_ok (page_regions A m (buf + n) (buf + 2) (displayList d) (d\<lparr>displayList := [], displayListSize := 0\<rparr>))"
    if "context_ok d" for d
    using that by (intro conjI page_regions_ok page_regions_list)
      (auto intro: context_ok_cong simp: page_list_ok_def)
  show ?thesis
  proof (cases "?s = DVBSUB_PCS_STATE_ACQUISITION \<or> ?s = DVBSUB_PCS_STATE_MODE_CHANGE")
    case False2: False
    then show ?thesis
      using False c fin [OF c] unfolding parsePageSegment_def Let_def
      by (simp add: DVBSUB_PCS_STATE_ACQUISITION_def DVBSUB_PCS_STATE_MODE_CHANGE_def)
  next
    case True
    obtain d where d: "deleteRegions ?c = Some d" "linked d" "regionList d = []" "od_heap d = Map.empty"
      using deleteRegions_links [of ?c] c by (auto simp: context_ok_def elim: yieldsE)
    let ?d = "deleteCluts (deleteObjects d)"
    have ok: "context_ok ?d"
      using d by (simp add: context_ok_def linked_def object_links_def region_links_def displays_ok_def
          deleteCluts_def deleteObjects_def)
    have fr: "regionList ?d = [] \<and> objectList ?d = [] \<and> clutList ?d = [] \<and> od_heap ?d = Map.empty"
      using d by (simp add: deleteCluts_def deleteObjects_def)
    show ?thesis
      using False True d(1) fin [OF ok] fr
        page_regions_frame [of A m "buf + n" "buf + 2" "displayList ?d" "?d\<lparr>displayList := [], displayListSize := 0\<rparr>"]
      unfolding parsePageSegment_def Let_def by auto
  qed
qed

lemma parseDisplayDefinitionSegment_frame:
  "\<exists>dd. parseDisplayDefinitionSegment A m buf n ctx = ctx\<lparr>displayDefinition := dd\<rparr>"
proof -
  have "ctx = ctx\<lparr>displayDefinition := displayDefinition ctx\<rparr>" by simp
  then show ?thesis unfolding parseDisplayDefinitionSegment_def Let_def by (metis (no_types))
qed

lemma parseDisplayDefinitionSegment_ok:
  "context_ok ctx \<Longrightarrow> context_ok (parseDisplayDefinitionSegment A m buf n ctx)"
  using parseDisplayDefinitionSegment_frame [of A m buf n ctx] by (auto intro: context_ok_cong [of ctx])

end
