(* ===== verification/Dvb_Render.thy ===== *)
theory Dvb_Render
  imports Dvb_Segments
begin

text \<open>
  \<open>saveResult2Spu\<close> and \<open>displayEndSegment\<close> of \<open>DvbParser.cpp\<close>: the bounding box of the
  page's regions, and the conversion of their pixels through the CLUTs into one bitmap.

  The sums of positions and sizes are left unbounded in the model: by \<open>layout_bounded\<close>
  they stay inside an \<open>int\<close> for any page a segment can hold (at most 10922 regions,
  with 16-bit positions and sizes). The products with the width do overflow, and wrap.
\<close>

section \<open>Layout\<close>

record box =
  bx_x :: int
  bx_y :: int
  bx_w :: int
  bx_h :: int

definition no_box :: box where
  "no_box = \<lparr>bx_x = -1, bx_y = -1, bx_w = 0, bx_h = 0\<rparr>"

text \<open>
  One round of the first loop. The two axes do not depend on each other, so each has its
  function: \<open>widen\<close> returns the left edge and the width, \<open>heighten\<close> the row of the
  display (which the code may move), the top edge and the height.
\<close>

definition widen :: "int \<Rightarrow> int \<Rightarrow> int \<Rightarrow> int \<Rightarrow> int \<times> int" where
  "widen dx rw x w =
     (let (x, w) = (if dx < x then (dx, w + (x - dx)) else (x, w))
      in if dx + rw > x + w then (x, dx + rw - x) else (x, w))"

definition heighten :: "int \<Rightarrow> int \<Rightarrow> int \<Rightarrow> int \<Rightarrow> int \<times> int \<times> int" where
  "heighten dy rh y h =
     (let (dy, y, h) =
        (if dy < y then
           (if y - dy < rh then (y - rh, y - rh, h + rh) else (dy, dy, h + (y - dy)))
         else (dy, y, h))
      in if dy + rh > y + h then (dy, y, dy + rh - y) else (dy, y, h))"

definition layout_step ::
  "DVBSubRegion \<Rightarrow> DVBSubRegionDisplay \<Rightarrow> box \<Rightarrow> DVBSubRegionDisplay \<times> box" where
  "layout_step region d b =
     (if bx_x b = -1 then
        (d, \<lparr>bx_x = rd_xPos d, bx_y = rd_yPos d, bx_w = reg_width region, bx_h = reg_height region\<rparr>)
      else
        let (x, w) = widen (rd_xPos d) (reg_width region) (bx_x b) (bx_w b);
            (dy, y, h) = heighten (rd_yPos d) (reg_height region) (bx_y b) (bx_h b)
        in (d\<lparr>rd_yPos := dy\<rparr>, \<lparr>bx_x = x, bx_y = y, bx_w = w, bx_h = h\<rparr>))"

text \<open>The loop; the flag is \<open>False\<close> when a display names no region, and the code returns.\<close>

fun layout ::
  "DVBSubContext \<Rightarrow> box \<Rightarrow> DVBSubRegionDisplay list \<Rightarrow> bool \<times> DVBSubRegionDisplay list \<times> box" where
  "layout ctx b [] = (True, [], b)"
| "layout ctx b (d # ds) =
     (case getRegion ctx (rd_regionId d) of
        None \<Rightarrow> (False, d # ds, b)
      | Some region \<Rightarrow>
          let (d, b) = layout_step region d b; (ok, ds, b) = layout ctx b ds
          in (ok, d # ds, b))"

section \<open>Painting\<close>

definition DVB_SUB_SIZE :: int where "DVB_SUB_SIZE = 1920 * 1280 * 4"

definition clut_table :: "DVBSubRegion \<Rightarrow> int" where
  "clut_table region = (if reg_depth region = 2 then clut4 else if reg_depth region = 8 then clut256 else clut16)"

text \<open>The last of the four bytes of the region's last pixel, as an \<open>unsigned\<close>.\<close>

definition check_err :: "DVBSubRegion \<Rightarrow> int \<Rightarrow> int \<Rightarrow> int \<Rightarrow> int" where
  "check_err region width xOff yOff =
     u32_of ((reg_height region - 1 + yOff) * width * 4 + (xOff + reg_width region - 1) * 4 + 3)"

definition blit_pixel ::
  "DVBSubRegion \<Rightarrow> DVBSubCLUT \<Rightarrow> int \<Rightarrow> int \<Rightarrow> int \<Rightarrow> int \<Rightarrow> int
     \<Rightarrow> u32 list \<times> u8 list \<Rightarrow> (u32 list \<times> u8 list) option" where
  "blit_pixel region clut width xOff yOff y x = (\<lambda>(pbuf, data). do {
     index \<leftarrow> load (reg_pbuf region) (wrap32 (y * reg_width region + x));
     v \<leftarrow> load (clut_words clut) (clut_table region + uint index);
     let at = wrap32 ((y + yOff) * width + xOff + x);
     let at4 = wrap32 ((y + yOff) * width * 4 + (xOff + x) * 4);
     pbuf \<leftarrow> store pbuf at v;
     data \<leftarrow> store data at4 (ucast (v AND 0xff));
     data \<leftarrow> store data (at4 + 1) (ucast (drop_bit 8 v AND 0xff));
     data \<leftarrow> store data (at4 + 2) (ucast (drop_bit 16 v AND 0xff));
     data \<leftarrow> store data (at4 + 3) (ucast (drop_bit 24 v AND 0xff));
     Some (pbuf, data) })"

definition blit_region ::
  "DVBSubRegion \<Rightarrow> DVBSubCLUT \<Rightarrow> int \<Rightarrow> int \<Rightarrow> int
     \<Rightarrow> u32 list \<times> u8 list \<Rightarrow> (u32 list \<times> u8 list) option" where
  "blit_region region clut width xOff yOff =
     each (\<lambda>y. each (blit_pixel region clut width xOff yOff y) [0..reg_width region - 1])
       [0..reg_height region - 1]"

text \<open>The second loop over the displays; every early return keeps what is painted.\<close>

fun blit_displays ::
  "DVBSubContext \<Rightarrow> box \<Rightarrow> DVBSubRegionDisplay list \<Rightarrow> u32 list \<times> u8 list
     \<Rightarrow> (u32 list \<times> u8 list) option" where
  "blit_displays ctx b [] img = Some img"
| "blit_displays ctx b (d # ds) img =
     (case getRegion ctx (rd_regionId d) of
        None \<Rightarrow> Some img
      | Some region \<Rightarrow>
          let xOff = rd_xPos d - bx_x b; yOff = rd_yPos d - bx_y b in
          (case getClut ctx (reg_clut region) of
             None \<Rightarrow> Some img
           | Some clut \<Rightarrow>
               if check_err region (bx_w b) xOff yOff \<ge> DVB_SUB_SIZE
                  \<or> reg_height region > 1080 \<or> reg_width region > 1920
               then Some img
               else do {
                 img \<leftarrow> blit_region region clut (bx_w b) xOff yOff img;
                 blit_displays ctx b ds img }))"

definition saveResult2Spu ::
  "(request \<Rightarrow> bool) \<Rightarrow> AML_SPUVAR \<Rightarrow> DVBSubContext \<Rightarrow> (AML_SPUVAR \<times> DVBSubContext) option" where
  "saveResult2Spu alloc spu ctx =
     (let (ok, ds, b) = layout ctx no_box (displayList ctx);
          ctx = ctx\<lparr>displayList := ds\<rparr>
      in if \<not> ok then Some (spu, ctx)
         else if bx_x b \<ge> 0 then
           let bytes = wrap32 (bx_w b * bx_h b * 4);
               spu = spu\<lparr>buffer_size := u32_of bytes\<rparr>
           in if \<not> alloc (DisplayBuffer (size_of bytes)) then Some (spu, ctx)
              else if \<not> alloc (SpuData (u32_of bytes)) then Some (spu\<lparr>spu_data := None\<rparr>, ctx)
              else
                let pbuf = replicate (nat (size_of bytes) div 4) 0;
                    data = replicate (nat (u32_of bytes)) 0;
                    spu = spu\<lparr>spu_width := u16_of (bx_w b), spu_height := u16_of (bx_h b),
                      spu_start_x := u16_of (bx_x b), spu_start_y := u16_of (bx_y b)\<rparr>;
                    spu = (case displayDefinition ctx of
                        None \<Rightarrow> spu
                      | Some dd \<Rightarrow>
                          if dd_width dd \<ge> 0 \<and> dd_height dd \<ge> 0
                          then spu\<lparr>spu_origin_display_w := u32_of (dd_width dd),
                                   spu_origin_display_h := u32_of (dd_height dd)\<rparr>
                          else spu)
                in do {
                  (pbuf, data) \<leftarrow> blit_displays ctx b ds (pbuf, data);
                  Some (spu\<lparr>spu_data := Some data\<rparr>, ctx) }
         else Some (spu, ctx))"

definition displayEndSegment ::
  "(request \<Rightarrow> bool) \<Rightarrow> AML_SPUVAR \<Rightarrow> DVBSubContext \<Rightarrow> (AML_SPUVAR \<times> DVBSubContext) option" where
  "displayEndSegment alloc spu ctx =
     saveResult2Spu alloc (spu\<lparr>m_delay := pts spu + timeOut ctx * 1000 * 90\<rparr>) ctx"

section \<open>The box holds every region\<close>

definition covers :: "box \<Rightarrow> DVBSubRegion \<Rightarrow> DVBSubRegionDisplay \<Rightarrow> bool" where
  "covers b r d \<longleftrightarrow> bx_x b \<le> rd_xPos d \<and> rd_xPos d + reg_width r \<le> bx_x b + bx_w b \<and>
     bx_y b \<le> rd_yPos d \<and> rd_yPos d + reg_height r \<le> bx_y b + bx_h b"

definition grows :: "box \<Rightarrow> box \<Rightarrow> bool" where
  "grows b c \<longleftrightarrow> bx_x c \<le> bx_x b \<and> bx_x b + bx_w b \<le> bx_x c + bx_w c \<and>
     bx_y c \<le> bx_y b \<and> bx_y b + bx_h b \<le> bx_y c + bx_h c"

lemma covers_grows: "covers b r d \<Longrightarrow> grows b c \<Longrightarrow> covers c r d"
  by (auto simp: covers_def grows_def)

lemma widen_covers:
  "0 \<le> rw \<Longrightarrow> widen dx rw x w = (x', w') \<Longrightarrow>
     x' \<le> dx \<and> dx + rw \<le> x' + w' \<and> x' \<le> x \<and> x + w \<le> x' + w' \<and> (x' = x \<or> x' = dx)"
  unfolding widen_def Let_def by (auto split: if_splits)

lemma heighten_covers:
  "0 \<le> rh \<Longrightarrow> heighten dy rh y h = (dy', y', h') \<Longrightarrow>
     y' \<le> dy' \<and> dy' + rh \<le> y' + h' \<and> y' \<le> y \<and> y + h \<le> y' + h' \<and> dy' \<le> dy"
  unfolding heighten_def Let_def by (auto split: if_splits)

lemma layout_step_cases:
  assumes "layout_step r d b = (d', b')"
  obtains "bx_x b = -1" "d' = d" "b' = \<lparr>bx_x = rd_xPos d, bx_y = rd_yPos d, bx_w = reg_width r, bx_h = reg_height r\<rparr>"
  | x w dy y h where "bx_x b \<noteq> -1" "widen (rd_xPos d) (reg_width r) (bx_x b) (bx_w b) = (x, w)"
      "heighten (rd_yPos d) (reg_height r) (bx_y b) (bx_h b) = (dy, y, h)"
      "d' = d\<lparr>rd_yPos := dy\<rparr>" "b' = \<lparr>bx_x = x, bx_y = y, bx_w = w, bx_h = h\<rparr>"
  using assms unfolding layout_step_def by (auto simp: Let_def split: if_splits prod.splits)

lemma layout_step_covers:
  assumes "region_ok r" "0 \<le> rd_xPos d" "bx_x b = -1 \<or> 0 \<le> bx_x b" "layout_step r d b = (d', b')"
  shows "covers b' r d' \<and> 0 \<le> bx_x b' \<and> (bx_x b \<noteq> -1 \<longrightarrow> grows b b') \<and>
    rd_regionId d' = rd_regionId d \<and> rd_xPos d' = rd_xPos d \<and> rd_yPos d' \<le> rd_yPos d"
proof -
  have wh: "0 \<le> reg_width r" "0 \<le> reg_height r" using assms(1) by (simp_all add: region_ok_def)
  from assms(4) show ?thesis
  proof (cases rule: layout_step_cases)
    case 1
    then show ?thesis using assms(2) by (simp add: covers_def)
  next
    case (2 x w dy y h)
    with widen_covers [OF wh(1) 2(2)] heighten_covers [OF wh(2) 2(3)] assms(2,3) show ?thesis
      by (auto simp: covers_def grows_def)
  qed
qed

definition covered :: "DVBSubContext \<Rightarrow> box \<Rightarrow> DVBSubRegionDisplay list \<Rightarrow> bool" where
  "covered ctx b ds \<longleftrightarrow> (\<forall>d \<in> set ds. \<forall>r. getRegion ctx (rd_regionId d) = Some r \<longrightarrow> covers b r d)"

lemma layout_covers:
  assumes "\<forall>r \<in> set (regionList ctx). region_ok r" "\<forall>d \<in> set ds. 0 \<le> rd_xPos d"
    "bx_x b = -1 \<or> 0 \<le> bx_x b" "layout ctx b ds = (True, ds', b')"
  shows "covered ctx b' ds' \<and> (ds \<noteq> [] \<longrightarrow> 0 \<le> bx_x b') \<and> (bx_x b \<noteq> -1 \<longrightarrow> grows b b') \<and>
    map (\<lambda>d. (rd_regionId d, rd_xPos d)) ds' = map (\<lambda>d. (rd_regionId d, rd_xPos d)) ds"
  using assms(2-)
proof (induction ds arbitrary: b ds')
  case Nil
  then show ?case by (auto simp: covered_def grows_def)
next
  case (Cons d ds)
  then obtain r where r: "getRegion ctx (rd_regionId d) = Some r" by (cases "getRegion ctx (rd_regionId d)") auto
  obtain d1 b1 where st: "layout_step r d b = (d1, b1)" by fastforce
  obtain ds1 where rest: "layout ctx b1 ds = (True, ds1, b')" "ds' = d1 # ds1"
    using Cons.prems(3) r st by (auto split: prod.splits)
  have rok: "region_ok r" using regions.get_SomeD [OF r] assms(1) by blast
  note s = layout_step_covers [OF rok _ Cons.prems(2) st]
  have x0: "0 \<le> rd_xPos d" using Cons.prems(1) by simp
  have IH: "covered ctx b' ds1 \<and> grows b1 b' \<and>
      map (\<lambda>d. (rd_regionId d, rd_xPos d)) ds1 = map (\<lambda>d. (rd_regionId d, rd_xPos d)) ds"
    using Cons.IH [OF _ _ rest(1)] Cons.prems(1) s [OF x0] by auto
  moreover have "covers b' r d1" using s [OF x0] IH by (blast intro: covers_grows)
  moreover have "0 \<le> bx_x b'"
    using Cons.IH [OF _ _ rest(1)] Cons.prems(1) s [OF x0] rest(1) by (cases ds) auto
  ultimately show ?case
    using s [OF x0] rest(2) r by (auto simp: covered_def grows_def)
qed

lemma heighten_again: "heighten dy rh y h = (dy', y', h') \<Longrightarrow> heighten dy' rh y h = (dy', y', h')"
  unfolding heighten_def Let_def by (auto split: if_splits)

lemma layout_step_again:
  assumes "layout_step r d b = (d', b')"
  shows "layout_step r d' b = (d', b')"
  using assms
proof (cases rule: layout_step_cases)
  case 1
  then show ?thesis by (simp add: layout_step_def)
next
  case (2 x w dy y h)
  then show ?thesis using heighten_again [OF 2(3)] by (simp add: layout_step_def)
qed

lemma layout_again: "layout ctx b ds = (ok, ds', b') \<Longrightarrow> layout ctx b ds' = (ok, ds', b')"
proof (induction ds arbitrary: b ds')
  case (Cons d ds)
  show ?case
  proof (cases "getRegion ctx (rd_regionId d)")
    case None
    then show ?thesis using Cons.prems by auto
  next
    case (Some r)
    obtain d1 b1 where st: "layout_step r d b = (d1, b1)" by fastforce
    obtain ds1 where rest: "layout ctx b1 ds = (ok, ds1, b')" "ds' = d1 # ds1"
      using Cons.prems Some st by (auto split: prod.splits)
    from st have "rd_regionId d1 = rd_regionId d" by (cases rule: layout_step_cases) auto
    then show ?thesis
      using layout_step_again [OF st] Some Cons.IH [OF rest(1)] rest(2) by simp
  qed
qed simp

text \<open>
  How far the first loop can move a display, and how large the box can become, when
  positions are below \<open>P\<close> and regions at most \<open>W\<close> by \<open>H\<close>. A display is only moved to
  just above the displays before it in the list, so the \<open>i\<close>-th one never gets above row
  \<open>- H * i\<close>, however often the page is laid out.
\<close>

definition row_within :: "int \<Rightarrow> int \<Rightarrow> int \<Rightarrow> DVBSubRegionDisplay \<Rightarrow> bool" where
  "row_within H P i d \<longleftrightarrow> 0 \<le> rd_xPos d \<and> rd_xPos d < P \<and> - (H * i) \<le> rd_yPos d \<and> rd_yPos d < P"

fun rows_within :: "int \<Rightarrow> int \<Rightarrow> int \<Rightarrow> DVBSubRegionDisplay list \<Rightarrow> bool" where
  "rows_within H P i [] = True"
| "rows_within H P i (d # ds) = (row_within H P i d \<and> rows_within H P (i + 1) ds)"

definition box_within :: "int \<Rightarrow> int \<Rightarrow> int \<Rightarrow> int \<Rightarrow> box \<Rightarrow> bool" where
  "box_within W H P n b \<longleftrightarrow> bx_x b = -1 \<or>
     (0 \<le> bx_x b \<and> bx_x b < P \<and> 0 \<le> bx_w b \<and> bx_x b + bx_w b \<le> P + W \<and>
      - (H * n) \<le> bx_y b \<and> bx_y b < P \<and> 0 \<le> bx_h b \<and> bx_y b + bx_h b \<le> P + H)"

definition dims_within :: "int \<Rightarrow> int \<Rightarrow> DVBSubRegion \<Rightarrow> bool" where
  "dims_within W H r \<longleftrightarrow> 0 \<le> reg_width r \<and> reg_width r \<le> W \<and> 0 \<le> reg_height r \<and> reg_height r \<le> H"

lemma widen_bounded:
  "0 \<le> rw \<Longrightarrow> rw \<le> W \<Longrightarrow> 0 \<le> dx \<Longrightarrow> dx < P \<Longrightarrow> 0 \<le> x \<Longrightarrow> x < P \<Longrightarrow> 0 \<le> w \<Longrightarrow> x + w \<le> P + W \<Longrightarrow>
     widen dx rw x w = (x', w') \<Longrightarrow> 0 \<le> x' \<and> x' < P \<and> 0 \<le> w' \<and> x' + w' \<le> P + W"
  unfolding widen_def Let_def by (auto split: if_splits)

lemma heighten_bounded:
  "0 \<le> rh \<Longrightarrow> rh \<le> H \<Longrightarrow> L \<le> dy \<Longrightarrow> dy < P \<Longrightarrow> L + H \<le> y \<Longrightarrow> y < P \<Longrightarrow> 0 \<le> h \<Longrightarrow> y + h \<le> P + H \<Longrightarrow>
     heighten dy rh y h = (dy', y', h') \<Longrightarrow>
     L \<le> dy' \<and> dy' < P \<and> L \<le> y' \<and> y' < P \<and> 0 \<le> h' \<and> y' + h' \<le> P + H"
  unfolding heighten_def Let_def by (auto split: if_splits)

lemma layout_step_bounded:
  assumes "dims_within W H r" "row_within H P n d" "box_within W H P (n - 1) b" "layout_step r d b = (d', b')"
  shows "box_within W H P n b' \<and> row_within H P n d'"
proof -
  have eq: "- (H * n) + H = - (H * (n - 1))" by (simp add: algebra_simps)
  note lims = assms(1) [unfolded dims_within_def] assms(2) [unfolded row_within_def]
  from assms(4) show ?thesis
  proof (cases rule: layout_step_cases)
    case 1
    then show ?thesis using lims by (auto simp: box_within_def row_within_def)
  next
    case (2 x w dy y h)
    have b: "0 \<le> bx_x b" "bx_x b < P" "0 \<le> bx_w b" "bx_x b + bx_w b \<le> P + W"
        "- (H * (n - 1)) \<le> bx_y b" "bx_y b < P" "0 \<le> bx_h b" "bx_y b + bx_h b \<le> P + H"
      using assms(3) 2(1) by (auto simp: box_within_def)
    have "0 \<le> x \<and> x < P \<and> 0 \<le> w \<and> x + w \<le> P + W"
      using widen_bounded [OF _ _ _ _ b(1-4) 2(2)] lims by simp
    moreover have "- (H * n) \<le> dy \<and> dy < P \<and> - (H * n) \<le> y \<and> y < P \<and> 0 \<le> h \<and> y + h \<le> P + H"
      using heighten_bounded [OF _ _ _ _ b(5) [folded eq] b(6-8) 2(3)] lims by simp
    ultimately show ?thesis using 2(4,5) lims by (simp add: box_within_def row_within_def)
  qed
qed

lemma rows_within_mono_box:
  "0 \<le> H \<Longrightarrow> m \<le> n \<Longrightarrow> box_within W H P m b \<Longrightarrow> box_within W H P n b"
  using mult_left_mono [of m n H] by (auto simp: box_within_def)

lemma layout_bounded:
  assumes "\<forall>r \<in> set (regionList ctx). dims_within W H r" "0 \<le> H" "rows_within H P n ds"
    "box_within W H P (n - 1) b" "layout ctx b ds = (ok, ds', b')"
  shows "box_within W H P (n - 1 + int (length ds)) b' \<and> rows_within H P n ds' \<and> length ds' = length ds"
  using assms(3-)
proof (induction ds arbitrary: b ds' n)
  case (Cons d ds)
  show ?case
  proof (cases "getRegion ctx (rd_regionId d)")
    case None
    then have "ds' = d # ds" "b' = b" using Cons.prems(3) by auto
    then show ?thesis
      using Cons.prems(1,2)
        rows_within_mono_box [OF assms(2), of "n - 1" "n - 1 + int (length (d # ds))" W P b] by simp
  next
    case (Some r)
    obtain d1 b1 where st: "layout_step r d b = (d1, b1)" by fastforce
    obtain ds1 where rest: "layout ctx b1 ds = (ok, ds1, b')" "ds' = d1 # ds1"
      using Cons.prems Some st by (auto split: prod.splits)
    have "dims_within W H r" using regions.get_SomeD [OF Some] assms(1) by blast
    then have step: "box_within W H P n b1 \<and> row_within H P n d1"
      using layout_step_bounded [OF _ _ Cons.prems(2) st] Cons.prems(1) by simp
    have "box_within W H P (n + 1 - 1 + int (length ds)) b' \<and> rows_within H P (n + 1) ds1 \<and> length ds1 = length ds"
      using Cons.prems(1) step by (intro Cons.IH [OF _ _ rest(1)]) auto
    then show ?thesis using step rest(2) by (simp add: algebra_simps)
  qed
qed simp

section \<open>Painting stays in the bitmap and paints the region\<close>

definition pixel_at :: "u8 list \<Rightarrow> int \<Rightarrow> u8 list" where
  "pixel_at data i = map (\<lambda>k. data ! nat (4 * i + k)) [0, 1, 2, 3]"

definition region_colour :: "DVBSubRegion \<Rightarrow> DVBSubCLUT \<Rightarrow> int \<Rightarrow> int \<Rightarrow> u32" where
  "region_colour region clut x y =
     clut_words clut ! nat (clut_table region + uint (reg_pbuf region ! nat (y * reg_width region + x)))"

text \<open>A bitmap of \<open>w\<close> by \<open>h\<close> pixels, small enough for \<open>int\<close> byte offsets.\<close>

definition image_ok :: "int \<Rightarrow> int \<Rightarrow> u32 list \<times> u8 list \<Rightarrow> bool" where
  "image_ok w h img \<longleftrightarrow> 0 \<le> w \<and> 0 \<le> h \<and> w * h * 4 < 2 ^ 31 \<and>
     int (length (fst img)) = w * h \<and> int (length (snd img)) = w * h * 4"

lemma cell_index:
  fixes w h x y :: int
  assumes "0 \<le> x" "x < w" "0 \<le> y" "y < h"
  shows "0 \<le> y * w + x" "y * w + x < w * h" "0 \<le> y * w" "y * w \<le> w * h"
proof -
  have "(y + 1) * w \<le> h * w" using assms by (intro mult_right_mono) auto
  with assms show "y * w + x < w * h" "y * w \<le> w * h" by (auto simp: algebra_simps)
  show "0 \<le> y * w" using assms by simp
  then show "0 \<le> y * w + x" using assms by simp
qed

lemma cell_inj:
  fixes w :: int
  assumes "0 \<le> x" "x < w" "0 \<le> x'" "x' < w" "y * w + x = y' * w + x'"
  shows "x = x' \<and> y = y'"
proof -
  have "(y * w + x) div w = y" "(y' * w + x') div w = y'"
    using assms(1-4) by (simp_all add: div_pos_pos_trivial)
  then have "y = y'" using assms(5) by metis
  with assms(5) show ?thesis by simp
qed

lemma u32_bytes: "ucast (v AND 0xff) = (ucast v :: u8)" for v :: u32
proof (rule bit_eqI)
  fix n assume "possible_bit TYPE(8 word) n"
  then have "n < 8" by simp
  moreover have "bit (0xff :: u32) n" using \<open>n < 8\<close>
    by (auto simp: less_Suc_eq numeral_eq_Suc)
  ultimately show "bit (ucast (v AND 0xff) :: u8) n = bit (ucast v :: u8) n" by (simp add: bit_simps)
qed

lemma store4_pixels:
  assumes "0 \<le> i" "4 * i + 3 < int (length data)"
  shows "\<exists>data'. do { d \<leftarrow> store data (4 * i) a; d \<leftarrow> store d (4 * i + 1) b;
       d \<leftarrow> store d (4 * i + 2) c; store d (4 * i + 3) e } = Some data' \<and> length data' = length data \<and>
     (\<forall>j \<ge> 0. 4 * j + 3 < int (length data) \<longrightarrow>
        pixel_at data' j = (if j = i then [a, b, c, e] else pixel_at data j))"
proof -
  let ?d = "data[nat (4 * i) := a, nat (4 * i + 1) := b, nat (4 * i + 2) := c, nat (4 * i + 3) := e]"
  have "do { d \<leftarrow> store data (4 * i) a; d \<leftarrow> store d (4 * i + 1) b;
       d \<leftarrow> store d (4 * i + 2) c; store d (4 * i + 3) e } = Some ?d"
    using assms by (simp add: store_returns)
  moreover have "pixel_at ?d j = (if j = i then [a, b, c, e] else pixel_at data j)"
    if "0 \<le> j" "4 * j + 3 < int (length data)" for j
    using assms that by (auto simp: pixel_at_def nth_list_update nat_eq_iff2)
  ultimately show ?thesis by (intro exI [of _ ?d]) auto
qed

lemma blit_pixel_yields:
  assumes "image_ok w h (pbuf, data)" "region_ok r" "length (clut_words cl) = CLUT_WORDS"
    "0 \<le> xo" "xo + reg_width r \<le> w" "0 \<le> yo" "yo + reg_height r \<le> h"
    "0 \<le> x" "x < reg_width r" "0 \<le> y" "y < reg_height r"
  shows "yields (\<lambda>(pbuf', data'). image_ok w h (pbuf', data') \<and>
      (\<forall>j. 0 \<le> j \<and> j < w * h \<longrightarrow> pixel_at data' j =
         (if j = (y + yo) * w + (xo + x) then colour_bytes (region_colour r cl x y) else pixel_at data j)))
    (blit_pixel r cl w xo yo y x (pbuf, data))"
proof -
  let ?i = "(y + yo) * w + (xo + x)"
  have i: "0 \<le> ?i" "?i < w * h"
    using cell_index [of "xo + x" w "y + yo" h] assms(4-11) by auto
  have "k * 4 + 3 < 2 ^ 31" if "k < w * h" for k
    using that assms(1) unfolding image_ok_def by linarith
  from this [OF i(2)] have small: "?i * 4 + 3 < 2 ^ 31" .
  have at: "wrap32 ((y + yo) * w + xo + x) = ?i" using i small by (simp add: add.assoc)
  have at4: "wrap32 ((y + yo) * w * 4 + (xo + x) * 4) = 4 * ?i" using i small by (simp add: algebra_simps)
  have ri: "0 \<le> y * reg_width r + x" "y * reg_width r + x < reg_width r * reg_height r"
    using cell_index [OF assms(8,9,10,11)] by auto
  then have src: "wrap32 (y * reg_width r + x) = y * reg_width r + x"
      "load (reg_pbuf r) (y * reg_width r + x) = Some (reg_pbuf r ! nat (y * reg_width r + x))"
    using assms(2) by (auto simp: region_ok_def load_returns)
  have ct: "load (clut_words cl) (clut_table r + uint (reg_pbuf r ! nat (y * reg_width r + x)))
      = Some (region_colour r cl x y)"
    using assms(3) uint_bounded [of "reg_pbuf r ! nat (y * reg_width r + x)"]
    by (auto simp: load_def region_colour_def clut_table_def CLUT_WORDS_def clut4_def clut16_def clut256_def)
  have st: "store pbuf ?i v = Some (pbuf[nat ?i := v])" for v
    using i assms(1) by (simp add: store_returns image_ok_def)
  have len: "4 * j + 3 < int (length data)" if "j < w * h" for j
    using that assms(1) by (simp add: image_ok_def)
  let ?v = "region_colour r cl x y"
  obtain data' where d: "do { d \<leftarrow> store data (4 * ?i) (ucast (?v AND 0xff));
       d \<leftarrow> store d (4 * ?i + 1) (ucast (drop_bit 8 ?v AND 0xff));
       d \<leftarrow> store d (4 * ?i + 2) (ucast (drop_bit 16 ?v AND 0xff));
       store d (4 * ?i + 3) (ucast (drop_bit 24 ?v AND 0xff)) } = Some data'" "length data' = length data"
    and px: "\<And>j. 0 \<le> j \<Longrightarrow> 4 * j + 3 < int (length data) \<Longrightarrow>
        pixel_at data' j = (if j = ?i then colour_bytes ?v else pixel_at data j)"
    using store4_pixels [OF i(1) len [OF i(2)]] unfolding colour_bytes_def u32_bytes by blast
  have "blit_pixel r cl w xo yo y x (pbuf, data) = Some (pbuf[nat ?i := ?v], data')"
    using d(1) st unfolding blit_pixel_def Let_def at at4
    by (simp add: src ct) (auto simp: bind_eq_Some_conv)
  then show ?thesis
    using d(2) px len assms(1) by (simp add: image_ok_def)
qed

text \<open>\<open>D\<close> says which pixels of the region are painted over the bitmap \<open>img0\<close>.\<close>

definition painted ::
  "DVBSubRegion \<Rightarrow> DVBSubCLUT \<Rightarrow> int \<Rightarrow> int \<Rightarrow> int \<Rightarrow> int \<Rightarrow> u32 list \<times> u8 list
     \<Rightarrow> (int \<Rightarrow> int \<Rightarrow> bool) \<Rightarrow> u32 list \<times> u8 list \<Rightarrow> bool" where
  "painted r cl w h xo yo img0 D img \<longleftrightarrow> image_ok w h img \<and>
     (\<forall>px py. 0 \<le> px \<longrightarrow> px < w \<longrightarrow> 0 \<le> py \<longrightarrow> py < h \<longrightarrow>
        pixel_at (snd img) (py * w + px) =
          (if D (px - xo) (py - yo) then colour_bytes (region_colour r cl (px - xo) (py - yo))
           else pixel_at (snd img0) (py * w + px)))"

definition blit_fits :: "DVBSubRegion \<Rightarrow> DVBSubCLUT \<Rightarrow> int \<Rightarrow> int \<Rightarrow> int \<Rightarrow> int \<Rightarrow> bool" where
  "blit_fits r cl w h xo yo \<longleftrightarrow> region_ok r \<and> length (clut_words cl) = CLUT_WORDS \<and>
     0 \<le> xo \<and> xo + reg_width r \<le> w \<and> 0 \<le> yo \<and> yo + reg_height r \<le> h"

lemma blit_pixel_painted:
  assumes "blit_fits r cl w h xo yo" "painted r cl w h xo yo img0 D img"
    "0 \<le> x" "x < reg_width r" "0 \<le> y" "y < reg_height r"
  shows "yields (painted r cl w h xo yo img0 (\<lambda>a b. D a b \<or> (a = x \<and> b = y)))
    (blit_pixel r cl w xo yo y x img)"
proof -
  obtain pbuf data where img: "img = (pbuf, data)" by fastforce
  have ok: "image_ok w h (pbuf, data)" using assms(2) img by (simp add: painted_def)
  have pos: "0 \<le> xo + x" "xo + x < w" using assms by (auto simp: blit_fits_def)
  have "yields (\<lambda>(pbuf', data'). image_ok w h (pbuf', data') \<and>
      (\<forall>j. 0 \<le> j \<and> j < w * h \<longrightarrow> pixel_at data' j =
         (if j = (y + yo) * w + (xo + x) then colour_bytes (region_colour r cl x y) else pixel_at data j)))
    (blit_pixel r cl w xo yo y x (pbuf, data))"
    using assms by (intro blit_pixel_yields [OF ok]) (auto simp: blit_fits_def)
  then show ?thesis
    unfolding img
  proof (rule yields_mono)
    fix img'
    assume "case img' of (pbuf', data') \<Rightarrow> image_ok w h (pbuf', data') \<and>
      (\<forall>j. 0 \<le> j \<and> j < w * h \<longrightarrow> pixel_at data' j =
         (if j = (y + yo) * w + (xo + x) then colour_bytes (region_colour r cl x y) else pixel_at data j))"
    then have ok': "image_ok w h img'"
      and px: "\<And>j. 0 \<le> j \<Longrightarrow> j < w * h \<Longrightarrow> pixel_at (snd img') j =
         (if j = (y + yo) * w + (xo + x) then colour_bytes (region_colour r cl x y) else pixel_at data j)"
      by auto
    show "painted r cl w h xo yo img0 (\<lambda>a b. D a b \<or> (a = x \<and> b = y)) img'"
      unfolding painted_def
    proof (intro conjI allI impI)
      fix px py assume p: "0 \<le> px" "px < w" "0 \<le> py" "py < h"
      have "(py * w + px = (y + yo) * w + (xo + x)) = (px - xo = x \<and> py - yo = y)"
        using cell_inj [OF p(1,2) pos, of py "y + yo"] by auto
      then show "pixel_at (snd img') (py * w + px) =
          (if D (px - xo) (py - yo) \<or> (px - xo = x \<and> py - yo = y)
           then colour_bytes (region_colour r cl (px - xo) (py - yo))
           else pixel_at (snd img0) (py * w + px))"
        using px [OF cell_index(1,2) [OF p]] assms(2) p img by (auto simp: painted_def)
    qed (rule ok')
  qed
qed

lemma painted_cong:
  "painted r cl w h xo yo img0 D img \<Longrightarrow> (\<And>a b. D a b = E a b) \<Longrightarrow> painted r cl w h xo yo img0 E img"
  by (simp add: painted_def)

lemma blit_region_painted:
  assumes fits: "blit_fits r cl w h xo yo" and ok: "image_ok w h img"
  shows "yields (painted r cl w h xo yo img
      (\<lambda>a b. 0 \<le> a \<and> a < reg_width r \<and> 0 \<le> b \<and> b < reg_height r)) (blit_region r cl w xo yo img)"
proof -
  let ?D = "\<lambda>y x a b. 0 \<le> a \<and> a < reg_width r \<and> 0 \<le> b \<and> (b < y \<or> (b = y \<and> a < x))"
  let ?P = "\<lambda>y x. painted r cl w h xo yo img (?D y x)"
  have wh: "0 \<le> reg_width r" "0 \<le> reg_height r" using fits by (auto simp: blit_fits_def region_ok_def)
  have row: "yields (?P y (reg_width r)) (each (blit_pixel r cl w xo yo y) [0..reg_width r - 1] s)"
    if "0 \<le> y" "y < reg_height r" "?P y 0 s" for y s
  proof (rule each_upto_yields [where P = "?P y"])
    fix x t assume x: "0 \<le> x" "x < reg_width r" "?P y x t"
    have "yields (painted r cl w h xo yo img (\<lambda>a b. ?D y x a b \<or> (a = x \<and> b = y))) (blit_pixel r cl w xo yo y x t)"
      by (rule blit_pixel_painted [OF fits x(3,1,2) that(1,2)])
    then show "yields (?P y (x + 1)) (blit_pixel r cl w xo yo y x t)"
      by (rule yields_mono) (erule painted_cong, use x that(1) in auto)
  qed (use that wh in auto)
  have "yields (?P (reg_height r) 0) (blit_region r cl w xo yo img)"
    unfolding blit_region_def
  proof (rule each_upto_yields [where P = "\<lambda>y. ?P y 0"])
    show "?P 0 0 img" using ok by (auto simp: painted_def)
  next
    fix y s assume y: "0 \<le> y" "y < reg_height r" "?P y 0 s"
    from row [OF this] show "yields (?P (y + 1) 0) (each (blit_pixel r cl w xo yo y) [0..reg_width r - 1] s)"
      by (rule yields_mono) (erule painted_cong, auto)
  qed (use wh in simp)
  then show ?thesis
    by (rule yields_mono) (erule painted_cong, auto)
qed

lemma blit_displays_yields:
  assumes "\<forall>r \<in> set (regionList ctx). region_ok r"
    "\<forall>c \<in> set (clutList ctx). length (clut_words c) = CLUT_WORDS"
    "covered ctx b ds" "image_ok (bx_w b) (bx_h b) img"
  shows "yields (image_ok (bx_w b) (bx_h b)) (blit_displays ctx b ds img)"
  using assms(3,4)
proof (induction ds arbitrary: img)
  case (Cons d ds)
  have rest: "covered ctx b ds" using Cons.prems(1) by (simp add: covered_def)
  show ?case
  proof (cases "getRegion ctx (rd_regionId d)")
    case None
    then show ?thesis using Cons.prems(2) by simp
  next
    case (Some r)
    show ?thesis
    proof (cases "getClut ctx (reg_clut r)")
      case None
      then show ?thesis using Cons.prems(2) Some by simp
    next
      case clut: (Some cl)
      have "covers b r d" using Cons.prems(1) Some by (simp add: covered_def)
      then have "blit_fits r cl (bx_w b) (bx_h b) (rd_xPos d - bx_x b) (rd_yPos d - bx_y b)"
        using regions.get_SomeD [OF Some] cluts.get_SomeD [OF clut] assms(1,2)
        by (auto simp: blit_fits_def covers_def)
      from blit_region_painted [OF this Cons.prems(2)]
      obtain img1 where "blit_region r cl (bx_w b) (rd_xPos d - bx_x b) (rd_yPos d - bx_y b) img = Some img1"
          "image_ok (bx_w b) (bx_h b) img1" by (auto simp: painted_def elim: yieldsE)
      then show ?thesis using Some clut Cons.IH [OF rest] Cons.prems(2) by (simp add: Let_def)
    qed
  qed
qed simp

lemma small_bytes:
  assumes "0 \<le> n" "n * 4 < 2 ^ 31"
  shows "wrap32 (n * 4) = n * 4" "size_of (n * 4) = n * 4" "u32_of (n * 4) = n * 4" "nat (n * 4) div 4 = nat n"
  using assms by (simp_all add: nat_mult_distrib)

lemma image_ok_blank:
  assumes "0 \<le> w" "0 \<le> h" "w * h * 4 < 2 ^ 31"
  shows "image_ok w h (replicate (nat (size_of (wrap32 (w * h * 4))) div 4) 0,
    replicate (nat (u32_of (wrap32 (w * h * 4)))) 0)"
proof -
  have nn: "0 \<le> w * h" using assms by simp
  show ?thesis using assms nn unfolding small_bytes [OF nn assms(3)] image_ok_def by simp
qed

text \<open>What a page must satisfy to be rendered: its bitmap fits an \<open>int\<close>.\<close>

definition page_fits :: "DVBSubContext \<Rightarrow> bool" where
  "page_fits ctx \<longleftrightarrow> (\<forall>d \<in> set (displayList ctx). 0 \<le> rd_xPos d) \<and>
     (case layout ctx no_box (displayList ctx) of
        (ok, ds, b) \<Rightarrow> bx_w b * bx_h b * 4 < 2 ^ 31 \<and> 0 \<le> bx_w b \<and> bx_w b < 65536 \<and> 0 \<le> bx_h b \<and> bx_h b < 65536)"

text \<open>A unit whose bitmap has the size it announces.\<close>

definition spu_bitmap_ok :: "AML_SPUVAR \<Rightarrow> bool" where
  "spu_bitmap_ok spu \<longleftrightarrow>
     (case spu_data spu of
        None \<Rightarrow> True
      | Some data \<Rightarrow> int (length data) = buffer_size spu \<and>
          buffer_size spu = spu_width spu * spu_height spu * 4)"

definition laid_out :: "DVBSubContext \<Rightarrow> DVBSubContext" where
  "laid_out ctx = ctx\<lparr>displayList := fst (snd (layout ctx no_box (displayList ctx)))\<rparr>"

lemma saveResult2Spu_yields:
  assumes "context_ok ctx" "page_fits ctx"
  shows "yields (\<lambda>(spu', ctx'). ctx' = laid_out ctx \<and> pts spu' = pts spu \<and> m_delay spu' = m_delay spu \<and>
      (spu_bitmap_ok spu \<and> (\<forall>n. A (DisplayBuffer n)) \<longrightarrow> spu_bitmap_ok spu'))
    (saveResult2Spu A spu ctx)"
proof -
  obtain ok ds b where lay: "layout ctx no_box (displayList ctx) = (ok, ds, b)" by (metis prod_cases3)
  let ?c = "ctx\<lparr>displayList := ds\<rparr>" and ?n = "wrap32 (bx_w b * bx_h b * 4)"
  have out: "laid_out ctx = ?c" by (simp add: laid_out_def lay)
  note cok = context_okD [OF assms(1)]
  show ?thesis
  proof (cases "ok \<and> 0 \<le> bx_x b")
    case False
    then show ?thesis unfolding saveResult2Spu_def lay out by (auto simp: Let_def)
  next
    case True
    have fit: "bx_w b * bx_h b * 4 < 2 ^ 31" "0 \<le> bx_w b" "bx_w b < 65536" "0 \<le> bx_h b" "bx_h b < 65536"
      using assms(2) lay by (auto simp: page_fits_def)
    have "\<forall>d \<in> set (displayList ctx). 0 \<le> rd_xPos d" using assms(2) by (auto simp: page_fits_def)
    then have "covered ctx b ds"
      using layout_covers [of ctx "displayList ctx" no_box ds b] cok(4) lay True by (auto simp: no_box_def)
    then have cov: "covered ?c b ds" by (simp add: covered_def getRegion_def)
    obtain p data where img: "blit_displays ?c b ds
        (replicate (nat (size_of ?n) div 4) 0, replicate (nat (u32_of ?n)) 0) = Some (p, data)"
        "image_ok (bx_w b) (bx_h b) (p, data)"
      using blit_displays_yields [OF _ _ cov image_ok_blank [OF fit(2,4,1)]] cok(4,6)
      by (auto elim: yieldsE)
    have "0 \<le> bx_w b * bx_h b" using fit by simp
    note sz = small_bytes [OF this fit(1)]
    have "int (length data) = u32_of ?n" "u32_of ?n = u16_of (bx_w b) * u16_of (bx_h b) * 4"
      using img(2) sz fit by (auto simp: image_ok_def)
    then show ?thesis
      using True img(1) unfolding saveResult2Spu_def lay out Let_def
      by (auto simp: Let_def spu_bitmap_ok_def split: option.splits)
  qed
qed

lemma context_ok_laid_out: "context_ok ctx \<Longrightarrow> context_ok (laid_out ctx)"
  by (erule context_ok_cong) (simp_all add: laid_out_def)

section \<open>Pages of bounded size\<close>

text \<open>
  Regions of at most 2047 by 2047 at positions below 4096, at most 16 of them: far
  beyond any screen, and enough for \<open>page_fits\<close>, also after the displays have been moved.
\<close>

definition screen_ok :: "DVBSubContext \<Rightarrow> bool" where
  "screen_ok ctx \<longleftrightarrow> (\<forall>r \<in> set (regionList ctx). dims_within 2047 2047 r) \<and>
     length (displayList ctx) \<le> 16 \<and> rows_within 2047 4096 0 (displayList ctx)"

lemma rows_within_xPos: "rows_within H P i ds \<Longrightarrow> d \<in> set ds \<Longrightarrow> 0 \<le> rd_xPos d"
  by (induction ds arbitrary: i) (auto simp: row_within_def)

lemma screen_ok_layout:
  assumes "screen_ok ctx"
  shows "page_fits ctx \<and> screen_ok (laid_out ctx)"
proof -
  obtain ok ds b where lay: "layout ctx no_box (displayList ctx) = (ok, ds, b)" by (metis prod_cases3)
  have "box_within 2047 2047 4096 (0 - 1 + int (length (displayList ctx))) b \<and>
      rows_within 2047 4096 0 ds \<and> length ds = length (displayList ctx)"
    using assms by (intro layout_bounded [OF _ _ _ _ lay]) (auto simp: screen_ok_def box_within_def no_box_def)
  moreover have "int (length (displayList ctx)) \<le> 16" using assms by (simp add: screen_ok_def)
  ultimately have b: "bx_x b = -1 \<or> (0 \<le> bx_w b \<and> bx_w b \<le> 6143 \<and> 0 \<le> bx_h b \<and> bx_h b \<le> 38895)"
    and ds: "rows_within 2047 4096 0 ds" "length ds \<le> 16"
    by (auto simp: box_within_def algebra_simps)
  have none: "b = no_box \<or> bx_x b \<noteq> -1"
    if "layout ctx c xs = (ok, ds, b)" "c = no_box \<or> 0 \<le> bx_x c" "\<forall>d \<in> set xs. 0 \<le> rd_xPos d" for c xs ds
    using that
  proof (induction xs arbitrary: c ds)
    case (Cons x xs)
    show ?case
    proof (cases "getRegion ctx (rd_regionId x)")
      case (Some r)
      obtain x1 b1 where st: "layout_step r x c = (x1, b1)" by fastforce
      have "0 \<le> bx_x b1" using st
      proof (cases rule: layout_step_cases)
        case (2 x' w dy y h)
        then show ?thesis using Cons.prems(2,3) unfolding widen_def
          by (auto simp: no_box_def Let_def split: if_splits)
      qed (use Cons.prems in simp)
      then show ?thesis using Cons.IH [of b1] Cons.prems(1,3) Some st by (auto split: prod.splits)
    qed (use Cons.prems in auto)
  qed auto
  have xs: "\<forall>d \<in> set (displayList ctx). 0 \<le> rd_xPos d"
    using assms rows_within_xPos by (auto simp: screen_ok_def)
  have "0 \<le> bx_w b \<and> bx_w b \<le> 6143 \<and> 0 \<le> bx_h b \<and> bx_h b \<le> 38895"
    using none [OF lay _ xs] b by (auto simp: no_box_def)
  moreover from this have "bx_w b * bx_h b \<le> 6143 * 38895" by (intro mult_mono) auto
  ultimately show ?thesis
    using xs ds assms lay by (auto simp: page_fits_def screen_ok_def laid_out_def mult.commute)
qed

end
