(* ===== verification/Dvb_Decode.thy ===== *)
theory Dvb_Decode
  imports Dvb_Render Data_Source
begin

text \<open>
  The top of \<open>DvbParser.cpp\<close>: \<open>decodeSubtitle\<close>, the two demultiplexing entry points
  and \<open>getSpu\<close>.

  \<open>abs\<close> on the PTS difference is the 64-bit overload.
\<close>

section \<open>Packets of segments\<close>

definition DVBSUB_PAGE_SEGMENT :: int where "DVBSUB_PAGE_SEGMENT = 0x10"
definition DVBSUB_REGION_SEGMENT :: int where "DVBSUB_REGION_SEGMENT = 0x11"
definition DVBSUB_CLUT_SEGMENT :: int where "DVBSUB_CLUT_SEGMENT = 0x12"
definition DVBSUB_OBJECT_SEGMENT :: int where "DVBSUB_OBJECT_SEGMENT = 0x13"
definition DVBSUB_DISPLAYDEFINITION_SEGMENT :: int where "DVBSUB_DISPLAYDEFINITION_SEGMENT = 0x14"
definition DVBSUB_DISPLAY_SEGMENT :: int where "DVBSUB_DISPLAY_SEGMENT = 0x80"
definition DVBSUB_ST_STUFFING :: int where "DVBSUB_ST_STUFFING = 0xff"

lemmas segment_types = DVBSUB_PAGE_SEGMENT_def DVBSUB_REGION_SEGMENT_def DVBSUB_CLUT_SEGMENT_def
  DVBSUB_OBJECT_SEGMENT_def DVBSUB_DISPLAYDEFINITION_SEGMENT_def DVBSUB_DISPLAY_SEGMENT_def
  DVBSUB_ST_STUFFING_def

definition more_segments :: "mem \<Rightarrow> nat \<Rightarrow> nat \<Rightarrow> bool" where
  "more_segments m p pEnd \<longleftrightarrow> int pEnd - int p \<ge> 6 \<and> byte_at m p = 0x0f"

text \<open>The first pass: is every segment complete?\<close>

function scan_segments :: "mem \<Rightarrow> nat \<Rightarrow> nat \<Rightarrow> bool" where
  "scan_segments m p pEnd =
     (if more_segments m p pEnd then
        let segmentLength = AV_RB16 m (p + 4) in
        if int pEnd - int (p + 6) < segmentLength then False
        else scan_segments m (p + 6 + nat segmentLength) pEnd
      else True)"
  by pat_completeness auto
termination
  by (relation "measure (\<lambda>(m, p, pEnd). pEnd - p)") (auto simp: more_segments_def)

declare scan_segments.simps [simp del]

definition page_selected :: "DVBSubContext \<Rightarrow> int \<Rightarrow> bool" where
  "page_selected ctx pageId \<longleftrightarrow> pageId = compositionId ctx \<or> pageId = ancillaryId ctx
     \<or> compositionId ctx = -1 \<or> ancillaryId ctx = -1"

definition end_of_set ::
  "env \<Rightarrow> AML_SPUVAR \<Rightarrow> DvbParser \<Rightarrow> (bool \<times> AML_SPUVAR \<times> DvbParser) option" where
  "end_of_set E spu dvb = do {
     (spu, ctx) \<leftarrow> displayEndSegment (malloc_ok E) spu (mContext dvb);
     Some (True, spu, dvb\<lparr>mContext := ctx\<rparr>) }"

text \<open>The \<open>switch\<close> of the second pass; the flag is \<open>False\<close> when the packet is given up.\<close>

definition decode_segment ::
  "env \<Rightarrow> mem \<Rightarrow> int \<Rightarrow> nat \<Rightarrow> nat \<Rightarrow> AML_SPUVAR \<Rightarrow> DvbParser
     \<Rightarrow> (bool \<times> AML_SPUVAR \<times> DvbParser) option" where
  "decode_segment E m segmentType p n spu dvb =
     (if segmentType = DVBSUB_PAGE_SEGMENT then do {
        ctx \<leftarrow> parsePageSegment (malloc_ok E) m p n (mContext dvb);
        end_of_set E spu (dvb\<lparr>mContext := ctx\<rparr>) }
      else if segmentType = DVBSUB_REGION_SEGMENT then do {
        ctx \<leftarrow> parseRegionSegment (malloc_ok E) m p n (mContext dvb);
        Some (True, spu, dvb\<lparr>mContext := ctx\<rparr>) }
      else if segmentType = DVBSUB_CLUT_SEGMENT then do {
        dvb \<leftarrow> parseClutSegment (malloc_ok E) m p n dvb;
        Some (True, spu, dvb) }
      else if segmentType = DVBSUB_OBJECT_SEGMENT then do {
        (ret, dvb) \<leftarrow> parseObjectSegment m p n dvb;
        Some (ret \<noteq> -1, spu, dvb) }
      else if segmentType = DVBSUB_DISPLAYDEFINITION_SEGMENT then
        Some (True, spu, dvb\<lparr>mContext :=
          parseDisplayDefinitionSegment (malloc_ok E) m p n (mContext dvb)\<rparr>)
      else if segmentType = DVBSUB_DISPLAY_SEGMENT \<or> segmentType = DVBSUB_ST_STUFFING then
        end_of_set E spu dvb
      else Some (True, spu, dvb))"

function decode_segments ::
  "env \<Rightarrow> mem \<Rightarrow> nat \<Rightarrow> nat \<Rightarrow> AML_SPUVAR \<Rightarrow> DvbParser
     \<Rightarrow> (int \<times> AML_SPUVAR \<times> DvbParser) option" where
  "decode_segments E m p pEnd spu dvb =
     (if more_segments m p pEnd then
        if mState dvb = SUB_STOP then Some (-1, spu, dvb)
        else
          let segmentType = byte_at m (p + 1); pageId = AV_RB16 m (p + 2);
              segmentLength = AV_RB16 m (p + 4)
          in if int pEnd - int (p + 6) < segmentLength then Some (-1, spu, dvb)
             else do {
               (go, spu, dvb) \<leftarrow>
                 (if page_selected (mContext dvb) pageId
                  then decode_segment E m segmentType (p + 6) (nat segmentLength) spu dvb
                  else Some (True, spu, dvb));
               (if go then decode_segments E m (p + 6 + nat segmentLength) pEnd spu dvb
                else Some (-1, spu, dvb)) }
      else Some (int p, spu, dvb))"
  by pat_completeness auto
termination
  by (relation "measure (\<lambda>(E, m, p, pEnd, spu, dvb). pEnd - p)") (auto simp: more_segments_def)

declare decode_segments.simps [simp del]

definition decodeSubtitle ::
  "env \<Rightarrow> AML_SPUVAR \<Rightarrow> u8 list \<Rightarrow> DvbParser \<Rightarrow> (int \<times> AML_SPUVAR \<times> DvbParser) option" where
  "decodeSubtitle E spu data dvb =
     (let m = packet_mem E data; n = length data;
          spu = spu\<lparr>spu_width := 0, spu_height := 0, spu_start_x := 0, spu_start_y := 0,
            spu_origin_display_w := 720, spu_origin_display_h := 576\<rparr>
      in if n \<le> 6 \<or> byte_at m 0 \<noteq> 0x0f then Some (-1, spu, dvb)
         else if mState dvb = SUB_STOP then Some (-1, spu, dvb)
         else if \<not> scan_segments m 0 n
         then Some (-1, spu, notifySubtitleErrorInfo ERROR_DECODER_LOSEDATA dvb)
         else decode_segments E m 0 n spu dvb)"

section \<open>Publishing a unit\<close>

definition isMore32Bit :: "int \<Rightarrow> bool" where
  "isMore32Bit p \<longleftrightarrow> drop_bit 32 p AND 0xffffffff > 0"

definition TSYNC_32_BIT_PTS :: int where "TSYNC_32_BIT_PTS = 0xffffffff"

text \<open>A decoded unit is handed on and the notification thread is woken.\<close>

definition publish :: "AML_SPUVAR \<Rightarrow> DvbParser \<Rightarrow> DvbParser" where
  "publish spu dvb =
     (notifySubtitleDimension (spu_origin_display_w spu) (spu_origin_display_h spu)
        (addDecodedItem spu dvb))\<lparr>mPendingAction := 1\<rparr>"

section \<open>PES packets of the hardware demultiplexer\<close>

record pes_header =
  pes_packetLen :: int
  pes_pts :: int
  pes_needSkip :: bool

text \<open>
  The header after the start code: the remaining length, the PTS (0 when it was not
  read) and whether the packet is skipped.
\<close>

definition read_pes_header ::
  "(u8 \<Rightarrow> int) \<Rightarrow> 's reader \<Rightarrow> int \<Rightarrow> u8 list \<Rightarrow> 's \<Rightarrow> (pes_header \<times> u8 list \<times> 's) option" where
  "read_pes_header cv rd packetLen tmpbuf s =
     (if packetLen \<ge> 3 then do {
        (n, tmpbuf, s) \<leftarrow> read_into rd 3 tmpbuf s;
        (if n \<noteq> 3 then Some (\<lparr>pes_packetLen = packetLen, pes_pts = 0, pes_needSkip = False\<rparr>, tmpbuf, s)
         else
           let packetLen = packetLen - 3; pesHeaderLen = cv (tmpbuf ! 2); flags = cv (tmpbuf ! 1) AND 0xc0 in
           if packetLen \<ge> pesHeaderLen \<and> (flags = 0x80 \<or> flags = 0xc0) then do {
             (n, tmpbuf, s) \<leftarrow> read_into rd pesHeaderLen tmpbuf s;
             Some (if n = pesHeaderLen
               then \<lparr>pes_packetLen = packetLen - pesHeaderLen, pes_pts = pes_timestamp cv tmpbuf 0,
                     pes_needSkip = False\<rparr>
               else \<lparr>pes_packetLen = packetLen, pes_pts = 0, pes_needSkip = False\<rparr>, tmpbuf, s) }
           else Some (\<lparr>pes_packetLen = packetLen, pes_pts = 0, pes_needSkip = True\<rparr>, tmpbuf, s)) }
      else Some (\<lparr>pes_packetLen = packetLen, pes_pts = 0, pes_needSkip = True\<rparr>, tmpbuf, s))"

definition unit_pts :: "int \<Rightarrow> int \<Rightarrow> int" where
  "unit_pts syncTime p = (if isMore32Bit p \<and> \<not> isMore32Bit syncTime then p AND TSYNC_32_BIT_PTS else p)"

definition hw_payload ::
  "env \<Rightarrow> 's reader \<Rightarrow> ('s \<Rightarrow> int) \<Rightarrow> int \<Rightarrow> int \<Rightarrow> u8 list \<Rightarrow> DvbParser \<Rightarrow> 's
     \<Rightarrow> (int \<times> DvbParser \<times> 's) option" where
  "hw_payload E rd getSyncTime packetLen pts0 tmpbuf dvb s =
     (if packetLen > 1920 * 1280 div 8 * 4 then Some (-1, dvb, s)
      else
        let spu = new_spu\<lparr>sync_bytes := AML_PARSER_SYNC_WORD, subtitle_type := TYPE_SUBTITLE_DVB,
              pts := unit_pts (getSyncTime s) pts0\<rparr>;
            dvb = (if \<bar>getSyncTime s - pts spu\<bar> > 9 * 90000
                   then notifySubtitleErrorInfo ERROR_DECODER_TIMEERROR dvb else dvb)
        in do {
          (_, tmpbuf, s) \<leftarrow> read_into rd 2 tmpbuf s;
          let packetLen = packetLen - 2;
          (if packetLen < 0 \<or> \<not> malloc_ok E (PacketBuffer packetLen) then Some (0, dvb, s)
           else do {
             (n, buf, s) \<leftarrow> read_into rd packetLen (replicate (nat packetLen) 0) s;
             (if n \<noteq> packetLen then Some (1, dvb, s)
              else do {
                (ret, spu, dvb) \<leftarrow> decodeSubtitle E spu buf dvb;
                Some (if ret \<noteq> -1 then (ret, publish spu dvb, s) else (-1, dvb, s)) }) }) })"

definition hwDemuxParse ::
  "env \<Rightarrow> 's reader \<Rightarrow> ('s \<Rightarrow> int) \<Rightarrow> DvbParser \<Rightarrow> 's \<Rightarrow> (int \<times> DvbParser \<times> 's) option" where
  "hwDemuxParse E rd getSyncTime dvb s = do {
     (n, tmpbuf, s) \<leftarrow> read_into rd 2 (replicate 256 0) s;
     (if n \<noteq> 2 then Some (0, notifySubtitleErrorInfo ERROR_DECODER_TIMEERROR dvb, s)
      else
        let packetLen = push_bit 8 (cval E (tmpbuf ! 0)) OR cval E (tmpbuf ! 1) in do {
          (hd, tmpbuf, s) \<leftarrow> read_pes_header (cval E) rd packetLen tmpbuf s;
          (if pes_needSkip hd then
             (if pes_packetLen hd < 0 then Some (0, dvb, s)
              else do { s \<leftarrow> skip_bytes rd (nat (pes_packetLen hd)) s; Some (0, dvb, s) })
           else if pes_pts hd \<noteq> 0 \<and> pes_packetLen hd > 0
           then hw_payload E rd getSyncTime (pes_packetLen hd) (pes_pts hd) tmpbuf dvb s
           else Some (0, dvb, s)) }) }"

section \<open>Units of the software demultiplexer\<close>

definition softDemuxParse ::
  "env \<Rightarrow> 's reader \<Rightarrow> DvbParser \<Rightarrow> 's \<Rightarrow> (int \<times> DvbParser \<times> 's) option" where
  "softDemuxParse E rd dvb s = do {
     (n, tmpbuf, s) \<leftarrow> read_into rd 19 (replicate 256 0) s;
     (if n \<noteq> 19 then Some (0, dvb, s)
      else
        let dataLen = subPeekAsInt32 (cval E) (drop 3 tmpbuf);
            spu = new_spu\<lparr>sync_bytes := AML_PARSER_SYNC_WORD, subtitle_type := TYPE_SUBTITLE_DVB,
              pts := subPeekAsInt64 (cval E) (drop 7 tmpbuf)\<rparr>
        in if dataLen < 0 \<or> \<not> malloc_ok E (PacketBuffer dataLen) then Some (-1, dvb, s)
           else do {
             (_, buf, s) \<leftarrow> read_into rd dataLen (replicate (nat dataLen) 0) s;
             (ret, spu, dvb) \<leftarrow> decodeSubtitle E spu buf dvb;
             Some (ret, if ret \<noteq> -1 \<and> buffer_size spu > 0 then publish spu dvb else dvb, s) }) }"

definition getDvbSpu ::
  "env \<Rightarrow> 's reader \<Rightarrow> ('s \<Rightarrow> int) \<Rightarrow> DvbParser \<Rightarrow> 's \<Rightarrow> (int \<times> DvbParser \<times> 's) option" where
  "getDvbSpu E rd getSyncTime dvb s = do {
     (sync, s) \<leftarrow> find_sync (cval E) rd (mState dvb = SUB_STOP) 0 s;
     (case sync of
        NoSync \<Rightarrow> Some (0, dvb, s)
      | HwSync \<Rightarrow> hwDemuxParse E rd getSyncTime dvb s
      | SoftSync \<Rightarrow> softDemuxParse E rd dvb s) }"

definition getSpu_dvb ::
  "env \<Rightarrow> 's reader \<Rightarrow> ('s \<Rightarrow> int) \<Rightarrow> DvbParser \<Rightarrow> 's \<Rightarrow> (int \<times> DvbParser \<times> 's) option" where
  "getSpu_dvb E rd getSyncTime dvb s =
     (if mState dvb = SUB_INIT then getDvbSpu E rd getSyncTime (dvb\<lparr>mState := SUB_PLAYING\<rparr>) s
      else if mState dvb = SUB_STOP then Some (0, dvb, s)
      else getDvbSpu E rd getSyncTime dvb s)"

section \<open>The notification thread\<close>

text \<open>
  One wake-up of \<open>callbackProcess\<close>, by a notification or by the timeout. The thread
  remembers which signal it sent last: \<open>-1\<close> unspecified, 0 none, 1 there is a subtitle.
\<close>

definition callback_round :: "int \<Rightarrow> DvbParser \<Rightarrow> int \<times> DvbParser" where
  "callback_round signal dvb =
     (if mPendingAction dvb = 1 then
        (1, (if signal \<noteq> 1 then notify (onSubtitleAvailable 1) dvb else dvb)\<lparr>mPendingAction := -1\<rparr>)
      else if signal \<noteq> 0 then (0, notify (onSubtitleAvailable 0) dvb)
      else (signal, dvb))"

section \<open>Decoding never faults\<close>

text \<open>
  A sane packet: its regions are at most 2047 by 2047, its pages place at most 16
  regions, below 4096. Nothing else is asked of it: lengths, types, object and CLUT data
  are arbitrary.
\<close>

definition region_sane :: "mem \<Rightarrow> nat \<Rightarrow> bool" where
  "region_sane m p \<longleftrightarrow> AV_RB16 m (p + 2) \<le> 2047 \<and> AV_RB16 m (p + 4) \<le> 2047"

definition page_sane :: "mem \<Rightarrow> nat \<Rightarrow> nat \<Rightarrow> bool" where
  "page_sane m p n \<longleftrightarrow> n \<le> 98 \<and>
     (\<forall>k \<in> set [0..<16]. 6 * k + 7 < n \<longrightarrow>
        AV_RB16 m (p + 4 + 6 * k) < 4096 \<and> AV_RB16 m (p + 6 + 6 * k) < 4096)"

definition segment_sane :: "mem \<Rightarrow> int \<Rightarrow> nat \<Rightarrow> nat \<Rightarrow> bool" where
  "segment_sane m segmentType p n \<longleftrightarrow>
     (segmentType = DVBSUB_REGION_SEGMENT \<longrightarrow> region_sane m p) \<and>
     (segmentType = DVBSUB_PAGE_SEGMENT \<longrightarrow> page_sane m p n)"

function packet_sane :: "mem \<Rightarrow> nat \<Rightarrow> nat \<Rightarrow> bool" where
  "packet_sane m p pEnd =
     (if more_segments m p pEnd \<and> \<not> int pEnd - int (p + 6) < AV_RB16 m (p + 4) then
        segment_sane m (byte_at m (p + 1)) (p + 6) (nat (AV_RB16 m (p + 4)))
        \<and> packet_sane m (p + 6 + nat (AV_RB16 m (p + 4))) pEnd
      else True)"
  by pat_completeness auto
termination
  by (relation "measure (\<lambda>(m, p, pEnd). pEnd - p)") (auto simp: more_segments_def)

declare packet_sane.simps [simp del]

definition dvb_ok :: "DvbParser \<Rightarrow> bool" where
  "dvb_ok dvb \<longleftrightarrow> context_ok (mContext dvb) \<and> screen_ok (mContext dvb)"

lemma dvb_ok_context [simp]: "dvb_ok (dvb\<lparr>mContext := c\<rparr>) \<longleftrightarrow> context_ok c \<and> screen_ok c"
  by (simp add: dvb_ok_def)

lemma context_ok_init: "context_ok init_context"
  using linked_new_context
  by (simp add: context_ok_def init_context_def linked_def object_links_def region_links_def
      displays_ok_def new_context_def)

lemma screen_ok_init: "screen_ok init_context"
  by (simp add: screen_ok_def init_context_def new_context_def)

lemma screen_ok_cong:
  "screen_ok ctx \<Longrightarrow> map (\<lambda>r. (reg_width r, reg_height r)) (regionList c)
      = map (\<lambda>r. (reg_width r, reg_height r)) (regionList ctx) \<Longrightarrow>
     displayList c = displayList ctx \<Longrightarrow> screen_ok c"
proof -
  assume a: "screen_ok ctx" "map (\<lambda>r. (reg_width r, reg_height r)) (regionList c)
      = map (\<lambda>r. (reg_width r, reg_height r)) (regionList ctx)" "displayList c = displayList ctx"
  have "dims_within 2047 2047 r" if "r \<in> set (regionList c)" for r
  proof -
    have "(reg_width r, reg_height r) \<in> set (map (\<lambda>r. (reg_width r, reg_height r)) (regionList ctx))"
      using that unfolding a(2) [symmetric] by auto
    then show ?thesis using a(1) by (auto simp: screen_ok_def dims_within_def)
  qed
  with a show ?thesis by (simp add: screen_ok_def)
qed

lemma screen_ok_repainted: "repainted ctx c \<Longrightarrow> screen_ok ctx \<Longrightarrow> screen_ok c"
  by (rule screen_ok_cong) (auto simp: repainted_fields intro: repainted_map)

lemma rows_within_page:
  "\<forall>d \<in> set ds. 0 \<le> rd_xPos d \<and> rd_xPos d < P \<and> 0 \<le> rd_yPos d \<and> rd_yPos d < P \<Longrightarrow> 0 \<le> H \<Longrightarrow> 0 \<le> i \<Longrightarrow>
     rows_within H P i ds"
  by (induction ds arbitrary: i) (auto simp: row_within_def intro: order_trans [of _ 0])

text \<open>The list of a page: one display for each complete entry.\<close>

lemma page_regions_sane:
  assumes "\<forall>j. buf + 6 * j + 5 < e \<longrightarrow> AV_RB16 m (buf + 6 * j + 2) < P \<and> AV_RB16 m (buf + 6 * j + 4) < P"
    "\<forall>d \<in> set (displayList ctx). 0 \<le> rd_xPos d \<and> rd_xPos d < P \<and> 0 \<le> rd_yPos d \<and> rd_yPos d < P"
  shows "(\<forall>d \<in> set (displayList (page_regions A m e buf tmp ctx)).
      0 \<le> rd_xPos d \<and> rd_xPos d < P \<and> 0 \<le> rd_yPos d \<and> rd_yPos d < P) \<and>
    6 * length (displayList (page_regions A m e buf tmp ctx)) \<le> 6 * length (displayList ctx) + (e - buf)"
  using assms
proof (induction A m e buf tmp ctx rule: page_regions.induct)
  case (1 A m e buf tmp ctx)
  show ?case
  proof (cases "buf + 5 < e \<and> \<not> (List.find (\<lambda>d. rd_regionId d = byte_at m buf) tmp = None \<and> \<not> A RegionDisplayNode)")
    case True
    let ?d = "\<lparr>rd_regionId = byte_at m buf, rd_xPos = AV_RB16 m (buf + 2), rd_yPos = AV_RB16 m (buf + 4)\<rparr>"
    let ?c = "ctx\<lparr>displayList := ?d # displayList ctx, displayListSize := displayListSize ctx + 1\<rparr>"
    have step: "page_regions A m e buf tmp ctx
        = page_regions A m e (buf + 6) (remove_node rd_regionId (byte_at m buf) tmp) ?c"
      using True by (subst page_regions.simps) (auto simp: Let_def)
    have h1: "\<forall>j. buf + 6 + 6 * j + 5 < e \<longrightarrow>
        AV_RB16 m (buf + 6 + 6 * j + 2) < P \<and> AV_RB16 m (buf + 6 + 6 * j + 4) < P"
    proof (intro allI impI)
      fix j assume "buf + 6 + 6 * j + 5 < e"
      with 1(2) [rule_format, of "Suc j"] show
        "AV_RB16 m (buf + 6 + 6 * j + 2) < P \<and> AV_RB16 m (buf + 6 + 6 * j + 4) < P"
        by (simp add: add.assoc add.left_commute)
    qed
    have h2: "\<forall>d \<in> set (displayList ?c). 0 \<le> rd_xPos d \<and> rd_xPos d < P \<and> 0 \<le> rd_yPos d \<and> rd_yPos d < P"
      using 1(2) [rule_format, of 0] 1(3) True AV_RB16_range by simp
    have "(\<forall>d \<in> set (displayList (page_regions A m e (buf + 6) (remove_node rd_regionId (byte_at m buf) tmp) ?c)).
      0 \<le> rd_xPos d \<and> rd_xPos d < P \<and> 0 \<le> rd_yPos d \<and> rd_yPos d < P) \<and>
      6 * length (displayList (page_regions A m e (buf + 6) (remove_node rd_regionId (byte_at m buf) tmp) ?c))
        \<le> 6 * length (displayList ?c) + (e - (buf + 6))"
      using True by (intro 1(1) [OF _ refl refl _ refl h1 h2]) auto
    moreover have "6 * length (displayList ?c) + (e - (buf + 6)) \<le> 6 * length (displayList ctx) + (e - buf)"
      using True by simp
    ultimately show ?thesis unfolding step by (meson order_trans)
  next
    case False
    then have "page_regions A m e buf tmp ctx = ctx" by (subst page_regions.simps) (auto simp: Let_def)
    then show ?thesis using 1(3) by simp
  qed
qed

lemma parsePageSegment_screen:
  assumes "context_ok ctx" "screen_ok ctx" "page_sane m p n"
  shows "yields (\<lambda>c. context_ok c \<and> screen_ok c) (parsePageSegment A m p n ctx)"
proof (cases "n < 1")
  case True
  then show ?thesis using assms by (simp add: parsePageSegment_def)
next
  case False
  let ?ctx = "ctx\<lparr>timeOut := page_timeout (byte_at m p)\<rparr>"
  let ?s = "drop_bit 2 (byte_at m (p + 1)) AND 3"
  obtain d where d: "(if ?s = DVBSUB_PCS_STATE_ACQUISITION \<or> ?s = DVBSUB_PCS_STATE_MODE_CHANGE
      then do { ctx \<leftarrow> deleteRegions ?ctx; Some (deleteCluts (deleteObjects ctx)) } else Some ?ctx) = Some d"
      "\<forall>r \<in> set (regionList d). dims_within 2047 2047 r"
  proof (cases "?s = DVBSUB_PCS_STATE_ACQUISITION \<or> ?s = DVBSUB_PCS_STATE_MODE_CHANGE")
    case True
    have "linked ?ctx" using context_ok_cong [OF assms(1), of ?ctx] by (simp add: context_ok_def)
    from deleteRegions_links [OF this] obtain e where "deleteRegions ?ctx = Some e" "regionList e = []"
      by (auto elim: yieldsE)
    with True that [of "deleteCluts (deleteObjects e)"] show ?thesis
      by (simp add: deleteCluts_def deleteObjects_def)
  next
    case False
    with assms(2) that [of ?ctx] show ?thesis by (simp add: screen_ok_def)
  qed
  let ?d = "d\<lparr>displayList := [], displayListSize := 0\<rparr>"
  let ?r = "page_regions A m (p + n) (p + 2) (displayList d) ?d"
  have run: "parsePageSegment A m p n ctx = Some ?r"
    using False d(1) unfolding parsePageSegment_def Let_def by simp
  have entries: "\<forall>j. p + 2 + 6 * j + 5 < p + n \<longrightarrow>
      AV_RB16 m (p + 2 + 6 * j + 2) < 4096 \<and> AV_RB16 m (p + 2 + 6 * j + 4) < 4096"
  proof (intro allI impI)
    fix j assume "p + 2 + 6 * j + 5 < p + n"
    then have "j < 16" "6 * j + 7 < n" using assms(3) by (simp_all add: page_sane_def)
    then have "AV_RB16 m (p + 4 + 6 * j) < 4096 \<and> AV_RB16 m (p + 6 + 6 * j) < 4096"
      using assms(3) by (simp add: page_sane_def)
    moreover have "p + 4 + 6 * j = p + 2 + 6 * j + 2" "p + 6 + 6 * j = p + 2 + 6 * j + 4" by simp_all
    ultimately show "AV_RB16 m (p + 2 + 6 * j + 2) < 4096 \<and> AV_RB16 m (p + 2 + 6 * j + 4) < 4096" by metis
  qed
  note list = page_regions_sane [OF entries, of ?d A "displayList d"]
  have "6 * length (displayList ?r) \<le> n - 2" "n \<le> 98" using list assms(3) by (simp_all add: page_sane_def)
  then have "length (displayList ?r) \<le> 16" by linarith
  moreover have "rows_within 2047 4096 0 (displayList ?r)"
    using list by (intro rows_within_page) auto
  moreover have "regionList ?r = regionList d"
    using page_regions_frame [of A m "p + n" "p + 2" "displayList d" ?d] by auto
  ultimately have "screen_ok ?r" using d(2) by (simp add: screen_ok_def)
  moreover have "context_ok ?r"
    using parsePageSegment_ok [OF assms(1), of n m p A] run by simp
  ultimately show ?thesis using run by simp
qed

lemma end_of_set_ok:
  assumes "dvb_ok dvb"
  shows "yields (\<lambda>(go, spu', dvb'). dvb_ok dvb' \<and> mState dvb' = mState dvb \<and>
      (spu_bitmap_ok spu \<and> (\<forall>n. malloc_ok E (DisplayBuffer n)) \<longrightarrow> spu_bitmap_ok spu'))
    (end_of_set E spu dvb)"
proof -
  let ?c = "mContext dvb" and ?s = "spu\<lparr>m_delay := pts spu + timeOut (mContext dvb) * 1000 * 90\<rparr>"
  have ok: "context_ok ?c" "screen_ok ?c" using assms by (simp_all add: dvb_ok_def)
  have "spu_bitmap_ok ?s = spu_bitmap_ok spu"
    by (cases "spu_data spu") (simp_all add: spu_bitmap_ok_def)
  moreover have "context_ok (laid_out ?c) \<and> screen_ok (laid_out ?c)"
    using context_ok_laid_out [OF ok(1)] screen_ok_layout [OF ok(2)] by blast
  ultimately show ?thesis
    using saveResult2Spu_yields [OF ok(1) conjunct1 [OF screen_ok_layout [OF ok(2)]], of ?s "malloc_ok E"]
    unfolding end_of_set_def displayEndSegment_def
    by (auto elim!: yieldsE)
qed

lemma decode_segment_ok:
  assumes "dvb_ok dvb" "pixel_memory (malloc_ok E)" "segment_sane m segmentType p n"
  shows "yields (\<lambda>(go, spu', dvb'). dvb_ok dvb' \<and> mState dvb' = mState dvb \<and>
      (spu_bitmap_ok spu \<and> (\<forall>n. malloc_ok E (DisplayBuffer n)) \<longrightarrow> spu_bitmap_ok spu'))
    (decode_segment E m segmentType p n spu dvb)"
proof -
  have ok: "context_ok (mContext dvb)" "screen_ok (mContext dvb)" using assms(1) by (simp_all add: dvb_ok_def)
  note close = end_of_set_ok [of _ spu E]
  show ?thesis
    unfolding decode_segment_def
  proof (intro yields_if)
    assume "segmentType = DVBSUB_PAGE_SEGMENT"
    then have "page_sane m p n" using assms(3) by (simp add: segment_sane_def)
    from parsePageSegment_screen [OF ok this]
    obtain c where c: "parsePageSegment (malloc_ok E) m p n (mContext dvb) = Some c" "context_ok c" "screen_ok c"
      by (auto elim: yieldsE)
    then show "yields (\<lambda>(go, spu', dvb'). dvb_ok dvb' \<and> mState dvb' = mState dvb \<and>
        (spu_bitmap_ok spu \<and> (\<forall>n. malloc_ok E (DisplayBuffer n)) \<longrightarrow> spu_bitmap_ok spu'))
      (do { ctx \<leftarrow> parsePageSegment (malloc_ok E) m p n (mContext dvb);
         end_of_set E spu (dvb\<lparr>mContext := ctx\<rparr>) })"
      using close [of "dvb\<lparr>mContext := c\<rparr>"] by simp
  next
    assume "segmentType = DVBSUB_REGION_SEGMENT"
    then have sane: "AV_RB16 m (p + 2) \<le> 2047" "AV_RB16 m (p + 4) \<le> 2047"
      using assms(3) by (simp_all add: segment_sane_def region_sane_def)
    then have "AV_RB16 m (p + 2) * AV_RB16 m (p + 4) \<le> 2047 * 2047"
      using AV_RB16_range by (intro mult_mono) auto
    then have small: "AV_RB16 m (p + 2) * AV_RB16 m (p + 4) < 2 ^ 31" by simp
    obtain c where c: "parseRegionSegment (malloc_ok E) m p n (mContext dvb) = Some c" "context_ok c"
        "displayList c = displayList (mContext dvb)"
        "\<forall>r \<in> set (regionList c). (reg_width r = AV_RB16 m (p + 2) \<and> reg_height r = AV_RB16 m (p + 4)) \<or>
         (\<exists>r0 \<in> set (regionList (mContext dvb)). reg_width r = reg_width r0 \<and> reg_height r = reg_height r0)"
      using parseRegionSegment_ok [OF ok(1) assms(2) small, of n] by (auto elim: yieldsE)
    then have "screen_ok c"
      using ok(2) sane AV_RB16_range unfolding screen_ok_def dims_within_def by (metis (no_types, lifting))
    with c show "yields (\<lambda>(go, spu', dvb'). dvb_ok dvb' \<and> mState dvb' = mState dvb \<and>
        (spu_bitmap_ok spu \<and> (\<forall>n. malloc_ok E (DisplayBuffer n)) \<longrightarrow> spu_bitmap_ok spu'))
      (do { ctx \<leftarrow> parseRegionSegment (malloc_ok E) m p n (mContext dvb);
         Some (True, spu, dvb\<lparr>mContext := ctx\<rparr>) })" by simp
  next
    obtain q cs where q: "parseClutSegment (malloc_ok E) m p n dvb = Some q" "context_ok (mContext q)"
        "mState q = mState dvb" "mContext q = (mContext dvb)\<lparr>clutList := cs\<rparr>"
      using parseClutSegment_ok [OF ok(1), of "malloc_ok E" m p n] by (auto elim: yieldsE)
    moreover have "screen_ok (mContext q)" using screen_ok_cong [OF ok(2)] q(4) by simp
    ultimately show "yields (\<lambda>(go, spu', dvb'). dvb_ok dvb' \<and> mState dvb' = mState dvb \<and>
        (spu_bitmap_ok spu \<and> (\<forall>n. malloc_ok E (DisplayBuffer n)) \<longrightarrow> spu_bitmap_ok spu'))
      (do { dvb \<leftarrow> parseClutSegment (malloc_ok E) m p n dvb; Some (True, spu, dvb) })"
      by (simp add: dvb_ok_def)
  next
    show "yields (\<lambda>(go, spu', dvb'). dvb_ok dvb' \<and> mState dvb' = mState dvb \<and>
        (spu_bitmap_ok spu \<and> (\<forall>n. malloc_ok E (DisplayBuffer n)) \<longrightarrow> spu_bitmap_ok spu'))
      (do { (ret, dvb) \<leftarrow> parseObjectSegment m p n dvb; Some (ret \<noteq> -1, spu, dvb) })"
      using parseObjectSegment_ok [OF ok(1), of m p n] context_ok_repainted screen_ok_repainted ok
      by (auto elim!: yieldsE simp: dvb_ok_def)
  next
    obtain dd where "parseDisplayDefinitionSegment (malloc_ok E) m p n (mContext dvb)
        = (mContext dvb)\<lparr>displayDefinition := dd\<rparr>"
      using parseDisplayDefinitionSegment_frame by metis
    then show "yields (\<lambda>(go, spu', dvb'). dvb_ok dvb' \<and> mState dvb' = mState dvb \<and>
        (spu_bitmap_ok spu \<and> (\<forall>n. malloc_ok E (DisplayBuffer n)) \<longrightarrow> spu_bitmap_ok spu'))
      (Some (True, spu, dvb\<lparr>mContext := parseDisplayDefinitionSegment (malloc_ok E) m p n (mContext dvb)\<rparr>))"
      using context_ok_cong [OF ok(1)] screen_ok_cong [OF ok(2)] by simp
  qed (use close [OF assms(1)] assms(1) in auto)
qed

definition decode_post :: "env \<Rightarrow> AML_SPUVAR \<Rightarrow> DvbParser \<Rightarrow> AML_SPUVAR \<Rightarrow> DvbParser \<Rightarrow> bool" where
  "decode_post E spu dvb spu' dvb' \<longleftrightarrow> dvb_ok dvb' \<and> mState dvb' = mState dvb \<and>
     (spu_bitmap_ok spu \<and> (\<forall>n. malloc_ok E (DisplayBuffer n)) \<longrightarrow> spu_bitmap_ok spu')"

lemma decode_post_trans:
  "decode_post E spu dvb spu1 dvb1 \<Longrightarrow> decode_post E spu1 dvb1 spu2 dvb2 \<Longrightarrow> decode_post E spu dvb spu2 dvb2"
  by (auto simp: decode_post_def)

lemma decode_segments_ok:
  assumes "dvb_ok dvb" "pixel_memory (malloc_ok E)" "packet_sane m p pEnd" "p \<le> pEnd"
  shows "yields (\<lambda>(ret, spu', dvb'). (ret = -1 \<or> int p \<le> ret \<and> ret \<le> int pEnd) \<and> decode_post E spu dvb spu' dvb')
    (decode_segments E m p pEnd spu dvb)"
  using assms(1,3,4)
proof (induction "pEnd - p" arbitrary: p spu dvb rule: less_induct)
  case less
  let ?len = "AV_RB16 m (p + 4)" and ?sel = "page_selected (mContext dvb) (AV_RB16 m (p + 2))"
  show ?case
  proof (cases "more_segments m p pEnd \<and> mState dvb \<noteq> SUB_STOP \<and> \<not> int pEnd - int (p + 6) < ?len")
    case False
    then show ?thesis using less.prems
      by (subst decode_segments.simps) (auto simp: Let_def decode_post_def)
  next
    case True
    then have sane: "segment_sane m (byte_at m (p + 1)) (p + 6) (nat ?len)" "packet_sane m (p + 6 + nat ?len) pEnd"
      using less.prems(2) by (auto simp: packet_sane.simps [of m p])
    obtain go spu1 dvb1 where step: "(if ?sel
        then decode_segment E m (byte_at m (p + 1)) (p + 6) (nat ?len) spu dvb
        else Some (True, spu, dvb)) = Some (go, spu1, dvb1)" "decode_post E spu dvb spu1 dvb1"
    proof (cases ?sel)
      case True
      with decode_segment_ok [OF less.prems(1) assms(2) sane(1), of spu] that show ?thesis
        by (auto elim!: yieldsE simp: decode_post_def)
    next
      case False
      with less.prems(1) that show ?thesis by (auto simp: decode_post_def)
    qed
    have len: "0 \<le> ?len" using AV_RB16_range by simp
    obtain q where q: "q = p + 6 + nat ?len" by simp
    have pq: "p < q" "q \<le> pEnd" using True len q by linarith+
    have rest: "yields (\<lambda>(ret, spu', dvb'). (ret = -1 \<or> int q \<le> ret \<and> ret \<le> int pEnd) \<and>
        decode_post E spu1 dvb1 spu' dvb') (decode_segments E m q pEnd spu1 dvb1)"
      using pq sane(2) step(2) q by (intro less.hyps) (auto simp: decode_post_def)
    have eq: "decode_segments E m p pEnd spu dvb
        = (if go then decode_segments E m q pEnd spu1 dvb1 else Some (-1, spu1, dvb1))"
    proof -
      have c: "more_segments m p pEnd = True" "(mState dvb = SUB_STOP) = False"
          "(int pEnd - int (p + 6) < ?len) = False" using True by simp_all
      show ?thesis
        by (subst decode_segments.simps)
          (simp only: q Let_def c if_True if_False step(1) Option.bind.simps prod.case)
    qed
    show ?thesis
    proof (cases go)
      case True
      then show ?thesis unfolding eq using rest decode_post_trans [OF step(2)] pq
        by (auto elim!: yieldsE)
    qed (use eq step(2) in simp)
  qed
qed

lemma decodeSubtitle_yields:
  assumes "dvb_ok dvb" "pixel_memory (malloc_ok E)" "packet_sane (packet_mem E data) 0 (length data)"
    "spu_data spu = None"
  shows "yields (\<lambda>(ret, spu', dvb'). (ret = -1 \<or> 0 \<le> ret \<and> ret \<le> int (length data)) \<and>
      dvb_ok dvb' \<and> mState dvb' = mState dvb \<and>
      ((\<forall>n. malloc_ok E (DisplayBuffer n)) \<longrightarrow> spu_bitmap_ok spu'))
    (decodeSubtitle E spu data dvb)"
proof -
  let ?s = "spu\<lparr>spu_width := 0, spu_height := 0, spu_start_x := 0, spu_start_y := 0,
            spu_origin_display_w := 720, spu_origin_display_h := 576\<rparr>"
  have bm: "spu_bitmap_ok ?s" using assms(4) by (simp add: spu_bitmap_ok_def)
  have "yields (\<lambda>(ret, spu', dvb'). (ret = -1 \<or> 0 \<le> ret \<and> ret \<le> int (length data)) \<and>
      decode_post E ?s dvb spu' dvb') (decode_segments E (packet_mem E data) 0 (length data) ?s dvb)"
    using decode_segments_ok [OF assms(1,2,3), of ?s] by simp
  then show ?thesis
    unfolding decodeSubtitle_def Let_def using bm assms(1)
    by (auto simp: decode_post_def dvb_ok_def elim!: yields_mono)
qed

text \<open>A truncated packet changes nothing but reports the loss.\<close>

lemma decodeSubtitle_truncated_eq:
  assumes "\<not> scan_segments (packet_mem E data) 0 (length data)" "6 < length data"
    "byte_at (packet_mem E data) 0 = 0x0f" "mState dvb \<noteq> SUB_STOP"
  shows "\<exists>spu'. decodeSubtitle E spu data dvb = Some (-1, spu', notifySubtitleErrorInfo ERROR_DECODER_LOSEDATA dvb)"
  using assms by (simp add: decodeSubtitle_def Let_def)

section \<open>The PES header\<close>

context byte_source begin

text \<open>A PES packet with a PTS: the header is consumed, and the payload is decoded.\<close>

lemma read_pes_header_pts:
  assumes "live s" "pending s = x # (word_of_int flags :: u8) # (word_of_int hl :: u8) # hdr @ rest"
    "flags \<in> {0x80..0xff}" "5 \<le> hl" "hl < 256" "length hdr = nat hl" "len \<ge> 3 + hl"
    "length tmpbuf = 256" "t = pes_timestamp uint hdr 0"
  shows "yields (\<lambda>(hd, buf, s'). hd = \<lparr>pes_packetLen = len - 3 - hl, pes_pts = t, pes_needSkip = False\<rparr> \<and>
      length buf = 256 \<and> pending s' = rest \<and> live s') (read_pes_header uint rd len tmpbuf s)"
proof -
  let ?h3 = "[x, word_of_int flags, word_of_int hl] :: u8 list"
  obtain s1 where s1: "read_into rd 3 tmpbuf s = Some (3, ?h3 @ drop (length ?h3) tmpbuf, s1)"
      "pending s1 = hdr @ rest" "live s1"
    by (rule read_into_exact [OF assms(1), of ?h3 "hdr @ rest" 3 tmpbuf]) (use assms(2,8) in simp_all)
  let ?b = "?h3 @ drop (length ?h3) tmpbuf"
  have hl: "uint (word_of_int hl :: u8) = hl" using assms(4,5) by (simp add: uint_word_of_int)
  obtain s2 where s2: "read_into rd hl ?b s1 = Some (hl, hdr @ drop (length hdr) ?b, s2)"
      "pending s2 = rest" "live s2"
    by (rule read_into_exact [OF s1(3,2), of hl ?b]) (use assms(4-6,8) in simp_all)
  have fl: "uint (word_of_int flags :: u8) AND 0xc0 = 0x80 \<or> uint (word_of_int flags :: u8) AND 0xc0 = 0xc0"
  proof -
    have "flags AND 0xc0 = push_bit 6 (take_bit 2 (drop_bit 6 flags))"
    proof -
      have e: "(0xc0 :: int) = push_bit 6 (mask 2)" by (simp add: mask_eq_exp_minus_1 push_bit_eq_mult)
      show ?thesis unfolding e by (rule bit_eqI) (simp only: bit_simps, auto)
    qed
    moreover have fr: "128 \<le> flags" "flags \<le> 255" using assms(3) by simp_all
    then have "flags div 64 = 2 \<or> flags div 64 = 3" by presburger
    then have "drop_bit 6 flags = 2 \<or> drop_bit 6 flags = 3" by (simp add: drop_bit_eq_div)
    moreover have "uint (word_of_int flags :: u8) = flags" using fr by (simp add: uint_word_of_int)
    ultimately show ?thesis by (auto simp: push_bit_eq_mult take_bit_eq_mod)
  qed
  have "5 \<le> length hdr" using assms(4,6) by linarith
  then have "(hdr @ xs) ! k = hdr ! k" if "k < 5" for k xs
    using that by (simp add: nth_append)
  then have ts: "pes_timestamp uint (hdr @ drop (length hdr) ?b) 0 = t"
    unfolding assms(9) pes_timestamp_def by simp
  show ?thesis
    using assms(4-8) s1(1) s2 hl fl ts unfolding read_pes_header_def
    by (simp add: Let_def)
qed

end

section \<open>A packet from the stream to the queue\<close>

text \<open>The unit that a PES packet of the hardware demultiplexer is decoded into.\<close>

definition hw_unit :: "int \<Rightarrow> int \<Rightarrow> AML_SPUVAR" where
  "hw_unit syncTime t = new_spu\<lparr>sync_bytes := AML_PARSER_SYNC_WORD, subtitle_type := TYPE_SUBTITLE_DVB,
     pts := unit_pts syncTime t\<rparr>"

context byte_source begin

lemma hw_packet_decoded:
  assumes "cval E = uint" "live s"
    "pending s = junk @ [hi, lo, x, word_of_int flags, word_of_int hl] @ hdr @ [d0, d1] @ data @ rest"
    "first_sync uint 0 junk HwSync" "mState dvb \<noteq> SUB_STOP"
    "flags \<in> {0x80..0xff}" "5 \<le> hl" "hl < 256" "length hdr = nat hl"
    "256 * uint hi + uint lo = 3 + hl + 2 + int (length data)"
    "pes_timestamp uint hdr 0 = t" "t \<noteq> 0" "\<bar>syncTime - unit_pts syncTime t\<bar> \<le> 9 * 90000"
    "malloc_ok E (PacketBuffer (int (length data)))"
    "decodeSubtitle E (hw_unit syncTime t) data dvb = Some (ret, spu, dvb')"
  shows "yields (\<lambda>(r, dvb2, s'). r = ret \<and> dvb2 = (if ret \<noteq> -1 then publish spu dvb' else dvb') \<and>
      pending s' = rest \<and> live s') (getDvbSpu E rd (\<lambda>_. syncTime) dvb s)"
proof -
  let ?h5 = "[x, word_of_int flags, word_of_int hl] @ hdr @ [d0, d1] @ data @ rest"
  have "int (length data) < 65536"
    using assms(7,10) uint_bounded [of hi] uint_bounded [of lo] by simp
  then have small: "length data < 65536" by simp
  obtain s1 where s1: "find_sync uint rd False 0 s = Some (HwSync, s1)" "pending s1 = [hi, lo] @ ?h5" "live s1"
    using find_sync_first [OF assms(2) _ assms(4), of "[hi, lo] @ ?h5"] assms(3) by (auto elim!: yieldsE)
  obtain s2 where s2: "read_into rd 2 (replicate 256 0) s1
      = Some (2, [hi, lo] @ drop (length [hi, lo]) (replicate 256 0), s2)" "pending s2 = ?h5" "live s2"
    by (rule read_into_exact [OF s1(3,2), of 2 "replicate 256 0"]) simp_all
  let ?b2 = "[hi, lo] @ drop (length [hi, lo]) (replicate 256 0 :: u8 list)"
  let ?len = "256 * uint hi + uint lo"
  have len: "push_bit 8 (uint (?b2 ! 0)) OR uint (?b2 ! 1) = ?len" by (simp add: or_bytes)
  obtain hd b3 s3 where s3: "read_pes_header uint rd ?len ?b2 s2 = Some (hd, b3, s3)"
      "hd = \<lparr>pes_packetLen = ?len - 3 - hl, pes_pts = t, pes_needSkip = False\<rparr>" "length b3 = 256"
      "pending s3 = [d0, d1] @ data @ rest" "live s3"
    using read_pes_header_pts [OF s2(3), of x flags hl hdr "[d0, d1] @ data @ rest" ?len ?b2 t] assms s2(2)
    by (auto elim!: yieldsE)
  have rem: "?len - 3 - hl = int (length data) + 2" using assms(10) by simp
  obtain s4 where s4: "read_into rd 2 b3 s3 = Some (2, [d0, d1] @ drop (length [d0, d1]) b3, s4)"
      "pending s4 = data @ rest" "live s4"
    by (rule read_into_exact [OF s3(5,4), of 2 b3]) (use s3(3) in simp_all)
  obtain s5 where s5: "read_into rd (int (length data)) (replicate (length data) 0) s4
      = Some (int (length data), data @ drop (length data) (replicate (length data) 0), s5)"
      "pending s5 = rest" "live s5"
    by (rule read_into_exact [OF s4(3,2), of "int (length data)" "replicate (length data) 0"])
      (use small in simp_all)
  have pay: "hw_payload E rd (\<lambda>_. syncTime) (int (length data) + 2) t b3 dvb s3
      = Some (if ret \<noteq> -1 then (ret, publish spu dvb', s5) else (-1, dvb', s5))"
    using small assms(13-15) s4(1) s5(1)
    unfolding hw_payload_def Let_def by (simp add: hw_unit_def)
  have "hwDemuxParse E rd (\<lambda>_. syncTime) dvb s1
      = Some (if ret \<noteq> -1 then (ret, publish spu dvb', s5) else (-1, dvb', s5))"
    unfolding hwDemuxParse_def assms(1) s2(1) Option.bind.simps prod.case Let_def len s3(1)
    using s3(2) rem assms(12) pay by simp
  then show ?thesis
    using s1(1) s5(2,3) assms(1,5) by (simp add: getDvbSpu_def)
qed

end

section \<open>Construction and destruction\<close>

definition new_dvb :: DvbParser where
  "new_dvb = Parser.extend ((start_parser TYPE_SUBTITLE_DVB)) (DvbParser.fields init_context (-1))"

text \<open>\<open>~DvbParser\<close>: the context and everything it owns is freed.\<close>

definition destroy_context :: "DVBSubContext \<Rightarrow> DVBSubContext option" where
  "destroy_context ctx = do {
     ctx \<leftarrow> deleteRegions ctx;
     Some ((deleteCluts (deleteObjects ctx))\<lparr>displayDefinition := None, displayList := []\<rparr>) }"

end
