(* ===== verification/Dvb_Properties.thy ===== *)
theory Dvb_Properties
  imports Dvb_Decode
begin

text \<open>
  The properties of the DVB decoder, with the concrete packets that witness them.
\<close>

section \<open>Concrete packets\<close>

definition demo_env :: env where
  "demo_env = \<lparr>malloc_ok = (\<lambda>_. True), stray = (\<lambda>_. 0xaa), cval = uint, asserts = True\<rparr>"

definition demo_dvb :: DvbParser where
  "demo_dvb = new_dvb\<lparr>mState := SUB_PLAYING\<rparr>"





section \<open>Decoding is memory safe\<close>





section \<open>From the stream to the queue\<close>

definition demo_stream :: "u8 list" where
  "demo_stream = [0xff, 0, 0, 1, 0xbd, 0, 17,  0x80, 0x80, 5,  0x21, 0, 1, 0, 3,  0x20, 0,
     0x0f, 0x80, 0, 1, 0, 0, 0]"

definition demo_source :: Source where
  "demo_source = \<lparr>mSegments = [new_item (drop 7 demo_stream)], mAvailableDataSize = 24, mEnabled = True,
     mCurrentItem = Some (new_item (take 7 demo_stream)), mStarted = True\<rparr>"

text \<open>
  C7. A PES packet with a PTS that arrives on a device source, after any bytes without a
  start code and split over queued buffers in any way, is decoded from exactly its payload, with
  its PTS; the unit is published when decoding succeeds, and the source is left just after the
  packet.
\<close>

theorem pes_packet_decoded:
  assumes "cval E = uint" "source_live s" "mState dvb \<noteq> SUB_STOP"
    "source_pending s = junk @ [hi, lo, x, word_of_int flags, word_of_int hl] @ hdr @ [d0, d1] @ data @ rest"
    "first_sync uint 0 junk HwSync"
    "flags \<in> {0x80..0xff}" "5 \<le> hl" "hl < 256" "length hdr = nat hl"
    "256 * uint hi + uint lo = 3 + hl + 2 + int (length data)"
    "pes_timestamp uint hdr 0 = t" "t \<noteq> 0" "\<bar>syncTime - unit_pts syncTime t\<bar> \<le> 9 * 90000"
    "malloc_ok E (PacketBuffer (int (length data)))"
    "decodeSubtitle E (hw_unit syncTime t) data dvb = Some (ret, spu, dvb')"
  shows "yields (\<lambda>(r, dvb2, s'). r = ret \<and> dvb2 = (if ret \<noteq> -1 then publish spu dvb' else dvb') \<and>
      source_pending s' = rest \<and> source_live s') (getDvbSpu E device_read (\<lambda>_. syncTime) dvb s)"
  by (rule device.hw_packet_decoded [OF assms(1,2,4,5,3,6-15)])

theorem pes_packet_decoded_witness:
  "\<exists>spu dvb'. yields (\<lambda>(r, dvb2, s'). r = 6 \<and> dvb2 = publish spu dvb' \<and> source_pending s' = [])
    (getDvbSpu demo_env device_read (\<lambda>_. 1) demo_dvb demo_source)"
proof -
  have "map_option fst (decodeSubtitle demo_env (hw_unit 1 1) [0x0f, 0x80, 0, 1, 0, 0, 0] demo_dvb) = Some 6"
    by code_simp
  then obtain spu dvb' where d: "decodeSubtitle demo_env (hw_unit 1 1) [0x0f, 0x80, 0, 1, 0, 0, 0] demo_dvb
      = Some (6, spu, dvb')" by auto
  have "yields (\<lambda>(r, dvb2, s'). r = 6 \<and> dvb2 = (if (6 :: int) \<noteq> -1 then publish spu dvb' else dvb') \<and>
      source_pending s' = [] \<and> source_live s') (getDvbSpu demo_env device_read (\<lambda>_. 1) demo_dvb demo_source)"
  proof (rule pes_packet_decoded)
    show "source_pending demo_source = [0xff, 0, 0, 1, 0xbd] @ [0, 17, 0x80, word_of_int 0x80, word_of_int 5]
        @ [0x21, 0, 1, 0, 3] @ [0x20, 0] @ [0x0f, 0x80, 0, 1, 0, 0, 0] @ []"
      by (simp add: source_pending_def demo_source_def demo_stream_def item_rest_def new_item_def)
    show "first_sync uint 0 [0xff, 0, 0, 1, 0xbd] HwSync" by code_simp
    show "pes_timestamp uint [0x21, 0, 1, 0, 3] 0 = 1" by code_simp
    show "\<bar>1 - unit_pts 1 1\<bar> \<le> 9 * 90000" by code_simp
    show "source_live demo_source"
      by (simp add: source_live_def demo_source_def demo_stream_def item_ok_def new_item_def)
    show "mState demo_dvb \<noteq> SUB_STOP" by (simp add: demo_dvb_def SUB_PLAYING_def SUB_STOP_def)
  qed (use d in \<open>simp_all add: demo_env_def\<close>)
  then show ?thesis by (intro exI) (auto elim!: yields_mono)
qed

text \<open>
  C4. With a signed \<open>char\<close>, \<open>packetHeader << 8 | tmpbuf[0]\<close> sign-extends the last byte of the
  start code: the hardware demultiplexer's packets are never found, whatever was read before.
\<close>

theorem signed_char_never_syncs: "sync_of (shift_header h (sint (b :: u8))) \<noteq> HwSync"
  by (rule signed_sync_never)



section \<open>The decoder's context\<close>

definition demo_region :: DVBSubRegion where
  "demo_region = \<lparr>reg_id = 0, reg_width = 2, reg_height = 1, reg_depth = 2, reg_clut = 0,
     reg_bgcolor = 0, reg_pbuf = [0, 3], reg_bufSize = 2, reg_displayList = [0]\<rparr>"

definition demo_display :: DVBSubObjectDisplay where
  "demo_display = \<lparr>od_objectId = 7, od_regionId = 0, od_xPos = 0, od_yPos = 0, od_fgcolor = 0, od_bgcolor = 0\<rparr>"

definition demo_context :: DVBSubContext where
  "demo_context = init_context\<lparr>regionList := [demo_region],
     objectList := [\<lparr>obj_id = 7, obj_type = 0, obj_displayList = [0]\<rparr>],
     clutList := [gDefaultClut\<lparr>clut_id := 0\<rparr>],
     displayList := [\<lparr>rd_regionId = 0, rd_xPos = 10, rd_yPos = 20\<rparr>], displayListSize := 1,
     od_heap := [0 \<mapsto> demo_display], od_next := 1\<rparr>"

lemma demo_context_ok: "context_ok demo_context"
  using length_default_clut
  by (auto simp: context_ok_def linked_def object_links_def region_links_def displays_ok_def region_ok_def
      demo_context_def demo_region_def demo_display_def init_context_def new_context_def)

lemma demo_context_screen: "screen_ok demo_context"
  by (simp add: screen_ok_def demo_context_def demo_region_def dims_within_def row_within_def)

text \<open>
  C8. A page segment that announces a new epoch (acquisition point or mode change) frees every
  region, object, CLUT and display: the walk over the two linked lists each display
  is in never touches freed memory, and no display is left allocated.
\<close>

theorem page_reset_frees_all:
  assumes "context_ok ctx" "0 < n" "drop_bit 2 (byte_at m (p + 1)) AND 3 \<in> {1, 2}"
  shows "yields (\<lambda>c. context_ok c \<and> regionList c = [] \<and> objectList c = [] \<and> clutList c = [] \<and>
    od_heap c = Map.empty) (parsePageSegment A m p n ctx)"
  by (rule yields_mono [OF parsePageSegment_ok [OF assms(1), of n m p A]]) (use assms(2,3) in auto)

theorem page_reset_frees_all_witness:
  "yields (\<lambda>c. context_ok c \<and> regionList c = [] \<and> objectList c = [] \<and> clutList c = [] \<and>
    od_heap c = Map.empty) (parsePageSegment (\<lambda>_. True) (mem_of [5, 4]) 0 2 demo_context)"
  by (rule page_reset_frees_all [OF demo_context_ok]) (simp_all add: mem_of_def byte_at_def)



text \<open>
  C8. A region segment keeps the invariant: the pixel buffer it allocates has
  \<open>width * height\<close> bytes, its old displays are unlinked and freed, and every object it
  lists gets a display that is in the object's and in the region's list.
\<close>

theorem region_segment_invariant:
  assumes "context_ok ctx" "pixel_memory A" "AV_RB16 m (p + 2) * AV_RB16 m (p + 4) < 2 ^ 31"
  shows "yields context_ok (parseRegionSegment A m p n ctx)"
  by (rule yields_mono [OF parseRegionSegment_ok [OF assms]]) simp

theorem region_segment_invariant_witness:
  "yields context_ok (parseRegionSegment (\<lambda>_. True)
     (mem_of [0, 8, 0, 4, 0, 2, 4, 0, 0, 0, 0, 7, 0, 0, 0, 0]) 0 16 demo_context)"
  by (rule region_segment_invariant [OF demo_context_ok])
    (simp_all add: pixel_memory_def mem_of_def byte_at_def AV_RB16_eq)

text \<open>
  An object segment, whatever its field lengths and pixel data, changes nothing but
  the contents of region buffers, and neither their sizes.
\<close>

theorem object_segment_only_paints:
  assumes "context_ok (mContext dvb)"
  shows "yields (\<lambda>(ret, dvb'). ret \<in> {-1, 0} \<and> repainted (mContext dvb) (mContext dvb') \<and>
      context_ok (mContext dvb')) (parseObjectSegment m p n dvb)"
  by (rule yields_mono [OF parseObjectSegment_ok [OF assms, of m p n]])
    (use context_ok_repainted [OF _ assms] in auto)

theorem object_segment_only_paints_witness:
  "yields (\<lambda>(ret, dvb'). ret \<in> {-1, 0} \<and> repainted demo_context (mContext dvb') \<and> context_ok (mContext dvb'))
    (parseObjectSegment (mem_of [0, 7, 0, 0, 4, 0, 0, 0x10, 0x50, 0, 0xf0]) 0 11 (demo_dvb\<lparr>mContext := demo_context\<rparr>))"
  using object_segment_only_paints [of "demo_dvb\<lparr>mContext := demo_context\<rparr>"] demo_context_ok by simp

text \<open>
  C10. A CLUT segment keeps the invariant although it indexes the colour tables with an
  unchecked byte: \<open>clut4[255]\<close> still lies in the struct.
\<close>

theorem clut_segment_invariant:
  assumes "context_ok (mContext dvb)"
  shows "yields (\<lambda>dvb'. context_ok (mContext dvb') \<and> mState dvb' = mState dvb \<and>
      (\<exists>cs. mContext dvb' = (mContext dvb)\<lparr>clutList := cs\<rparr>)) (parseClutSegment A m p n dvb)"
  by (rule parseClutSegment_ok [OF assms])

theorem clut_segment_invariant_witness:
  "yields (\<lambda>dvb'. context_ok (mContext dvb') \<and> mState dvb' = SUB_PLAYING \<and>
      (\<exists>cs. mContext dvb' = demo_context\<lparr>clutList := cs\<rparr>))
    (parseClutSegment (\<lambda>_. True) (mem_of [0, 0, 255, 0x81, 16, 128, 128, 0]) 0 8 (demo_dvb\<lparr>mContext := demo_context\<rparr>))"
  using clut_segment_invariant [of "demo_dvb\<lparr>mContext := demo_context\<rparr>" "\<lambda>_. True"
      "mem_of [0, 0, 255, 0x81, 16, 128, 128, 0]" 0 8] demo_context_ok
  by (simp add: demo_dvb_def)

section \<open>Code strings and pixels\<close>



text \<open>
  C14. The colour conversion, done through a crop table of 2304 bytes, equals the clamped linear
  formula for every byte input: the table is never indexed outside.
\<close>

theorem yuv_to_rgb_clamps:
  assumes "byte_range y" "byte_range cb" "byte_range cr"
  shows "yuv_to_rgb y cb cr = Some
    (clamp8 ((1192 * (y - 16) + 1634 * (cr - 128) + 512) div 1024),
     clamp8 ((1192 * (y - 16) - 401 * (cb - 128) - 832 * (cr - 128) + 512) div 1024),
     clamp8 ((1192 * (y - 16) + 2066 * (cb - 128) + 512) div 1024))"
  using yuv_convert_clamps [OF assms, of 1634 401 832 2066] by (simp add: yuv_to_rgb_def)

theorem yuv_to_rgb_clamps_witness: "yuv_to_rgb 16 128 128 = Some (0, 0, 0) \<and> yuv_to_rgb 235 128 128 = Some (255, 255, 255)"
  using yuv_to_rgb_clamps [of 16 128 128] yuv_to_rgb_clamps [of 235 128 128]
  by (simp add: byte_range_def clamp8_def)

section \<open>Rendering\<close>

text \<open>
  C13. The bounding box the first loop of \<open>saveResult2Spu\<close> computes holds every region of
  the page at the position the loop gives it.
\<close>

theorem layout_box_holds_regions:
  assumes "context_ok ctx" "\<forall>d \<in> set ds. 0 \<le> rd_xPos d" "layout ctx no_box ds = (True, ds', b)"
  shows "covered ctx b ds' \<and> map (\<lambda>d. (rd_regionId d, rd_xPos d)) ds' = map (\<lambda>d. (rd_regionId d, rd_xPos d)) ds"
  using layout_covers [of ctx ds no_box ds' b] context_okD(4) [OF assms(1)] assms(2,3)
  by (simp add: no_box_def)

theorem layout_box_holds_regions_witness:
  "covered demo_context \<lparr>bx_x = 10, bx_y = 20, bx_w = 2, bx_h = 1\<rparr> [\<lparr>rd_regionId = 0, rd_xPos = 10, rd_yPos = 20\<rparr>]"
  using layout_box_holds_regions [OF demo_context_ok, of "[\<lparr>rd_regionId = 0, rd_xPos = 10, rd_yPos = 20\<rparr>]"]
  by (simp add: no_box_def getRegion_def demo_context_def demo_region_def layout_step_def)

text \<open>
  Laying out a page again moves nothing: the loop, which writes the new rows back to
  the page's list and runs again at every end of set, is idempotent.
\<close>

theorem layout_idempotent: "laid_out (laid_out ctx) = laid_out ctx"
proof -
  obtain ok ds b where lay: "layout ctx no_box (displayList ctx) = (ok, ds, b)" by (metis prod_cases3)
  have "layout c b1 xs = layout ctx b1 xs" if "regionList c = regionList ctx" for c b1 xs
  proof (induction xs arbitrary: b1)
    case (Cons d xs)
    have "getRegion c (rd_regionId d) = getRegion ctx (rd_regionId d)" by (simp add: getRegion_def that)
    then show ?case by (simp only: layout.simps Cons.IH)
  qed simp
  from this [of "ctx\<lparr>displayList := ds\<rparr>" no_box ds]
  have eq: "layout (ctx\<lparr>displayList := ds\<rparr>) no_box ds = layout ctx no_box ds" by simp
  have same: "layout (ctx\<lparr>displayList := ds\<rparr>) no_box ds = (ok, ds, b)"
    using layout_again [OF lay] by (simp only: eq)
  have "laid_out ctx = ctx\<lparr>displayList := ds\<rparr>" unfolding laid_out_def lay by simp
  moreover have "laid_out (ctx\<lparr>displayList := ds\<rparr>) = ctx\<lparr>displayList := ds\<rparr>"
    unfolding laid_out_def by (simp add: same)
  ultimately show ?thesis by simp
qed

text \<open>
  C11. Painting a region that lies inside the bitmap sets exactly its pixels, each to
  the four bytes, lowest first, of its CLUT colour, and leaves every other pixel as it was.
\<close>

theorem blit_region_exact:
  assumes "blit_fits r cl w h xo yo" "image_ok w h img"
  shows "yields (\<lambda>img'. image_ok w h img' \<and> (\<forall>px py. 0 \<le> px \<longrightarrow> px < w \<longrightarrow> 0 \<le> py \<longrightarrow> py < h \<longrightarrow>
      pixel_at (snd img') (py * w + px) =
        (if xo \<le> px \<and> px < xo + reg_width r \<and> yo \<le> py \<and> py < yo + reg_height r
         then colour_bytes (region_colour r cl (px - xo) (py - yo)) else pixel_at (snd img) (py * w + px))))
    (blit_region r cl w xo yo img)"
  by (rule yields_mono [OF blit_region_painted [OF assms]]) (auto simp: painted_def)

theorem blit_region_exact_witness:
  "yields (\<lambda>img'. pixel_at (snd img') 0 = [0, 0, 0, 0] \<and>
      pixel_at (snd img') 1 = colour_bytes (region_colour demo_region gDefaultClut 0 0) \<and>
      pixel_at (snd img') 2 = colour_bytes (region_colour demo_region gDefaultClut 1 0))
    (blit_region demo_region gDefaultClut 3 1 0 ([0, 0, 0], replicate 12 0))"
proof -
  have dims: "reg_width demo_region = 2" "reg_height demo_region = 1" by (simp_all add: demo_region_def)
  have fits: "blit_fits demo_region gDefaultClut 3 1 1 0"
    using length_default_clut by (simp add: blit_fits_def region_ok_def demo_region_def)
  have img: "image_ok 3 1 ([0, 0, 0], replicate 12 0)" by (simp add: image_ok_def)
  have old: "pixel_at (replicate 12 0) 0 = [0, 0, 0, 0]" by code_simp
  show ?thesis
  proof (rule yields_mono [OF blit_region_exact [OF fits img]], goal_cases)
    case (1 img')
    note px = conjunct2 [OF 1, rule_format, where py = 0]
    show ?case using px [of 0] px [of 1] px [of 2] old by (simp add: dims)
  qed
qed

end
