(* ===== verification/Dvb_Notify.thy ===== *)
theory Dvb_Notify
  imports Dvb_Decode
begin

text \<open>
  The notification thread of \<open>DvbParser.cpp\<close> (\<open>callbackProcess\<close>) beside the decoder: a
  step relation over the thread's last signal and the shared parser state. The decoder
  publishes units and reports errors at any time; the thread wakes up at any time.
\<close>

inductive notifier_step :: "int \<times> DvbParser \<Rightarrow> int \<times> DvbParser \<Rightarrow> bool" where
  decoded: "notifier_step (signal, dvb) (signal, publish spu dvb)"
| failed: "err \<in> {ERROR_DECODER_LOSEDATA, ERROR_DECODER_INVALIDDATA, ERROR_DECODER_TIMEERROR} \<Longrightarrow>
    notifier_step (signal, dvb) (signal, notifySubtitleErrorInfo err dvb)"
| woken: "notifier_step (signal, dvb) (callback_round signal dvb)"

inductive_cases notifier_stepE: "notifier_step s t"

text \<open>The availability signals that the thread has sent, in order.\<close>

fun signals :: "notice list \<Rightarrow> int list" where
  "signals [] = []"
| "signals (onSubtitleAvailable v # ns) = (if v = 0 \<or> v = 1 then v # signals ns else signals ns)"
| "signals (_ # ns) = signals ns"

fun alternating :: "int list \<Rightarrow> bool" where
  "alternating [] = True"
| "alternating [x] = True"
| "alternating (x # y # zs) = (x \<noteq> y \<and> alternating (y # zs))"

lemma signals_append: "signals (xs @ ys) = signals xs @ signals ys"
  by (induction xs rule: signals.induct) auto

lemma alternating_snoc: "alternating (xs @ [y]) \<longleftrightarrow> alternating xs \<and> (xs = [] \<or> last xs \<noteq> y)"
  by (induction xs rule: alternating.induct) auto

definition notifier_inv :: "int \<times> DvbParser \<Rightarrow> bool" where
  "notifier_inv s \<longleftrightarrow> (let xs = signals (notified (snd s)) in
     alternating xs \<and> set xs \<subseteq> {0, 1} \<and> fst s = (if xs = [] then -1 else last xs))"

lemma publish_signals: "signals (notified (publish spu dvb)) = signals (notified dvb)"
  by (simp add: publish_def notifySubtitleDimension_def addDecodedItem_def notify_def signals_append Let_def)

lemma error_signals:
  "err \<in> {ERROR_DECODER_LOSEDATA, ERROR_DECODER_INVALIDDATA, ERROR_DECODER_TIMEERROR} \<Longrightarrow>
     signals (notified (notifySubtitleErrorInfo err dvb)) = signals (notified dvb)"
  by (auto simp: notifySubtitleErrorInfo_def notify_def signals_append ERROR_DECODER_LOSEDATA_def
      ERROR_DECODER_INVALIDDATA_def ERROR_DECODER_TIMEERROR_def)

lemma notifier_step_inv: "notifier_step s t \<Longrightarrow> notifier_inv s \<Longrightarrow> notifier_inv t"
proof (induction rule: notifier_step.induct)
  case (woken signal dvb)
  then show ?case
    by (auto simp: notifier_inv_def callback_round_def notify_def signals_append alternating_snoc Let_def
        split: if_splits)
qed (simp_all add: notifier_inv_def publish_signals error_signals)

lemma notifier_reachable_inv:
  "notifier_step\<^sup>*\<^sup>* s t \<Longrightarrow> notifier_inv s \<Longrightarrow> notifier_inv t"
  by (induction rule: rtranclp_induct) (auto intro: notifier_step_inv)

text \<open>
  However decoding, errors and wake-ups interleave, the thread's availability
  signals strictly alternate, starting from the decoder's construction.
\<close>

theorem availability_alternates:
  assumes "notifier_step\<^sup>*\<^sup>* (-1, new_dvb) (signal, dvb)"
  shows "alternating (signals (notified dvb)) \<and> set (signals (notified dvb)) \<subseteq> {0, 1}"
proof -
  have "notifier_inv (-1, new_dvb)"
    by (simp add: notifier_inv_def new_dvb_def start_parser_def Parser.defs DvbParser.defs)
  from notifier_reachable_inv [OF assms this] show ?thesis by (simp add: notifier_inv_def Let_def)
qed

theorem availability_alternates_witness:
  "alternating (signals (notified (snd (callback_round (-1) (publish new_spu new_dvb))))) \<and>
   set (signals (notified (snd (callback_round (-1) (publish new_spu new_dvb))))) \<subseteq> {0, 1}"
proof -
  have "notifier_step\<^sup>*\<^sup>* (-1, new_dvb) (callback_round (-1) (publish new_spu new_dvb))"
    using decoded [of "-1" new_dvb new_spu] woken [of "-1" "publish new_spu new_dvb"]
    by (rule converse_rtranclp_into_rtranclp [OF _ r_into_rtranclp])
  then show ?thesis
    using availability_alternates [of "fst (callback_round (-1) (publish new_spu new_dvb))"
        "snd (callback_round (-1) (publish new_spu new_dvb))"] by simp
qed

end
