(* ===== verification/Stream_Properties.thy ===== *)
theory Stream_Properties
  imports Data_Source Parser_Base Bitstream
begin

text \<open>
  The properties of the parts that every decoder shares: the byte queue of the data
  sources, the bit reader, the integers of a packet and the queue of decoded units.
\<close>

section \<open>Data sources\<close>

definition two_buffers :: Source where
  "two_buffers = \<lparr>mSegments = [new_item [3, 4]], mAvailableDataSize = 2, mEnabled = True,
     mCurrentItem = Some (new_item [1, 2]), mStarted = True\<rparr>"

text \<open>
  C17. Reading \<open>n\<close> bytes from a started device source that has at least \<open>n\<close> bytes queued returns
  exactly the next \<open>n\<close> bytes, in order and across buffer boundaries, and leaves exactly the
  others: the queue of buffers refines one byte string.
\<close>

theorem device_read_refines:
  assumes "source_live s" "n < 2 ^ 31" "n \<le> length (source_pending s)"
  shows "yields (\<lambda>(bs, s'). bs = take n (source_pending s) \<and> source_pending s' = drop n (source_pending s) \<and>
    source_live s') (device_read n s)"
  by (rule device.rd_enough [OF assms])

theorem device_read_refines_witness:
  "yields (\<lambda>(bs, s'). bs = [1, 2, 3] \<and> source_pending s' = [4] \<and> source_live s') (device_read 3 two_buffers)"
proof -
  have "source_live two_buffers" "source_pending two_buffers = [1, 2, 3, 4]"
    by (simp_all add: source_live_def source_pending_def two_buffers_def new_item_def item_ok_def item_rest_def)
  with device_read_refines [of two_buffers 3] show ?thesis by simp
qed

lemma find_start_code_Some:
  assumes "find_start_code xs n = Some i"
  shows "i < n \<and> start_code_at xs i \<and> (\<forall>j < i. \<not> start_code_at xs j)"
proof -
  obtain k where "k < n" "start_code_at xs ([0..<n] ! k)" "i = [0..<n] ! k"
      "\<forall>j < k. \<not> start_code_at xs ([0..<n] ! j)"
    using assms by (auto simp: find_start_code_def find_Some_iff)
  then show ?thesis by simp
qed

text \<open>
  A read of the demultiplexer's source stops before the first PES start code it looks at:
  what it returns is then everything up to the start code, which stays next in the buffer.
\<close>

theorem demux_read_stops_at_start_code:
  assumes "item_ok it" "0 < n" "read_check n True it = Some (bs, True, it')"
  shows "item_rest it = bs @ item_rest it' \<and> start_code_at (item_rest it') 0 \<and>
    (\<forall>j < length bs. \<not> start_code_at (item_rest it) j)"
proof -
  let ?k = "need_read n it"
  obtain i where i: "find_start_code (item_rest it) (nat (?k - 4)) = Some i" "item_copy (int i) it = Some (bs, it')"
    using assms(3) by (auto simp: read_check_def Let_def item_rest_def bind_eq_Some_conv split: if_splits option.splits)
  note hit = find_start_code_Some [OF i(1)]
  have bs: "bs = take i (item_rest it)" and rest: "item_rest it' = drop i (item_rest it)"
    using i(2) assms(1)
    by (auto simp: item_copy_def item_rest_def item_ok_def nat_add_distrib add.commute split: if_splits)
  have "length bs \<le> i" using bs by simp
  then show ?thesis using bs rest hit by (simp add: start_code_at_def)
qed

theorem demux_read_stops_at_start_code_witness:
  "item_rest (new_item [7, 0, 0, 1, 0xbd, 9]) = [7] @ item_rest ((new_item [7, 0, 0, 1, 0xbd, 9])\<lparr>mPtr := 1, mRemainSize := 5\<rparr>) \<and>
   start_code_at (item_rest ((new_item [7, 0, 0, 1, 0xbd, 9])\<lparr>mPtr := 1, mRemainSize := 5\<rparr>)) 0 \<and>
   \<not> start_code_at (item_rest (new_item [7, 0, 0, 1, 0xbd, 9])) 0"
proof -
  let ?it = "new_item [7, 0, 0, 1, 0xbd, 9]"
  have "read_check 6 True ?it = Some ([7], True, ?it\<lparr>mPtr := 1, mRemainSize := 5\<rparr>)"
    by code_simp
  moreover have "item_ok ?it" by (simp add: item_ok_def new_item_def)
  ultimately have "item_rest ?it = [7] @ item_rest (?it\<lparr>mPtr := 1, mRemainSize := 5\<rparr>) \<and>
      start_code_at (item_rest (?it\<lparr>mPtr := 1, mRemainSize := 5\<rparr>)) 0 \<and>
      (\<forall>j < length [7 :: u8]. \<not> start_code_at (item_rest ?it) j)"
    by (intro demux_read_stops_at_start_code) simp_all
  then show ?thesis by auto
qed

section \<open>Bits and bytes\<close>

text \<open>
  C19. The bit reader's cache arithmetic reads big-endian bits: \<open>n \<le> 25\<close> bits at any bit
  position are the next \<open>n\<close> bits of the packet, most significant first.
\<close>

theorem get_bits_reads_be_bits:
  assumes "gb_buffer gb = Some b" "0 < n" "n \<le> 25"
  shows "get_bits m gb n = Some (be_bits m b (gb_index gb) n, gb\<lparr>gb_index := gb_index gb + n\<rparr>) \<and>
    get_bits1 m gb = Some (be_bits m b (gb_index gb) 1, gb\<lparr>gb_index := gb_index gb + 1\<rparr>)"
  using get_bits_eq [OF assms] get_bits1_eq [OF assms(1)] by simp

theorem get_bits_reads_be_bits_witness:
  "map_option fst (get_bits (mem_of [0x12, 0x34]) ((init_get_bits 0 16)\<lparr>gb_index := 4\<rparr>) 8)
    = Some (be_bits (mem_of [0x12, 0x34]) 0 4 8)"
  using get_bits_reads_be_bits [of "(init_get_bits 0 16)\<lparr>gb_index := 4\<rparr>" 0 8 "mem_of [0x12, 0x34]"]
  by (simp add: init_get_bits_def Let_def)

text \<open>
  With an unsigned \<open>char\<close> the peeks are the big-endian values of their bytes, modulo
  the width of the result.
\<close>

theorem peeks_are_big_endian:
  "subPeekAsUint32 uint buf = take_bit 32 (be_value (take 4 buf)) \<and>
   subPeekAsInt32 uint buf = signed_take_bit 31 (be_value (take 4 buf)) \<and>
   subPeekAsUint64 uint buf = take_bit 64 (be_value (take 8 buf)) \<and>
   subPeekAsInt64 uint buf = signed_take_bit 63 (be_value (take 8 buf))"
  by (simp add: subPeekAsUint32_def subPeekAsInt32_def subPeekAsUint64_def subPeekAsInt64_def
      peek_unsigned_eq peek_signed_eq)

text \<open>
  C17. The PTS of a PES header is decoded exactly: for every 33-bit time stamp, decoding its
  standard encoding gives it back, whatever the prefix bits.
\<close>

theorem pes_timestamp_roundtrip:
  assumes "0 \<le> t" "t < 2 ^ 33"
  shows "pes_timestamp uint (encode_timestamp prefix t) 0 = t"
  by (rule timestamp_roundtrip [OF assms])

theorem pes_timestamp_roundtrip_witness: "pes_timestamp uint (encode_timestamp 2 0x1ffffffff) 0 = 0x1ffffffff"
  by (rule pes_timestamp_roundtrip) simp_all

section \<open>The queue of decoded units\<close>

text \<open>
  C18. The queue of decoded units is bounded and prefers the newest: adding any units to
  a running parser drops only the oldest ones, never exceeds the maximum, and ends with the
  last unit added.
\<close>

theorem queue_keeps_newest:
  assumes "mState p \<noteq> SUB_STOP" "mState p \<noteq> SUB_EXIT" "0 < mMaxSpuItems p"
    "int (length (mDecodedSpu p)) \<le> mMaxSpuItems p"
  shows "(\<exists>dropped. mDecodedSpu p @ xs = dropped @ mDecodedSpu (fold addDecodedItem xs p)) \<and>
    int (length (mDecodedSpu (fold addDecodedItem xs p))) \<le> mMaxSpuItems p \<and>
    (xs \<noteq> [] \<longrightarrow> last (mDecodedSpu (fold addDecodedItem xs p)) = last xs)"
proof -
  have "int (length (mDecodedSpu (fold addDecodedItem xs p))) \<le> mMaxSpuItems p"
    using assms
  proof (induction xs arbitrary: p)
    case (Cons x xs)
    have "int (length (mDecodedSpu (addDecodedItem x p))) \<le> mMaxSpuItems p"
      by (rule decoded.add_bounded [OF Cons.prems(3,4)])
    moreover have "mState (addDecodedItem x p) = mState p" by (simp add: addDecodedItem_def notify_def Let_def)
    ultimately show ?case using Cons.IH [of "addDecodedItem x p"] Cons.prems by (simp add: decoded.add_frame(2))
  qed simp
  then show ?thesis using decoded.adds_keep_newest [of p xs] assms by simp
qed

theorem queue_keeps_newest_witness:
  "last (mDecodedSpu (fold addDecodedItem (replicate 20 new_spu @ [new_spu\<lparr>pts := 7\<rparr>]) (start_parser 7)))
    = new_spu\<lparr>pts := 7\<rparr> \<and>
   int (length (mDecodedSpu (fold addDecodedItem (replicate 20 new_spu @ [new_spu\<lparr>pts := 7\<rparr>]) (start_parser 7)))) \<le> 20"
  using queue_keeps_newest [of "start_parser 7" "replicate 20 new_spu @ [new_spu\<lparr>pts := 7\<rparr>]"]
  by (simp add: start_parser_def SUB_INIT_def SUB_STOP_def SUB_EXIT_def INTERNAL_MAX_NUMBER_SPU_ITEM_def)

end
