(* ===== verification/Pgs_Context.thy ===== *)
theory Pgs_Context
  imports Packet_Sync Colour Stream_Utils "HOL-Library.Signed_Division"
begin

text \<open>
  The state of \<open>subtitle/parser/PgsParser.cpp\<close> and the parsers of its segments: the
  presentation composition, the palettes and the objects of the current epoch.

  The arrays of the context have a fixed size and a count of used slots; a slot that is not
  used keeps what the last epoch left in it. \<open>std::vector\<close> fields are lists. The text
  of the log (\<open>mDecodeSequenceTracker\<close> and the formatted times) is left out.
\<close>

section \<open>Data\<close>

definition MAX_EPOCH_PALETTES :: int where "MAX_EPOCH_PALETTES = 8"
definition MAX_EPOCH_OBJECTS :: int where "MAX_EPOCH_OBJECTS = 64"
definition MAX_OBJECT_REFS :: int where "MAX_OBJECT_REFS = 2"

lemmas pgs_limits = MAX_EPOCH_PALETTES_def MAX_EPOCH_OBJECTS_def MAX_OBJECT_REFS_def

record AVSubtitleRect =
  rect_x :: int
  rect_y :: int
  rect_w :: int
  rect_h :: int
  rect_palette :: "u32 list"
  decodedRle :: "u8 list option"
  decodedRleSize :: int
  rect_bitmap :: "u8 list option"
  bitmapSize :: int
  is_valid :: bool
  is_forced_display :: bool
  object_segment_id :: int

record PGSSubObjectRef =
  ref_id :: int
  window_id :: int
  composition_flag :: int
  ref_x :: int
  ref_y :: int
  crop_x :: int
  crop_y :: int
  crop_w :: int
  crop_h :: int

record PGSSubPresentation =
  videoWidth :: int
  videoHeight :: int
  id_number :: int
  palette_id :: int
  object_count :: int
  object_refs :: "PGSSubObjectRef list"
  pres_pts :: int
  present_sub_rect :: "AVSubtitleRect list"

record PGSSubObject =
  pgs_id :: int
  pgs_w :: int
  pgs_h :: int
  rle :: "u8 list"
  rle_buffer_size :: int
  rle_data_len :: int
  rle_remaining_len :: int

record PGSSubObjects =
  objects_count :: int
  objects_array :: "PGSSubObject list"

record PGSSubPalette =
  pal_id :: int
  argb :: "u32 list"

record PGSSubPalettes =
  palettes_count :: int
  palettes_array :: "PGSSubPalette list"

record PGSSubContext =
  presentation :: PGSSubPresentation
  palettes :: PGSSubPalettes
  objects :: PGSSubObjects

text \<open>\<open>memset(&mPgsContext, 0, sizeof(PGSSubContext))\<close>.\<close>

definition zero_rect :: AVSubtitleRect where
  "zero_rect = \<lparr>rect_x = 0, rect_y = 0, rect_w = 0, rect_h = 0, rect_palette = replicate 256 0,
     decodedRle = None, decodedRleSize = 0, rect_bitmap = None, bitmapSize = 0, is_valid = False,
     is_forced_display = False, object_segment_id = 0\<rparr>"

definition zero_pgs :: PGSSubContext where
  "zero_pgs = \<lparr>presentation = \<lparr>videoWidth = 0, videoHeight = 0, id_number = 0, palette_id = 0,
       object_count = 0, object_refs = replicate 2 \<lparr>ref_id = 0, window_id = 0, composition_flag = 0,
         ref_x = 0, ref_y = 0, crop_x = 0, crop_y = 0, crop_w = 0, crop_h = 0\<rparr>,
       pres_pts = 0, present_sub_rect = replicate 2 zero_rect\<rparr>,
     palettes = \<lparr>palettes_count = 0,
       palettes_array = replicate 8 \<lparr>pal_id = 0, argb = replicate 256 0\<rparr>\<rparr>,
     objects = \<lparr>objects_count = 0, objects_array = replicate 64
       \<lparr>pgs_id = 0, pgs_w = 0, pgs_h = 0, rle = [], rle_buffer_size = 0, rle_data_len = 0,
        rle_remaining_len = 0\<rparr>\<rparr>\<rparr>"

section \<open>Lookups\<close>

text \<open>The slot of the first used entry with an id.\<close>

definition find_slot :: "('a \<Rightarrow> int) \<Rightarrow> int \<Rightarrow> int \<Rightarrow> 'a list \<Rightarrow> nat option" where
  "find_slot key ident count xs = find (\<lambda>i. key (xs ! i) = ident) [0..<nat count]"

definition findObject :: "int \<Rightarrow> PGSSubObjects \<Rightarrow> nat option" where
  "findObject ident os = find_slot pgs_id ident (objects_count os) (objects_array os)"

definition findPalette :: "int \<Rightarrow> PGSSubPalettes \<Rightarrow> nat option" where
  "findPalette ident ps = find_slot pal_id ident (palettes_count ps) (palettes_array ps)"

definition flushPgsContext :: "PGSSubContext \<Rightarrow> PGSSubContext" where
  "flushPgsContext ctx =
     (let n = nat (objects_count (objects ctx));
          os = map (\<lambda>ob. ob\<lparr>rle := [], rle_buffer_size := 0, rle_remaining_len := 0\<rparr>)
                 (take n (objects_array (objects ctx))) @ drop n (objects_array (objects ctx))
      in ctx\<lparr>objects := \<lparr>objects_count = 0, objects_array = os\<rparr>,
             palettes := (palettes ctx)\<lparr>palettes_count := 0\<rparr>\<rparr>)"

section \<open>Presentation composition segments\<close>

abbreviation be16 :: "mem \<Rightarrow> nat \<Rightarrow> int" where "be16 m p \<equiv> fst (bytestream_get_be16 m p)"
abbreviation be24 :: "mem \<Rightarrow> nat \<Rightarrow> int" where "be24 m p \<equiv> fst (bytestream_get_be24 m p)"
abbreviation be32 :: "mem \<Rightarrow> nat \<Rightarrow> int" where "be32 m p \<equiv> fst (bytestream_get_be32 m p)"

text \<open>One reference; the optional crop rectangle is read without a look at the end.\<close>

definition read_ref :: "mem \<Rightarrow> nat \<Rightarrow> PGSSubObjectRef \<Rightarrow> PGSSubObjectRef \<times> nat" where
  "read_ref m buf r =
     (let r = r\<lparr>ref_id := be16 m buf, window_id := byte_at m (buf + 2),
            composition_flag := byte_at m (buf + 3),
            ref_x := be16 m (buf + 4), ref_y := be16 m (buf + 6)\<rparr>
      in if composition_flag r AND 0x80 \<noteq> 0
         then (r\<lparr>crop_x := be16 m (buf + 8), crop_y := be16 m (buf + 10),
                 crop_w := be16 m (buf + 12), crop_h := be16 m (buf + 14)\<rparr>, buf + 16)
         else (r, buf + 8))"

text \<open>The loop over the references, from index \<open>i\<close>, with \<open>n\<close> of them left.\<close>

fun read_refs :: "mem \<Rightarrow> nat \<Rightarrow> nat \<Rightarrow> nat \<Rightarrow> nat \<Rightarrow> PGSSubPresentation \<Rightarrow> PGSSubPresentation" where
  "read_refs m bufEnd buf i 0 p = p"
| "read_refs m bufEnd buf i (Suc n) p =
     (if int bufEnd - int buf < 8 then p\<lparr>object_count := int i\<rparr>
      else
        let (r, buf) = read_ref m buf (object_refs p ! i) in
        if ref_x r > videoWidth p \<or> ref_y r > videoHeight p
        then p\<lparr>object_refs := (object_refs p)[i := r\<lparr>ref_x := 0, ref_y := 0\<rparr>]\<rparr>
        else read_refs m bufEnd buf (i + 1) n (p\<lparr>object_refs := (object_refs p)[i := r]\<rparr>))"

definition parsePresentationSegment :: "mem \<Rightarrow> nat \<Rightarrow> nat \<Rightarrow> PGSSubContext \<Rightarrow> PGSSubContext" where
  "parsePresentationSegment m buf buf_size ctx =
     (let ctx = ctx\<lparr>presentation := (presentation ctx)\<lparr>videoWidth := be16 m buf,
            videoHeight := be16 m (buf + 2), id_number := be16 m (buf + 5)\<rparr>\<rparr>;
          state = drop_bit 6 (byte_at m (buf + 7));
          ctx = (if state \<noteq> 0 then flushPgsContext ctx else ctx);
          p = (presentation ctx)\<lparr>palette_id := byte_at m (buf + 9), object_count := byte_at m (buf + 10)\<rparr>
      in if object_count p > MAX_OBJECT_REFS
         then ctx\<lparr>presentation := p\<lparr>object_count := 2\<rparr>\<rparr>
         else ctx\<lparr>presentation :=
           read_refs m (buf + buf_size) (buf + 11) 0 (nat (object_count p)) p\<rparr>)"

section \<open>Palette definition segments\<close>

definition ARGB :: "int \<Rightarrow> int \<Rightarrow> int \<Rightarrow> int \<Rightarrow> u32" where
  "ARGB r g b a = word_of_int (((push_bit 24 a OR push_bit 16 r) OR push_bit 8 g) OR b)"

function palette_entries :: "bool \<Rightarrow> mem \<Rightarrow> nat \<Rightarrow> nat \<Rightarrow> u32 list \<Rightarrow> u32 list option" where
  "palette_entries bt709 m bufEnd buf colours =
     (if buf < bufEnd then
        let y = byte_at m (buf + 1); cr = byte_at m (buf + 2);
            cb = byte_at m (buf + 3); alpha = byte_at m (buf + 4)
        in do {
        (r, g, b) \<leftarrow> (if bt709 then yuv_to_rgb_bt709 y cb cr else yuv_to_rgb y cb cr);
        colours \<leftarrow> store colours (byte_at m buf) (ARGB r g b alpha);
        palette_entries bt709 m bufEnd (buf + 5) colours }
      else Some colours)"
  by pat_completeness auto
termination
  by (relation "measure (\<lambda>(bt709, m, bufEnd, buf, colours). bufEnd - buf)") auto

declare palette_entries.simps [simp del]

text \<open>The palette with an id, found or entered in the next free slot; \<open>None\<close> when all are used.\<close>

definition enter_palette :: "int \<Rightarrow> PGSSubPalettes \<Rightarrow> (nat \<times> PGSSubPalettes) option" where
  "enter_palette ident ps =
     (case findPalette ident ps of
        Some i \<Rightarrow> Some (i, ps)
      | None \<Rightarrow>
          if palettes_count ps \<ge> MAX_EPOCH_PALETTES then None
          else let i = nat (palettes_count ps) in
            Some (i, ps\<lparr>palettes_count := palettes_count ps + 1,
              palettes_array := (palettes_array ps)[i := (palettes_array ps ! i)\<lparr>pal_id := ident\<rparr>]\<rparr>))"

definition parsePaletteSegment :: "mem \<Rightarrow> nat \<Rightarrow> nat \<Rightarrow> PGSSubContext \<Rightarrow> PGSSubContext option" where
  "parsePaletteSegment m buf buf_size ctx =
     (case enter_palette (byte_at m buf) (palettes ctx) of
        None \<Rightarrow> Some ctx
      | Some (i, ps) \<Rightarrow>
          let height = videoHeight (presentation ctx); pal = palettes_array ps ! i in do {
            colours \<leftarrow> palette_entries (height \<le> 0 \<or> height > 576) m (buf + buf_size) (buf + 2) (argb pal);
            Some (ctx\<lparr>palettes := ps\<lparr>palettes_array := (palettes_array ps)[i := pal\<lparr>argb := colours\<rparr>]\<rparr>\<rparr>) })"

section \<open>Object definition segments\<close>

definition bytes_at :: "mem \<Rightarrow> nat \<Rightarrow> nat \<Rightarrow> u8 list" where
  "bytes_at m buf n = map (\<lambda>i. m (buf + i)) [0..<n]"

definition enter_pgs_object :: "int \<Rightarrow> PGSSubObjects \<Rightarrow> (nat \<times> PGSSubObjects) option" where
  "enter_pgs_object ident os =
     (case findObject ident os of
        Some i \<Rightarrow> Some (i, os)
      | None \<Rightarrow>
          if objects_count os \<ge> MAX_EPOCH_OBJECTS then None
          else let i = nat (objects_count os) in
            Some (i, os\<lparr>objects_count := objects_count os + 1,
              objects_array := (objects_array os)[i := (objects_array os ! i)\<lparr>pgs_id := ident\<rparr>]\<rparr>))"

text \<open>More RLE data for the object, at \<open>buf\<close>; the flag says whether the segment was taken.\<close>

definition append_rle :: "'a env_scheme \<Rightarrow> mem \<Rightarrow> nat \<Rightarrow> int \<Rightarrow> PGSSubObject \<Rightarrow> (bool \<times> PGSSubObject) option" where
  "append_rle E m buf buf_size ob =
     (if buf_size > rle_remaining_len ob then Some (False, ob)
      else
        let ob = ob\<lparr>rle := rle ob @ bytes_at m buf (nat buf_size),
                    rle_data_len := u32_of (rle_data_len ob + buf_size)\<rparr>
        in do {
          assert_that E (int (length (rle ob)) = rle_data_len ob);
          Some (True, ob\<lparr>rle_remaining_len := u32_of (rle_remaining_len ob - buf_size)\<rparr>) })"

text \<open>The first RLE data of an object: its length, its dimensions and the bytes at \<open>buf + 7\<close>.\<close>

definition start_rle :: "PGSSubPresentation \<Rightarrow> mem \<Rightarrow> nat \<Rightarrow> int \<Rightarrow> PGSSubObject \<Rightarrow> bool \<times> PGSSubObject" where
  "start_rle p m buf buf_size ob =
     (if buf_size \<le> 7 then (False, ob)
      else
        let buf_size = buf_size - 7; rle_bitmap_len = u32_of (be24 m buf - 2 * 2);
            width = be16 m (buf + 3); height = be16 m (buf + 5)
        in if buf_size > rle_bitmap_len then (False, ob)
           else if u32_of (videoWidth p) < width \<or> u32_of (videoHeight p) < height \<or> width = 0 \<or> height = 0
           then (False, ob)
           else (True, ob\<lparr>pgs_w := width, pgs_h := height, rle := bytes_at m (buf + 7) (nat buf_size),
                  rle_data_len := buf_size, rle_remaining_len := rle_bitmap_len - buf_size\<rparr>))"

definition parsePgsObject :: "'a env_scheme \<Rightarrow> mem \<Rightarrow> nat \<Rightarrow> nat \<Rightarrow> PGSSubContext \<Rightarrow> (int \<times> PGSSubContext) option" where
  "parsePgsObject E m buf seg_size ctx =
     (if seg_size \<le> 4 then Some (-1, ctx)
      else
        let buf_size = int seg_size - 4; ident = be16 m buf in
        (case enter_pgs_object ident (objects ctx) of
           None \<Rightarrow> Some (-1, ctx)
         | Some (i, os) \<Rightarrow> do {
             (ok, ob) \<leftarrow> (if byte_at m (buf + 3) AND 0x80 = 0
                then append_rle E m (buf + 4) buf_size (objects_array os ! i)
                else Some (start_rle (presentation ctx) m (buf + 4) buf_size (objects_array os ! i)));
             Some (if ok then pgs_id ob else -1,
                   ctx\<lparr>objects := os\<lparr>objects_array := (objects_array os)[i := ob]\<rparr>\<rparr>) }))"

section \<open>Tables of slots\<close>

text \<open>
  The palettes and the objects share one contract: an array with a count of used slots, a
  lookup by id over them, and a lookup that enters a missing id while there is room.
\<close>

definition table_ok :: "int \<Rightarrow> int \<Rightarrow> 'a list \<Rightarrow> bool" where
  "table_ok limit count xs \<longleftrightarrow> 0 \<le> count \<and> count \<le> limit \<and> int (length xs) = limit"

locale slot_table =
  fixes key :: "'a \<Rightarrow> int" and count :: "'t \<Rightarrow> int" and slots :: "'t \<Rightarrow> 'a list" and limit :: int
    and lookup :: "int \<Rightarrow> 't \<Rightarrow> nat option" and enter :: "int \<Rightarrow> 't \<Rightarrow> (nat \<times> 't) option"
  assumes lookup_slot: "lookup k t = find_slot key k (count t) (slots t)"
    and enter_found: "lookup k t = Some i \<Longrightarrow> enter k t = Some (i, t)"
    and enter_full: "lookup k t = None \<Longrightarrow> limit \<le> count t \<Longrightarrow> enter k t = None"
    and enter_new: "lookup k t = None \<Longrightarrow> count t < limit \<Longrightarrow>
      \<exists>t' x. enter k t = Some (nat (count t), t') \<and> count t' = count t + 1 \<and>
        key x = k \<and> slots t' = (slots t)[nat (count t) := x]"
begin

lemma lookup_SomeD:
  assumes "lookup k t = Some i"
  shows "i < nat (count t) \<and> key (slots t ! i) = k"
proof -
  obtain j where "j < nat (count t)" "key (slots t ! ([0..<nat (count t)] ! j)) = k" "i = [0..<nat (count t)] ! j"
    using assms by (auto simp: lookup_slot find_slot_def find_Some_iff)
  then show ?thesis by simp
qed

lemma lookup_NoneD: "lookup k t = None \<Longrightarrow> i < nat (count t) \<Longrightarrow> key (slots t ! i) \<noteq> k"
  by (auto simp: lookup_slot find_slot_def find_None_iff)

lemma lookup_first:
  assumes "i < nat (count t)" "key (slots t ! i) = k" "\<forall>j < i. key (slots t ! j) \<noteq> k"
  shows "lookup k t = Some i"
  unfolding lookup_slot find_slot_def find_Some_iff using assms by (intro exI [of _ i]) simp

lemma enter_SomeD:
  assumes "enter k t = Some (i, t')" "table_ok limit (count t) (slots t)"
  shows "table_ok limit (count t') (slots t') \<and> count t \<le> count t' \<and> i < nat (count t') \<and>
    key (slots t' ! i) = k \<and> lookup k t' = Some i \<and> (\<forall>j. j \<noteq> i \<longrightarrow> slots t' ! j = slots t ! j)"
proof (cases "lookup k t")
  case (Some j)
  with assms show ?thesis using enter_found [OF Some] lookup_SomeD [OF Some] by auto
next
  case None
  then have lt: "count t < limit" using assms(1) enter_full [OF None] by fastforce
  from enter_new [OF None lt] obtain t1 x where
    new: "enter k t = Some (nat (count t), t1)" "count t1 = count t + 1" "key x = k"
      "slots t1 = (slots t)[nat (count t) := x]" by blast
  then have i: "i = nat (count t)" "t' = t1" using assms(1) by auto
  have len: "nat (count t) < length (slots t)" using assms(2) lt by (simp add: table_ok_def nat_less_iff)
  have old: "\<forall>j < nat (count t). key (slots t1 ! j) \<noteq> k"
    using lookup_NoneD [OF None] new(4) by simp
  have at: "slots t1 ! nat (count t) = x" using new(4) len by simp
  have "lookup k t1 = Some (nat (count t))"
    using old at new(2,3) assms(2) by (intro lookup_first) (auto simp: table_ok_def)
  then show ?thesis
    using i new at lt assms(2) by (auto simp: table_ok_def)
qed

lemma enter_other:
  assumes "enter k t = Some (i, t')" "table_ok limit (count t) (slots t)" "k' \<noteq> k"
  shows "lookup k' t' = lookup k' t"
proof (cases "lookup k t")
  case (Some j)
  with assms show ?thesis using enter_found [OF Some] by simp
next
  case None
  then have lt: "count t < limit" using assms(1) enter_full [OF None] by fastforce
  from enter_new [OF None lt] obtain t1 x where
    new: "enter k t = Some (nat (count t), t1)" "count t1 = count t + 1" "key x = k"
      "slots t1 = (slots t)[nat (count t) := x]" by blast
  have t': "t' = t1" using assms(1) new(1) by simp
  have len: "nat (count t) < length (slots t)" "0 \<le> count t" using assms(2) lt by (simp_all add: table_ok_def nat_less_iff)
  have up: "[0..<nat (count t1)] = [0..<nat (count t)] @ [nat (count t)]"
    using new(2) len by (simp add: nat_add_distrib)
  have "find (\<lambda>i. key (slots t1 ! i) = k') [0..<nat (count t)] = find (\<lambda>i. key (slots t ! i) = k') [0..<nat (count t)]"
    using new(4) by (intro find_cong) auto
  moreover have "key (slots t1 ! nat (count t)) \<noteq> k'" using new(3,4) len assms(3) by simp
  moreover have "find P (xs @ [y]) = find P xs" if "\<not> P y" for P :: "nat \<Rightarrow> bool" and xs y
    using that by (induction xs) auto
  ultimately show ?thesis unfolding lookup_slot find_slot_def t' up by simp
qed

end

interpretation palette_table: slot_table pal_id palettes_count palettes_array MAX_EPOCH_PALETTES findPalette enter_palette
  by unfold_locales (auto simp: findPalette_def enter_palette_def Let_def split: option.splits
      intro: exI [of _ "(palettes_array t ! nat (palettes_count t))\<lparr>pal_id := k\<rparr>" for t k])

interpretation object_table: slot_table pgs_id objects_count objects_array MAX_EPOCH_OBJECTS findObject enter_pgs_object
  by unfold_locales (auto simp: findObject_def enter_pgs_object_def Let_def split: option.splits
      intro: exI [of _ "(objects_array t ! nat (objects_count t))\<lparr>pgs_id := k\<rparr>" for t k])

end
