(* ===== verification/Pgs_Invariant.thy ===== *)
theory Pgs_Invariant
  imports Pgs_Context
begin

text \<open>
  The invariant of the PGS context and its preservation by the segment parsers. The RLE
  bookkeeping of an object is consistent as long as data is missing; that is what the
  parser's \<open>assert\<close> relies on.
\<close>

section \<open>The invariant\<close>

definition rle_ok :: "PGSSubObject \<Rightarrow> bool" where
  "rle_ok ob \<longleftrightarrow> 0 \<le> rle_remaining_len ob \<and>
     (rle_remaining_len ob \<noteq> 0 \<longrightarrow> int (length (rle ob)) = rle_data_len ob \<and>
        rle_data_len ob + rle_remaining_len ob < 2 ^ 32 \<and> rle ob \<noteq> []) \<and>
     (rle ob \<noteq> [] \<longrightarrow> 0 < pgs_w ob \<and> pgs_w ob \<le> 65535 \<and> 0 < pgs_h ob \<and> pgs_h ob \<le> 65535)"

text \<open>A slot that is not in use is empty: that is what a new object finds.\<close>

definition objects_ok :: "PGSSubObjects \<Rightarrow> bool" where
  "objects_ok os \<longleftrightarrow> table_ok MAX_EPOCH_OBJECTS (objects_count os) (objects_array os) \<and>
     (\<forall>i < 64. rle_ok (objects_array os ! i) \<and>
        (nat (objects_count os) \<le> i \<longrightarrow> rle (objects_array os ! i) = [] \<and> rle_remaining_len (objects_array os ! i) = 0))"

definition palettes_ok :: "PGSSubPalettes \<Rightarrow> bool" where
  "palettes_ok ps \<longleftrightarrow> table_ok MAX_EPOCH_PALETTES (palettes_count ps) (palettes_array ps) \<and>
     (\<forall>i < 8. length (argb (palettes_array ps ! i)) = 256)"

definition presentation_ok :: "PGSSubPresentation \<Rightarrow> bool" where
  "presentation_ok p \<longleftrightarrow> 0 \<le> videoWidth p \<and> videoWidth p \<le> 65535 \<and> 0 \<le> videoHeight p \<and> videoHeight p \<le> 65535 \<and>
     0 \<le> object_count p \<and> object_count p \<le> MAX_OBJECT_REFS \<and> length (object_refs p) = 2 \<and>
     present_sub_rect p = replicate 2 zero_rect"

definition pgs_ok :: "PGSSubContext \<Rightarrow> bool" where
  "pgs_ok ctx \<longleftrightarrow> presentation_ok (presentation ctx) \<and> palettes_ok (palettes ctx) \<and> objects_ok (objects ctx)"

lemma zero_pgs_ok: "pgs_ok zero_pgs"
  by (simp add: pgs_ok_def presentation_ok_def palettes_ok_def objects_ok_def zero_pgs_def table_ok_def
      rle_ok_def pgs_limits)

section \<open>Values of a packet\<close>

lemma be16_eq: "be16 m p = 256 * byte_at m p + byte_at m (p + 1)"
  using or_bytes [of "m p" "m (p + 1)"] by (simp add: bytestream_get_be16_def byte_at_def or.commute)

lemma be16_range [simp]: "0 \<le> be16 m p" "be16 m p \<le> 65535" "be16 m p < 65536"
  using byte_at_range [of m p] byte_at_range [of m "p + 1"] unfolding be16_eq by linarith+

lemma u32_of_range [simp]: "0 \<le> u32_of x" "u32_of x < 2 ^ 32"
  by (simp_all add: u32_of_def)

section \<open>Preservation\<close>

lemma flush_ok: "pgs_ok ctx \<Longrightarrow> pgs_ok (flushPgsContext ctx)"
proof -
  assume ok: "pgs_ok ctx"
  let ?os = "objects ctx" and ?os' = "objects (flushPgsContext ctx)"
  have cnt: "0 \<le> objects_count ?os" "objects_count ?os \<le> 64" "length (objects_array ?os) = 64"
    using ok by (simp_all add: pgs_ok_def objects_ok_def table_ok_def pgs_limits)
  have each: "rle_ok (objects_array ?os' ! i) \<and> rle (objects_array ?os' ! i) = [] \<and>
      rle_remaining_len (objects_array ?os' ! i) = 0" if "i < 64" for i
  proof (cases "i < nat (objects_count ?os)")
    case True
    then show ?thesis using cnt that
      by (simp add: flushPgsContext_def Let_def nth_append rle_ok_def)
  next
    case False
    then have "objects_array ?os' ! i = objects_array ?os ! i"
      using cnt that by (simp add: flushPgsContext_def Let_def nth_append min_def)
    then show ?thesis using ok that False by (simp add: pgs_ok_def objects_ok_def)
  qed
  have "length (objects_array ?os') = 64" "objects_count ?os' = 0"
    using cnt by (simp_all add: flushPgsContext_def Let_def)
  then have "objects_ok ?os'" using each by (simp add: objects_ok_def table_ok_def pgs_limits)
  moreover have "palettes_ok (palettes (flushPgsContext ctx))"
    using ok by (simp add: pgs_ok_def palettes_ok_def table_ok_def flushPgsContext_def Let_def pgs_limits)
  moreover have "presentation (flushPgsContext ctx) = presentation ctx"
    by (simp add: flushPgsContext_def Let_def)
  ultimately show ?thesis using ok by (simp add: pgs_ok_def)
qed

lemma read_refs_ok:
  "presentation_ok p \<Longrightarrow> int i + int n = object_count p \<Longrightarrow> presentation_ok (read_refs m e buf i n p)"
proof (induction n arbitrary: i buf p)
  case (Suc n)
  let ?rb = "read_ref m buf (object_refs p ! i)"
  have "presentation_ok (p\<lparr>object_count := int i\<rparr>)"
    using Suc.prems by (simp add: presentation_ok_def)
  moreover have upd: "presentation_ok (p\<lparr>object_refs := (object_refs p)[i := r]\<rparr>)" for r
    using Suc.prems(1) by (simp add: presentation_ok_def)
  moreover have "presentation_ok (read_refs m e b (i + 1) n (p\<lparr>object_refs := (object_refs p)[i := r]\<rparr>))" for b r
    using Suc.prems(2) by (intro Suc.IH upd) simp
  ultimately show ?case by (simp add: split_beta Let_def)
qed simp

lemma parsePresentation_ok:
  assumes "pgs_ok ctx"
  shows "pgs_ok (parsePresentationSegment m buf n ctx)"
proof -
  let ?c1 = "ctx\<lparr>presentation := (presentation ctx)\<lparr>videoWidth := be16 m buf,
      videoHeight := be16 m (buf + 2), id_number := be16 m (buf + 5)\<rparr>\<rparr>"
  let ?c2 = "if drop_bit 6 (byte_at m (buf + 7)) \<noteq> 0 then flushPgsContext ?c1 else ?c1"
  have "pgs_ok ?c1" using assms by (simp add: pgs_ok_def presentation_ok_def)
  then have c2: "pgs_ok ?c2" using flush_ok by simp
  let ?p = "(presentation ?c2)\<lparr>palette_id := byte_at m (buf + 9), object_count := byte_at m (buf + 10)\<rparr>"
  have "presentation_ok (?p\<lparr>object_count := 2\<rparr>)"
    using c2 by (simp add: pgs_ok_def presentation_ok_def pgs_limits)
  moreover have "presentation_ok (read_refs m (buf + n) (buf + 11) 0 (nat (object_count ?p)) ?p)"
    if "\<not> object_count ?p > MAX_OBJECT_REFS"
    using c2 that by (intro read_refs_ok) (auto simp: pgs_ok_def presentation_ok_def)
  ultimately have "pgs_ok (?c2\<lparr>presentation := q\<rparr>)"
    if "q = (if object_count ?p > MAX_OBJECT_REFS then ?p\<lparr>object_count := 2\<rparr>
        else read_refs m (buf + n) (buf + 11) 0 (nat (object_count ?p)) ?p)" for q
    using c2 that by (simp add: pgs_ok_def)
  from this [OF refl] show ?thesis
    unfolding parsePresentationSegment_def Let_def by (simp split: if_splits)
qed

lemma palette_entries_yields:
  "length colours = 256 \<Longrightarrow> yields (\<lambda>cs. length cs = 256) (palette_entries bt709 m e buf colours)"
proof (induction bt709 m e buf colours rule: palette_entries.induct)
  case (1 bt709 m e buf colours)
  let ?rgb = "if bt709 then yuv_to_rgb_bt709 (byte_at m (buf + 1)) (byte_at m (buf + 3)) (byte_at m (buf + 2))
    else yuv_to_rgb (byte_at m (buf + 1)) (byte_at m (buf + 3)) (byte_at m (buf + 2))"
  have "yields (\<lambda>_. True) ?rgb"
    using yuv_to_rgb_yields [of "byte_at m (buf + 1)" "byte_at m (buf + 3)" "byte_at m (buf + 2)"]
    by (auto simp: byte_range_def elim: yields_mono)
  then obtain r g b where rgb: "?rgb = Some (r, g, b)" by (auto elim!: yieldsE)
  show ?case
    using 1 rgb by (subst palette_entries.simps) (auto simp: Let_def store_def)
qed

lemma parsePalette_ok:
  assumes "pgs_ok ctx"
  shows "yields (\<lambda>c. pgs_ok c \<and> presentation c = presentation ctx \<and> objects c = objects ctx)
    (parsePaletteSegment m buf n ctx)"
proof (cases "enter_palette (byte_at m buf) (palettes ctx)")
  case None
  with assms show ?thesis by (simp add: parsePaletteSegment_def)
next
  case (Some a)
  obtain i ps where a: "enter_palette (byte_at m buf) (palettes ctx) = Some (i, ps)" using Some by (cases a) simp
  have tab: "table_ok MAX_EPOCH_PALETTES (palettes_count (palettes ctx)) (palettes_array (palettes ctx))"
    using assms by (simp add: pgs_ok_def palettes_ok_def)
  note ent = palette_table.enter_SomeD [OF a tab]
  have i: "i < 8" using ent by (auto simp: table_ok_def pgs_limits)
  have lens: "\<forall>j < 8. length (argb (palettes_array ps ! j)) = 256"
  proof (intro allI impI)
    fix j :: nat assume "j < 8"
    show "length (argb (palettes_array ps ! j)) = 256"
    proof (cases "j = i")
      case True
      have "argb (palettes_array ps ! i) = argb (palettes_array (palettes ctx) ! i)"
        using a i tab by (auto simp: enter_palette_def Let_def table_ok_def pgs_limits split: option.splits if_splits)
      with True \<open>j < 8\<close> assms show ?thesis by (simp add: pgs_ok_def palettes_ok_def)
    next
      case False
      with ent \<open>j < 8\<close> assms show ?thesis by (simp add: pgs_ok_def palettes_ok_def)
    qed
  qed
  have "palettes_ok (ps\<lparr>palettes_array := (palettes_array ps)[i := (palettes_array ps ! i)\<lparr>argb := cs\<rparr>]\<rparr>)"
    if "length cs = 256" for cs
    using ent lens that i by (auto simp: palettes_ok_def table_ok_def nth_list_update pgs_limits)
  then show ?thesis
    using assms lens i
    by (auto simp: parsePaletteSegment_def a Let_def pgs_ok_def yields_bind_iff
        intro!: yields_mono [OF palette_entries_yields])
qed

lemma append_rle_yields:
  assumes "rle_ok ob" "0 < n"
  shows "yields (\<lambda>(ok, ob'). rle_ok ob' \<and> pgs_id ob' = pgs_id ob) (append_rle E m buf n ob)"
proof (cases "n > rle_remaining_len ob")
  case True
  with assms show ?thesis by (simp add: append_rle_def)
next
  case False
  then have rem: "rle_remaining_len ob \<noteq> 0" using assms(2) by simp
  then have sum: "int (length (rle ob)) = rle_data_len ob" "rle_data_len ob + rle_remaining_len ob < 2 ^ 32"
    using assms(1) by (simp_all add: rle_ok_def)
  have u: "u32_of (rle_data_len ob + n) = rle_data_len ob + n" "u32_of (rle_remaining_len ob - n) = rle_remaining_len ob - n"
    using False sum assms(2) by (auto intro!: u32_of_id)
  have len: "int (length (rle ob @ bytes_at m buf (nat n))) = rle_data_len ob + n"
    using sum(1) assms(2) by (simp add: bytes_at_def)
  show ?thesis
    using False assms sum u len by (auto simp: append_rle_def Let_def rle_ok_def)
qed

lemma start_rle_ok:
  assumes "rle_ok ob" "start_rle p m buf n ob = (ok, ob')"
  shows "rle_ok ob' \<and> pgs_id ob' = pgs_id ob"
proof (cases ok)
  case False
  with assms show ?thesis by (auto simp: start_rle_def Let_def split: if_splits)
next
  case True
  let ?len = "u32_of (be24 m buf - 2 * 2)"
  have n: "7 < n" "n - 7 \<le> ?len" "be16 m (buf + 3) \<noteq> 0" "be16 m (buf + 5) \<noteq> 0"
    and ob': "ob' = ob\<lparr>pgs_w := be16 m (buf + 3), pgs_h := be16 m (buf + 5),
      rle := bytes_at m (buf + 7) (nat (n - 7)), rle_data_len := n - 7, rle_remaining_len := ?len - (n - 7)\<rparr>"
    using assms(2) True by (auto simp: start_rle_def Let_def not_less split: if_splits)
  have "0 < be16 m (buf + 3)" "0 < be16 m (buf + 5)"
    using n(3,4) be16_range(1) [of m "buf + 3"] be16_range(1) [of m "buf + 5"] by linarith+
  then show ?thesis
    unfolding ob' using n u32_of_range [of "be24 m buf - 2 * 2"] by (simp add: rle_ok_def bytes_at_def)
qed

lemma parseObject_ok:
  assumes "pgs_ok ctx"
  shows "yields (\<lambda>(r, c). pgs_ok c \<and> presentation c = presentation ctx \<and> palettes c = palettes ctx)
    (parsePgsObject E m buf n ctx)"
proof (cases "n \<le> 4 \<or> enter_pgs_object (be16 m buf) (objects ctx) = None")
  case True
  with assms show ?thesis by (auto simp: parsePgsObject_def Let_def)
next
  case False
  then obtain i os where a: "enter_pgs_object (be16 m buf) (objects ctx) = Some (i, os)" by auto
  have ok: "objects_ok (objects ctx)" using assms by (simp add: pgs_ok_def)
  then have tab: "table_ok MAX_EPOCH_OBJECTS (objects_count (objects ctx)) (objects_array (objects ctx))"
    by (simp add: objects_ok_def)
  note ent = object_table.enter_SomeD [OF a tab]
  have i: "i < 64" "i < nat (objects_count os)" using ent by (auto simp: table_ok_def pgs_limits)
  have slot: "rle_ok (objects_array os ! i)"
  proof -
    have "\<exists>k. objects_array os ! i = (objects_array (objects ctx) ! i)\<lparr>pgs_id := k\<rparr>"
      using a i tab
      by (auto simp: enter_pgs_object_def Let_def table_ok_def pgs_limits nat_less_iff split: option.splits if_splits
          intro: exI [of _ "pgs_id (objects_array (objects ctx) ! i)"])
    then show ?thesis using ok i by (auto simp: objects_ok_def rle_ok_def)
  qed
  have put: "pgs_ok (ctx\<lparr>objects := os\<lparr>objects_array := (objects_array os)[i := ob]\<rparr>\<rparr>)" if "rle_ok ob" for ob
    using assms ent ok that i by (auto simp: pgs_ok_def objects_ok_def table_ok_def pgs_limits nth_list_update)
  have pos: "0 < int n - 4" using False by simp
  have "yields (\<lambda>(r, c). pgs_ok c \<and> presentation c = presentation ctx \<and> palettes c = palettes ctx)
    (parsePgsObject E m buf n ctx)" if "byte_at m (buf + 3) AND 0x80 = 0"
    using False that append_rle_yields [OF slot pos, of E m "buf + 4"] put
    by (auto simp: parsePgsObject_def Let_def a elim!: yieldsE)
  moreover have "yields (\<lambda>(r, c). pgs_ok c \<and> presentation c = presentation ctx \<and> palettes c = palettes ctx)
    (parsePgsObject E m buf n ctx)" if "byte_at m (buf + 3) AND 0x80 \<noteq> 0"
  proof -
    obtain ok' ob where st: "start_rle (presentation ctx) m (buf + 4) (int n - 4) (objects_array os ! i) = (ok', ob)"
      by fastforce
    have "rle_ok ob" using start_rle_ok [OF slot st] by simp
    then show ?thesis using False that st put by (simp add: parsePgsObject_def Let_def a)
  qed
  ultimately show ?thesis by blast
qed

end
