(* ===== verification/Pgs_Rle.thy ===== *)
theory Pgs_Rle
  imports Pgs_Invariant
begin

text \<open>
  The run-length code of PGS bitmaps: \<open>decodeRle\<close> and \<open>renderRle2Bitmap\<close> of
  \<open>PgsParser.cpp\<close>, an encoder as reference, and the facts that decoding is safe, exact
  on encoded images, and never shows bytes that the stream has not written.
\<close>

section \<open>The decoder\<close>

text \<open>One code: its colour, its run length (0 is the end of a line) and the position after it.\<close>

definition read_run :: "mem \<Rightarrow> nat \<Rightarrow> u8 \<times> int \<times> nat" where
  "read_run m p =
     (if m p \<noteq> 0 then (m p, 1, p + 1)
      else
        let flags = byte_at m (p + 1); run = flags AND 0x3f; p = p + 2;
            (run, p) = (if flags AND 0x40 \<noteq> 0 then (push_bit 8 run + byte_at m p, p + 1) else (run, p))
        in if flags AND 0x80 \<noteq> 0 then (m p, run, p + 1) else (0, run, p))"

definition fill_run :: "u8 list \<Rightarrow> int \<Rightarrow> u8 \<Rightarrow> int \<Rightarrow> u8 list option" where
  "fill_run out at color run =
     (if 0 \<le> at \<and> 0 \<le> run \<and> at + run \<le> int (length out)
      then Some (take (nat at) out @ replicate (nat run) color @ drop (nat (at + run)) out)
      else None)"

text \<open>
  The loop; the result is whether the image is good so far, the pixels decoded and the
  buffer. Both operands of \<open>pixel_count % w\<close> are never negative.
\<close>

lemma read_run_advances: "read_run m p = (color, run, p') \<Longrightarrow> p < p'"
  by (auto simp: read_run_def Let_def split: if_splits)

function rle_loop :: "mem \<Rightarrow> nat \<Rightarrow> int \<Rightarrow> int \<Rightarrow> nat \<Rightarrow> int \<Rightarrow> int \<Rightarrow> u8 list
    \<Rightarrow> (bool \<times> int \<times> u8 list) option" where
  "rle_loop m end_pos w h p pixel_count line_count out =
     (if p < end_pos \<and> line_count < h then
        (case read_run m p of (color, run, p') \<Rightarrow>
          (if run > 0 \<and> wrap32 (pixel_count + run) \<le> wrap32 (w * h) then
             (case fill_run out pixel_count color run of
                None \<Rightarrow> None
              | Some out' \<Rightarrow> rle_loop m end_pos w h p' (wrap32 (pixel_count + run)) line_count out')
           else if run = 0 then
             (if w = 0 then None
              else if pixel_count mod w > 0 then Some (False, pixel_count, out)
              else rle_loop m end_pos w h p' pixel_count (line_count + 1) out)
           else rle_loop m end_pos w h p' pixel_count line_count out))
      else Some (True, pixel_count, out))"
  by pat_completeness auto
termination
  by (relation "measure (\<lambda>(m, e, w, h, p, c, l, out). e - p)")
    (auto dest!: read_run_advances [OF sym] intro: diff_less_mono2)

declare rle_loop.simps [simp del]

definition decodeRle :: "mem \<Rightarrow> nat \<Rightarrow> int \<Rightarrow> int \<Rightarrow> u8 list \<Rightarrow> (bool \<times> u8 list) option" where
  "decodeRle m rle_size w h out = do {
     (ok, pixel_count, out) \<leftarrow> rle_loop m rle_size w h 0 0 0 out;
     Some (ok \<and> \<not> pixel_count < wrap32 (w * h), out) }"

section \<open>Decoding is safe and initialises what it returns\<close>

lemma wrap32_small: "0 \<le> x \<Longrightarrow> x < 2 ^ 31 \<Longrightarrow> wrap32 x = x"
  by simp

lemma run_range: "read_run m p = (color, run, p') \<Longrightarrow> 0 \<le> run \<and> run \<le> 16383"
proof -
  assume a: "read_run m p = (color, run, p')"
  have six: "0 \<le> v AND 0x3f \<and> v AND 0x3f \<le> 0x3f" for v :: int
    by (simp add: AND_upper2')
  show ?thesis
    using a six [of "byte_at m (p + 1)"] byte_at_range [of m "p + 2"] byte_at_le [of m "p + 2"]
    by (auto simp: read_run_def Let_def push_bit_eq_mult split: if_splits
        intro: order_trans [OF add_mono [OF mult_right_mono byte_at_le], of _ 63 256])
qed

lemma fill_run_yields:
  "0 \<le> at \<Longrightarrow> 0 \<le> run \<Longrightarrow> at + run \<le> int (length out) \<Longrightarrow>
     yields (\<lambda>out'. length out' = length out \<and>
       take (nat (at + run)) out' = take (nat at) out @ replicate (nat run) color) (fill_run out at color run)"
  by (auto simp: fill_run_def nat_add_distrib)

text \<open>The four ways a round of the loop goes, for images whose size fits an \<open>int\<close>.\<close>

definition size_fits :: "int \<Rightarrow> int \<Rightarrow> bool" where
  "size_fits w h \<longleftrightarrow> 0 < w \<and> 0 \<le> w * h \<and> w * h \<le> 2 ^ 30"

definition rle_round :: "mem \<Rightarrow> nat \<Rightarrow> int \<Rightarrow> int \<Rightarrow> nat \<Rightarrow> int \<Rightarrow> int \<Rightarrow> u8 \<Rightarrow> int \<Rightarrow> nat \<Rightarrow> bool" where
  "rle_round m e w h p pc lc color run p' \<longleftrightarrow> p < e \<and> lc < h \<and> read_run m p = (color, run, p') \<and>
     size_fits w h \<and> 0 \<le> pc \<and> pc \<le> w * h"

lemma rle_loop_stop:
  assumes "\<not> (p < e \<and> lc < h)"
  shows "rle_loop m e w h p pc lc out = Some (True, pc, out)"
  unfolding rle_loop.simps [of m e w h p pc lc out] if_not_P [OF assms] ..

lemma rle_sums:
  assumes "rle_round m e w h p pc lc color run p'"
  shows "wrap32 (pc + run) = pc + run" "wrap32 (w * h) = w * h"
  using assms run_range [of m p color run p'] by (auto simp: rle_round_def size_fits_def intro!: wrap32_id)

lemma rle_loop_run:
  assumes "rle_round m e w h p pc lc color run p'" "0 < run" "pc + run \<le> w * h"
    "fill_run out pc color run = Some out'"
  shows "rle_loop m e w h p pc lc out = rle_loop m e w h p' (pc + run) lc out'"
  using assms rle_sums [OF assms(1)] by (subst rle_loop.simps) (simp add: rle_round_def)

lemma rle_loop_skip:
  assumes "rle_round m e w h p pc lc color run p'" "0 < run" "w * h < pc + run"
  shows "rle_loop m e w h p pc lc out = rle_loop m e w h p' pc lc out"
  using assms rle_sums [OF assms(1)] by (subst rle_loop.simps) (simp add: rle_round_def)

lemma rle_loop_line:
  assumes "rle_round m e w h p pc lc color run p'" "run = 0"
  shows "rle_loop m e w h p pc lc out =
    (if pc mod w > 0 then Some (False, pc, out) else rle_loop m e w h p' pc (lc + 1) out)"
  using assms rle_sums [OF assms(1)] by (subst rle_loop.simps) (simp add: rle_round_def size_fits_def)

text \<open>
  Two runs of the decoder on buffers that agree on the pixels already decoded go the same
  way: a relational invariant that yields safety and independence of the buffer's old contents.
\<close>

definition rle_pair :: "int \<Rightarrow> (bool \<times> int \<times> u8 list) option \<Rightarrow> (bool \<times> int \<times> u8 list) option \<Rightarrow> bool" where
  "rle_pair n x y \<longleftrightarrow> (\<exists>ok pc r1 r2. x = Some (ok, pc, r1) \<and> y = Some (ok, pc, r2) \<and> 0 \<le> pc \<and> pc \<le> n \<and>
     int (length r1) = n \<and> int (length r2) = n \<and> take (nat pc) r1 = take (nat pc) r2)"

lemma rle_loop_pair:
  assumes "size_fits w h" "int (length out1) = w * h" "int (length out2) = w * h" "0 \<le> pc" "pc \<le> w * h"
    "take (nat pc) out1 = take (nat pc) out2"
  shows "rle_pair (w * h) (rle_loop m e w h p pc lc out1) (rle_loop m e w h p pc lc out2)"
  using assms(2-6)
proof (induction "e - p" arbitrary: p pc lc out1 out2 rule: less_induct)
  case less
  show ?case
  proof (cases "p < e \<and> lc < h")
    case False
    then show ?thesis using less.prems by (auto simp add: rle_loop_stop rle_pair_def)
  next
    case True
    then have go: "p < e" "lc < h" by simp_all
    obtain color run p' where rd: "read_run m p = (color, run, p')" by (metis prod_cases3)
    have dec: "e - p' < e - p" using go(1) read_run_advances [OF rd] by simp
    have step: "rle_round m e w h p pc lc color run p'"
      using go rd assms(1) less.prems(3,4) by (simp add: rle_round_def)
    consider "run = 0" | "0 < run" "w * h < pc + run" | "0 < run" "pc + run \<le> w * h"
      using run_range [OF rd] by linarith
    then show ?thesis
    proof cases
      case 1
      then show ?thesis
        using less.hyps [OF dec less.prems, of "lc + 1"] less.prems
        by (auto simp: rle_loop_line [OF step 1] rle_pair_def intro!: exI [of _ False])
    next
      case 2
      then show ?thesis
        using less.hyps [OF dec less.prems, of lc] by (simp add: rle_loop_skip [OF step 2])
    next
      case 3
      have fill: "yields (\<lambda>out'. length out' = length out \<and>
          take (nat (pc + run)) out' = take (nat pc) out @ replicate (nat run) color) (fill_run out pc color run)"
        if "int (length out) = w * h" for out
        using that 3 less.prems(3) by (intro fill_run_yields) auto
      obtain o1 where o1: "fill_run out1 pc color run = Some o1" "length o1 = length out1"
          "take (nat (pc + run)) o1 = take (nat pc) out1 @ replicate (nat run) color"
        using fill [OF less.prems(1)] by (auto elim: yieldsE)
      obtain o2 where o2: "fill_run out2 pc color run = Some o2" "length o2 = length out2"
          "take (nat (pc + run)) o2 = take (nat pc) out2 @ replicate (nat run) color"
        using fill [OF less.prems(2)] by (auto elim: yieldsE)
      have "rle_pair (w * h) (rle_loop m e w h p' (pc + run) lc o1) (rle_loop m e w h p' (pc + run) lc o2)"
        using less.prems 3 o1 o2 by (intro less.hyps [OF dec]) auto
      then show ?thesis by (simp only: rle_loop_run [OF step 3 o1(1)] rle_loop_run [OF step 3 o2(1)])
    qed
  qed
qed

lemma decodeRle_yields:
  assumes "size_fits w h" "int (length out) = w * h"
  shows "yields (\<lambda>(ok, out'). length out' = length out) (decodeRle m n w h out)"
proof -
  have "0 \<le> w * h" using assms(1) by (simp add: size_fits_def)
  then have "rle_pair (w * h) (rle_loop m n w h 0 0 0 out) (rle_loop m n w h 0 0 0 out)"
    by (intro rle_loop_pair [OF assms(1,2,2)]) simp_all
  then show ?thesis using assms by (auto simp: rle_pair_def decodeRle_def)
qed

lemma decodeRle_initialised:
  assumes "size_fits w h" "int (length out1) = w * h" "int (length out2) = w * h"
    "decodeRle m n w h out1 = Some (True, r1)"
  shows "decodeRle m n w h out2 = Some (True, r1)"
proof -
  have "0 \<le> w * h" using assms(1) by (simp add: size_fits_def)
  then have "rle_pair (w * h) (rle_loop m n w h 0 0 0 out1) (rle_loop m n w h 0 0 0 out2)"
    by (intro rle_loop_pair [OF assms(1-3)]) simp_all
  then obtain ok pc a b where ab: "rle_loop m n w h 0 0 0 out1 = Some (ok, pc, a)"
      "rle_loop m n w h 0 0 0 out2 = Some (ok, pc, b)" "0 \<le> pc" "pc \<le> w * h" "int (length a) = w * h"
      "int (length b) = w * h" "take (nat pc) a = take (nat pc) b"
    by (auto simp: rle_pair_def)
  have wh: "wrap32 (w * h) = w * h" using assms(1) by (auto simp: size_fits_def intro!: wrap32_id)
  have "ok" "a = r1" "\<not> pc < w * h" using assms(4) ab(1) wh by (auto simp: decodeRle_def)
  then have "pc = w * h" using ab(4) by simp
  then have "a = b" using ab(5-7) by (metis nat_int order_refl take_all)
  then show ?thesis using ab(2) wh \<open>ok\<close> \<open>a = r1\<close> \<open>\<not> pc < w * h\<close> by (simp add: decodeRle_def)
qed

section \<open>Decoding what was encoded\<close>

text \<open>The encoder of the format: a run is a colour and a length from 1 to 16383.\<close>

definition encode_run :: "u8 \<times> int \<Rightarrow> u8 list" where
  "encode_run = (\<lambda>(c, n).
     if c \<noteq> 0 \<and> n = 1 then [c]
     else if c = 0 then
       (if n < 64 then [0, word_of_int n] else [0, word_of_int (0x40 OR n div 256), word_of_int (n mod 256)])
     else (if n < 64 then [0, word_of_int (0x80 OR n), c]
           else [0, word_of_int (0xc0 OR n div 256), word_of_int (n mod 256), c]))"

definition encode_line :: "(u8 \<times> int) list \<Rightarrow> u8 list" where
  "encode_line runs = concat (map encode_run runs) @ [0, 0]"

definition line_pixels :: "(u8 \<times> int) list \<Rightarrow> u8 list" where
  "line_pixels runs = concat (map (\<lambda>(c, n). replicate (nat n) c) runs)"

definition runs_ok :: "(u8 \<times> int) list \<Rightarrow> bool" where
  "runs_ok runs \<longleftrightarrow> (\<forall>r \<in> set runs. 1 \<le> snd r \<and> snd r \<le> 16383)"

definition image_lines :: "int \<Rightarrow> (u8 \<times> int) list list \<Rightarrow> bool" where
  "image_lines w lines \<longleftrightarrow> (\<forall>l \<in> set lines. runs_ok l \<and> int (length (line_pixels l)) = w)"

lemma flags_split:
  assumes "f \<in> {0, 0x40, 0x80, 0xc0}" "0 \<le> v" "v < 64"
  shows "uint (word_of_int (f OR v) :: u8) AND 0x3f = v" "uint (word_of_int (f OR v) :: u8) AND 0x40 = f AND 0x40"
    "uint (word_of_int (f OR v) :: u8) AND 0x80 = f AND 0x80"
proof -
  have v: "take_bit 6 v = v" using assms(2,3) by (simp add: take_bit_int_eq_self)
  have high: "n < 6" if "bit v n" for n
    using v that by (metis bit_take_bit_iff)
  have high8: "n < 8" if "bit v n" for n
    using high [OF that] by simp
  have m: "(0x3f :: int) = mask 6" "(0x40 :: int) = push_bit 6 1" "(0x80 :: int) = push_bit 7 1"
    by (simp_all add: mask_eq_exp_minus_1 push_bit_eq_mult)
  have f: "\<not> bit f n" if "n < 6" for n
    using that assms(1) by (auto simp: bit_iff_odd)
      (auto simp: less_Suc_eq numeral_eq_Suc)
  show "uint (word_of_int (f OR v) :: u8) AND 0x3f = v"
    unfolding m by (rule bit_eqI) (simp only: byte_of_int_bit bit_and_iff bit_or_iff bit_mask_iff, use f high high8 in auto)
  show "uint (word_of_int (f OR v) :: u8) AND 0x40 = f AND 0x40"
    unfolding m by (rule bit_eqI) (simp only: byte_of_int_bit bit_and_iff bit_or_iff bit_push_bit_iff bit_1_iff, use high [of 6] high [of 7] in auto)
  show "uint (word_of_int (f OR v) :: u8) AND 0x80 = f AND 0x80"
    unfolding m by (rule bit_eqI) (simp only: byte_of_int_bit bit_and_iff bit_or_iff bit_push_bit_iff bit_1_iff, use high [of 6] high [of 7] in auto)
qed

lemma read_run_encoded:
  assumes "bytes_here m p (encode_run (c, n))" "1 \<le> n" "n \<le> 16383"
  shows "read_run m p = (c, n, p + length (encode_run (c, n)))"
proof -
  have d: "0 \<le> n div 256" "n div 256 < 64" "push_bit 8 (n div 256) + n mod 256 = n" "0 \<le> n mod 256" "n mod 256 < 256"
    using assms(2,3) by (auto simp: push_bit_eq_mult)
  have lo: "uint (word_of_int (n mod 256) :: u8) = n mod 256" by (simp add: uint_word_of_int)
  consider "c \<noteq> 0" "n = 1" | "c = 0" "n < 64" | "c = 0" "64 \<le> n" | "c \<noteq> 0" "n \<noteq> 1" "n < 64" | "c \<noteq> 0" "64 \<le> n"
    using assms(2) by linarith
  then show ?thesis
  proof cases
    case 1
    with assms(1) show ?thesis by (simp add: encode_run_def read_run_def bytes_here_Cons)
  next
    case 2
    with assms flags_split [of 0 n] show ?thesis
      by (simp add: encode_run_def read_run_def bytes_here_Cons byte_at_def)
  next
    case 3
    then have "encode_run (c, n) = [0, word_of_int (0x40 OR n div 256), word_of_int (n mod 256)]"
      by (simp add: encode_run_def)
    with assms(1) 3 d(1,2,3) lo flags_split [of 64 "n div 256"] show ?thesis
      by (simp add: read_run_def bytes_here_Cons byte_at_def)
  next
    case 4
    with assms flags_split [of 128 n] show ?thesis
      by (simp add: encode_run_def read_run_def bytes_here_Cons byte_at_def)
  next
    case 5
    then have "encode_run (c, n) = [0, word_of_int (0xc0 OR n div 256), word_of_int (n mod 256), c]"
      by (simp add: encode_run_def)
    with assms(1) 5 d(1,2,3) lo flags_split [of 192 "n div 256"] show ?thesis
      by (simp add: read_run_def bytes_here_Cons byte_at_def)
  qed
qed
lemma encode_run_nonempty: "0 < length (encode_run r)"
  by (cases r) (simp add: encode_run_def)

lemma line_pixels_Cons: "line_pixels ((c, n) # rs) = replicate (nat n) c @ line_pixels rs"
  by (simp add: line_pixels_def)

lemma runs_ok_Cons: "runs_ok (r # rs) \<longleftrightarrow> 1 \<le> snd r \<and> snd r \<le> 16383 \<and> runs_ok rs"
  by (auto simp: runs_ok_def)

lemma line_pixels_nonempty: "runs_ok rs \<Longrightarrow> rs \<noteq> [] \<Longrightarrow> 0 < length (line_pixels rs)"
  by (cases rs) (auto simp: line_pixels_def runs_ok_def split: prod.splits)

text \<open>The runs of one line are painted from \<open>pc\<close> on.\<close>

lemma rle_runs:
  assumes "size_fits w h" "lc < h" "int (length out) = w * h"
    "bytes_here m p (concat (map encode_run rs))" "p + length (concat (map encode_run rs)) < e" "runs_ok rs"
    "0 \<le> pc" "pc + int (length (line_pixels rs)) \<le> w * h"
  shows "\<exists>out'. rle_loop m e w h p pc lc out
      = rle_loop m e w h (p + length (concat (map encode_run rs))) (pc + int (length (line_pixels rs))) lc out' \<and>
    length out' = length out \<and>
    take (nat (pc + int (length (line_pixels rs)))) out' = take (nat pc) out @ line_pixels rs"
  using assms(3-8)
proof (induction rs arbitrary: p pc out)
  case Nil
  then show ?case by (auto simp: line_pixels_def)
next
  case (Cons r rs)
  obtain c n where r: "r = (c, n)" by fastforce
  let ?e = "encode_run (c, n)"
  have n: "1 \<le> n" "n \<le> 16383" and rs: "runs_ok rs" using Cons.prems(4) r by (simp_all add: runs_ok_Cons)
  have len: "int (length (line_pixels (r # rs))) = n + int (length (line_pixels rs))"
    using n r by (simp add: line_pixels_Cons)
  have here: "bytes_here m p ?e" "bytes_here m (p + length ?e) (concat (map encode_run rs))"
    using Cons.prems(2) r by (simp_all add: bytes_here_append)
  have round: "rle_round m e w h p pc lc c n (p + length ?e)"
    unfolding rle_round_def read_run_encoded [OF here(1) n]
    using assms(1,2) Cons.prems(3,5,6) len n r by auto
  have bound: "pc + n \<le> w * h" using Cons.prems(6) len by linarith
  obtain o1 where o1: "fill_run out pc c n = Some o1" "length o1 = length out"
      "take (nat (pc + n)) o1 = take (nat pc) out @ replicate (nat n) c"
    using fill_run_yields [of pc n out c] Cons.prems(1,5) n bound by (auto elim: yieldsE)
  have "\<exists>out'. rle_loop m e w h (p + length ?e) (pc + n) lc o1
      = rle_loop m e w h (p + length ?e + length (concat (map encode_run rs)))
          (pc + n + int (length (line_pixels rs))) lc out' \<and>
    length out' = length o1 \<and>
    take (nat (pc + n + int (length (line_pixels rs)))) out' = take (nat (pc + n)) o1 @ line_pixels rs"
    by (rule Cons.IH) (use Cons.prems here rs o1(2) n len r in auto)
  moreover have "rle_loop m e w h p pc lc out = rle_loop m e w h (p + length ?e) (pc + n) lc o1"
    by (rule rle_loop_run [OF round _ bound o1(1)]) (use n in simp)
  ultimately show ?case
    using o1(2,3) n r by (auto simp: line_pixels_Cons add.assoc)
qed

text \<open>A whole line: its runs and its end code.\<close>

lemma rle_line:
  assumes "size_fits w h" "lc < h" "int (length out) = w * h" "bytes_here m p (encode_line rs)"
    "p + length (encode_line rs) \<le> e" "runs_ok rs" "int (length (line_pixels rs)) = w" "0 \<le> lc" "pc = lc * w"
  shows "\<exists>out'. rle_loop m e w h p pc lc out = rle_loop m e w h (p + length (encode_line rs)) (pc + w) (lc + 1) out' \<and>
    length out' = length out \<and> take (nat (pc + w)) out' = take (nat pc) out @ line_pixels rs"
proof -
  let ?runs = "concat (map encode_run rs)" and ?q = "p + length (concat (map encode_run rs))"
  have "(lc + 1) * w \<le> h * w" using assms(1,2) by (intro mult_right_mono) (auto simp: size_fits_def)
  then have pc: "0 \<le> pc" "pc + w \<le> w * h"
    using assms(1,8,9) by (auto simp: size_fits_def algebra_simps)
  have here: "bytes_here m p ?runs" "bytes_here m ?q [0, 0]"
    using assms(4) by (simp_all add: encode_line_def bytes_here_append)
  obtain out' where o: "rle_loop m e w h p pc lc out = rle_loop m e w h ?q (pc + w) lc out'"
      "length out' = length out" "take (nat (pc + w)) out' = take (nat pc) out @ line_pixels rs"
    using rle_runs [OF assms(1,2,3) here(1) _ assms(6) pc(1), of e] assms(5,7) pc(2) by (auto simp: encode_line_def)
  have rd: "read_run m ?q = (0, 0, ?q + 2)"
    using here(2) by (simp add: read_run_def bytes_here_Cons byte_at_def)
  have "(pc + w) mod w = 0" using assms(9) by simp
  then have "rle_loop m e w h ?q (pc + w) lc out' = rle_loop m e w h (?q + 2) (pc + w) (lc + 1) out'"
    using rle_loop_line [of m e w h ?q "pc + w" lc 0 0 "?q + 2" out'] rd assms(1,2,5) pc
    by (simp add: rle_round_def encode_line_def size_fits_def)
  then show ?thesis using o by (auto simp: encode_line_def)
qed

lemma rle_lines:
  assumes "size_fits w h" "int (length out) = w * h" "bytes_here m p (concat (map encode_line ls))"
    "p + length (concat (map encode_line ls)) \<le> e" "image_lines w ls" "0 \<le> lc" "lc + int (length ls) = h"
  shows "\<exists>out'. rle_loop m e w h p (lc * w) lc out = Some (True, w * h, out') \<and>
    length out' = length out \<and> out' = take (nat (lc * w)) out @ concat (map line_pixels ls)"
  using assms(2-7)
proof (induction ls arbitrary: p lc out)
  case Nil
  then have "rle_loop m e w h p (lc * w) lc out = Some (True, lc * w, out)" by (intro rle_loop_stop) simp
  then show ?case using Nil.prems by (simp add: mult.commute)
next
  case (Cons l ls)
  have l: "runs_ok l" "int (length (line_pixels l)) = w" "image_lines w ls"
    using Cons.prems(4) by (auto simp: image_lines_def)
  have here: "bytes_here m p (encode_line l)" "bytes_here m (p + length (encode_line l)) (concat (map encode_line ls))"
    using Cons.prems(2) by (simp_all add: bytes_here_append)
  obtain o1 where o1: "rle_loop m e w h p (lc * w) lc out
      = rle_loop m e w h (p + length (encode_line l)) (lc * w + w) (lc + 1) o1"
      "length o1 = length out" "take (nat (lc * w + w)) o1 = take (nat (lc * w)) out @ line_pixels l"
    using rle_line [OF assms(1) _ Cons.prems(1) here(1) _ l(1,2) Cons.prems(5) refl, of e] Cons.prems(3,6)
    by auto
  have "\<exists>out'. rle_loop m e w h (p + length (encode_line l)) ((lc + 1) * w) (lc + 1) o1 = Some (True, w * h, out') \<and>
    length out' = length o1 \<and> out' = take (nat ((lc + 1) * w)) o1 @ concat (map line_pixels ls)"
    by (rule Cons.IH) (use Cons.prems here l o1(2) in auto)
  then show ?case using o1 by (auto simp: distrib_right)
qed

lemma decode_encode_rle:
  assumes "size_fits w h" "int (length out) = w * h" "image_lines w ls" "int (length ls) = h"
    "bytes_here m 0 (concat (map encode_line ls))"
  shows "decodeRle m (length (concat (map encode_line ls))) w h out = Some (True, concat (map line_pixels ls))"
  using rle_lines [OF assms(1,2,5) _ assms(3), of "length (concat (map encode_line ls))" 0] assms(1,4)
  by (auto simp: decodeRle_def size_fits_def)

end
