(* ===== verification/Pgs_Present.thy ===== *)
theory Pgs_Present
  imports Pgs_Rle
begin

text \<open>
  The parser \<open>PgsParser\<close> and its presentation side: \<open>renderRle2Bitmap\<close>,
  \<open>decodeRleAndRenderBitmap\<close>, \<open>postDecodedItem\<close> and \<open>handleDisplayEndSegment\<close>. The decoding
  thread runs the last one each time the render time changes.
\<close>

section \<open>The parser\<close>

record PgsParser = Parser +
  mPgsContext :: PGSSubContext
  mPgsContextList :: "PGSSubContext list"
  mPreviousObjectNum :: int
  mFirstPtsMs :: int
  mCurrentTimeMs :: int
  mStopDecodeThread :: bool

definition DEFAULT_DURATION_SECOND :: int where "DEFAULT_DURATION_SECOND = 30"
definition DEFAULT_DVB_TIME_MULTI :: int where "DEFAULT_DVB_TIME_MULTI = 90"
definition DECODE_PRE_TIME_MS :: int where "DECODE_PRE_TIME_MS = 50"
definition WRONG_PGS_PTS_TIME_MS :: int where "WRONG_PGS_PTS_TIME_MS = 2000"

lemmas pgs_times = DEFAULT_DURATION_SECOND_def DEFAULT_DVB_TIME_MULTI_def DECODE_PRE_TIME_MS_def
  WRONG_PGS_PTS_TIME_MS_def

definition new_pgs :: PgsParser where
  "new_pgs = Parser.extend (start_parser TYPE_SUBTITLE_PGS) (PgsParser.fields zero_pgs [] 0 0 0 False)"

section \<open>Bitmaps\<close>

text \<open>A fresh allocation of \<open>n\<close> bytes holds whatever the heap held.\<close>

definition malloc_bytes :: "'a env_scheme \<Rightarrow> request \<Rightarrow> int \<Rightarrow> u8 list option" where
  "malloc_bytes E r n = (if malloc_ok E r then Some (map (stray E) [0..<nat (size_of n)]) else None)"

definition paint_pixel :: "u32 list \<Rightarrow> u8 list \<Rightarrow> int \<Rightarrow> u8 list \<Rightarrow> u8 list option" where
  "paint_pixel palette decoded i bitmap = do {
     index \<leftarrow> load decoded i;
     v \<leftarrow> load palette (uint index);
     let j = wrap32 (4 * i);
     bitmap \<leftarrow> store bitmap j (ucast (v AND 0xFF));
     bitmap \<leftarrow> store bitmap (j + 1) (ucast (drop_bit 8 v AND 0xFF));
     bitmap \<leftarrow> store bitmap (j + 2) (ucast (drop_bit 16 v AND 0xFF));
     store bitmap (j + 3) (ucast (drop_bit 24 v AND 0xFF)) }"

definition renderRle2Bitmap :: "'a env_scheme \<Rightarrow> AVSubtitleRect \<Rightarrow> AVSubtitleRect option" where
  "renderRle2Bitmap E rect = do {
     assert_that E (decodedRle rect \<noteq> None);
     let rect = rect\<lparr>bitmapSize := wrap32 (4 * decodedRleSize rect)\<rparr>;
     (case malloc_bytes E (BitmapBuffer (bitmapSize rect)) (bitmapSize rect) of
        None \<Rightarrow> Some (rect\<lparr>rect_bitmap := None\<rparr>)
      | Some bitmap \<Rightarrow> do {
          bitmap \<leftarrow> each (paint_pixel (rect_palette rect) (case decodedRle rect of None \<Rightarrow> [] | Some d \<Rightarrow> d))
             [0..decodedRleSize rect - 1] bitmap;
          Some (rect\<lparr>rect_bitmap := Some bitmap\<rparr>) }) }"

section \<open>Decoding a display set\<close>

text \<open>
  The RLE part of one object: the flag says how the loop of \<open>decodeRleAndRenderBitmap\<close> goes
  on (render it, \<open>continue\<close> with the next object, or \<open>return\<close>).
\<close>

datatype object_flow = Render | Skip | Stop

definition decode_object :: "env \<Rightarrow> PGSSubObject \<Rightarrow> AVSubtitleRect \<Rightarrow> (object_flow \<times> AVSubtitleRect) option" where
  "decode_object E ob rect =
     (if rle ob = [] then Some (Render, rect)
      else
        let rect = rect\<lparr>rect_w := pgs_w ob, rect_h := pgs_h ob\<rparr> in
        if rle_remaining_len ob \<noteq> 0 then Some (Stop, rect\<lparr>is_valid := False\<rparr>)
        else
          let rect = rect\<lparr>decodedRleSize := wrap32 (pgs_w ob * pgs_h ob)\<rparr> in
          (case malloc_bytes E (RleBuffer (decodedRleSize rect)) (decodedRleSize rect) of
             None \<Rightarrow> Some (Stop, rect\<lparr>decodedRle := None\<rparr>)
           | Some buf \<Rightarrow> do {
               (ok, buf) \<leftarrow> decodeRle (packet_mem E (rle ob)) (length (rle ob)) (pgs_w ob) (pgs_h ob) buf;
               Some (if ok then (Render, rect\<lparr>decodedRle := Some buf\<rparr>)
                 else (Skip, rect\<lparr>rect_w := 0, rect_h := 0, is_valid := False, decodedRle := None,
                               decodedRleSize := 0\<rparr>)) }))"

definition render_object ::
  "env \<Rightarrow> u32 list \<Rightarrow> PGSSubObject \<Rightarrow> PGSSubObjectRef \<Rightarrow> nat \<Rightarrow> AVSubtitleRect
     \<Rightarrow> (object_flow \<times> AVSubtitleRect) option" where
  "render_object E palette ob r i rect = do {
     (flow, rect) \<leftarrow> decode_object E ob (rect\<lparr>rect_x := ref_x r, rect_y := ref_y r, is_valid := True\<rparr>);
     (if flow = Render then do {
        rect \<leftarrow> renderRle2Bitmap E (rect\<lparr>rect_palette := palette\<rparr>);
        Some (Render, rect\<lparr>decodedRle := None, decodedRleSize := 0,
          is_forced_display := composition_flag r AND 0x40 \<noteq> 0, object_segment_id := int i\<rparr>) }
      else Some (flow, rect)) }"

definition update_rect :: "nat \<Rightarrow> AVSubtitleRect \<Rightarrow> PGSSubContext \<Rightarrow> PGSSubContext" where
  "update_rect i rect ctx = ctx\<lparr>presentation := (presentation ctx)\<lparr>present_sub_rect :=
     (present_sub_rect (presentation ctx))[i := rect]\<rparr>\<rparr>"

fun render_objects :: "env \<Rightarrow> u32 list \<Rightarrow> nat list \<Rightarrow> PGSSubContext \<Rightarrow> PGSSubContext option" where
  "render_objects E palette [] ctx = Some ctx"
| "render_objects E palette (i # rest) ctx =
     (let r = object_refs (presentation ctx) ! i in
      case findObject (ref_id r) (objects ctx) of
        None \<Rightarrow> render_objects E palette rest ctx
      | Some k \<Rightarrow> do {
          (flow, rect) \<leftarrow> render_object E palette (objects_array (objects ctx) ! k) r i
             (present_sub_rect (presentation ctx) ! i);
          (if flow = Stop then Some (update_rect i rect ctx)
           else render_objects E palette rest (update_rect i rect ctx)) })"

definition decodeRleAndRenderBitmap :: "env \<Rightarrow> PGSSubContext \<Rightarrow> PGSSubContext option" where
  "decodeRleAndRenderBitmap E ctx =
     (case findPalette (palette_id (presentation ctx)) (palettes ctx) of
        None \<Rightarrow> Some ctx
      | Some k \<Rightarrow> render_objects E (argb (palettes_array (palettes ctx) ! k))
          [0..<nat (object_count (presentation ctx))] ctx)"

section \<open>Posting a display set\<close>

definition clear_spu :: "PGSSubPresentation \<Rightarrow> bool \<Rightarrow> int \<Rightarrow> AML_SPUVAR" where
  "clear_spu p immediate i = new_spu\<lparr>subtitle_type := TYPE_SUBTITLE_PGS, isImmediatePresent := immediate,
     spu_origin_display_w := u32_of (videoWidth p), spu_origin_display_h := u32_of (videoHeight p),
     pts := pres_pts p, m_delay := pres_pts p, objectSegmentId := i, buffer_size := 0\<rparr>"

definition rect_spu :: "PGSSubPresentation \<Rightarrow> bool \<Rightarrow> AVSubtitleRect \<Rightarrow> AML_SPUVAR" where
  "rect_spu p immediate rect = new_spu\<lparr>subtitle_type := TYPE_SUBTITLE_PGS, isImmediatePresent := immediate,
     spu_start_x := u16_of (rect_x rect), spu_start_y := u16_of (rect_y rect),
     spu_width := u16_of (rect_w rect), spu_height := u16_of (rect_h rect),
     spu_origin_display_w := u32_of (videoWidth p), spu_origin_display_h := u32_of (videoHeight p),
     pts := pres_pts p, m_delay := pres_pts p + DEFAULT_DURATION_SECOND * 1000 * DEFAULT_DVB_TIME_MULTI,
     objectSegmentId := u32_of (object_segment_id rect), buffer_size := u32_of (bitmapSize rect),
     useMalloc := True, spu_data := rect_bitmap rect\<rparr>"

text \<open>The units of the second loop, in order.\<close>

definition object_spus :: "PGSSubContext \<Rightarrow> bool \<Rightarrow> AML_SPUVAR list" where
  "object_spus ctx immediate =
     (let p = presentation ctx in
      map (\<lambda>i. rect_spu p immediate (present_sub_rect p ! i))
        (filter (\<lambda>i. findObject (ref_id (object_refs p ! i)) (objects ctx) \<noteq> None \<and> is_valid (present_sub_rect p ! i))
           [0..<nat (object_count p)]))"

definition clears_screen :: "PGSSubContext \<Rightarrow> 'a PgsParser_scheme \<Rightarrow> bool" where
  "clears_screen ctx pgs \<longleftrightarrow> object_count (presentation ctx) < mPreviousObjectNum pgs
     \<or> object_count (presentation ctx) = 0"

definition post_units :: "AML_SPUVAR list \<Rightarrow> 'a Parser_scheme \<Rightarrow> 'a Parser_scheme" where
  "post_units units p = fold addDecodedItem units p"

definition postDecodedItem :: "PGSSubContext \<Rightarrow> bool \<Rightarrow> 'a PgsParser_scheme \<Rightarrow> 'a PgsParser_scheme" where
  "postDecodedItem ctx immediate pgs =
     (if mState pgs = SUB_STOP then pgs
      else
        let p = presentation ctx;
            pgs = (if clears_screen ctx pgs
                   then post_units (map (clear_spu p immediate) [0, 1]) pgs else pgs)
        in if object_count p = 0 then pgs\<lparr>mPreviousObjectNum := object_count p\<rparr>
           else post_units (object_spus ctx immediate) (pgs\<lparr>mPreviousObjectNum := object_count p\<rparr>))"

section \<open>The display sets that are due\<close>

definition pts_ms :: "PGSSubContext \<Rightarrow> int" where
  "pts_ms ctx = wrap32 (pres_pts (presentation ctx) sdiv DEFAULT_DVB_TIME_MULTI)"

definition is_wrong_pgs :: "'a PgsParser_scheme \<Rightarrow> PGSSubContext \<Rightarrow> bool" where
  "is_wrong_pgs pgs ctx \<longleftrightarrow>
     wrap32 (pts_ms ctx - (mPresentationTime pgs sdiv DEFAULT_DVB_TIME_MULTI + DECODE_PRE_TIME_MS))
        \<ge> WRONG_PGS_PTS_TIME_MS
     \<and> \<bar>wrap32 (pts_ms ctx - mFirstPtsMs pgs)\<bar> > 10000"

definition is_due :: "'a PgsParser_scheme \<Rightarrow> PGSSubContext \<Rightarrow> bool" where
  "is_due pgs ctx \<longleftrightarrow>
     \<not> (pres_pts (presentation ctx) - (mPresentationTime pgs + DECODE_PRE_TIME_MS * DEFAULT_DVB_TIME_MULTI))
          sdiv DEFAULT_DVB_TIME_MULTI > 0"

text \<open>\<open>mPgsContextList.erase(mPgsContextList.begin())\<close>\<close>

definition erase_front :: "'a PgsParser_scheme \<Rightarrow> 'a PgsParser_scheme option" where
  "erase_front pgs =
     (case mPgsContextList pgs of [] \<Rightarrow> None | _ # rest \<Rightarrow> Some (pgs\<lparr>mPgsContextList := rest\<rparr>))"

text \<open>
  The third step; \<open>now k\<close> is the \<open>k\<close>-th reading of the monotonic clock. The result says
  whether the parser was stopped, the loop went through, or decoding is too slow.
\<close>

datatype present_flow = Stopped | Finished | Busy

fun present_contexts ::
  "env \<Rightarrow> (nat \<Rightarrow> int) \<Rightarrow> nat \<Rightarrow> PGSSubContext list \<Rightarrow> PgsParser \<Rightarrow> (present_flow \<times> PgsParser) option" where
  "present_contexts E now k [] pgs = Some (Finished, pgs)"
| "present_contexts E now k (it # rest) pgs =
     (if mState pgs = SUB_STOP then Some (Stopped, pgs)
      else if rest \<noteq> [] \<and> object_count (presentation it) = 0
          \<and> pres_pts (presentation it) = pres_pts (presentation (hd rest))
      then do { pgs \<leftarrow> erase_front pgs; present_contexts E now k rest pgs }
      else
        let diff = (if rest = [] then 0
              else wrap32 ((pres_pts (presentation (hd rest)) - pres_pts (presentation it)) sdiv DEFAULT_DVB_TIME_MULTI))
        in do {
          ctx \<leftarrow> decodeRleAndRenderBitmap E it;
          pgs \<leftarrow> erase_front (postDecodedItem ctx True (pgs\<lparr>mCurrentTimeMs := now k\<rparr>));
          let spend = size_of (now (k + 1) - mCurrentTimeMs pgs);
          (if spend \<ge> DECODE_PRE_TIME_MS \<and> spend \<ge> size_of diff then Some (Busy, pgs)
           else present_contexts E now (k + 2) rest pgs) })"

definition handleDisplayEndSegment :: "env \<Rightarrow> (nat \<Rightarrow> int) \<Rightarrow> PgsParser \<Rightarrow> PgsParser option" where
  "handleDisplayEndSegment E now pgs =
     (let pgs = pgs\<lparr>mPgsContextList := filter (\<lambda>c. \<not> is_wrong_pgs pgs c) (mPgsContextList pgs)\<rparr> in do {
        (flow, pgs) \<leftarrow> present_contexts E now 0 (takeWhile (is_due pgs) (mPgsContextList pgs)) pgs;
        Some (if flow = Busy
          then pgs\<lparr>mPgsContextList := dropWhile (\<lambda>c. object_count (presentation c) \<noteq> 0) (mPgsContextList pgs)\<rparr>
          else pgs) })"

text \<open>The decoding thread, woken by a new render time.\<close>

definition pgs_render_time :: "env \<Rightarrow> (nat \<Rightarrow> int) \<Rightarrow> int \<Rightarrow> PgsParser \<Rightarrow> PgsParser option" where
  "pgs_render_time E now t pgs =
     (let pgs = notifyRenderTimeChanged t pgs in
      if mThreadExitRequested pgs \<or> mStopDecodeThread pgs then Some pgs
      else handleDisplayEndSegment E now pgs)"

definition stop_pgs :: "PgsParser \<Rightarrow> bool \<times> PgsParser" where
  "stop_pgs pgs = stopParser (pgs\<lparr>mStopDecodeThread := True, mPgsContextList := []\<rparr>)"

end
