(* ===== verification/Pgs_Decode.thy ===== *)
theory Pgs_Decode
  imports Pgs_Present
begin

text \<open>
  The input side of \<open>PgsParser.cpp\<close>: \<open>decode\<close> over the segments of a packet, the packets that
  the player sends (\<open>softDemuxParser\<close>), the PES packets of the demultiplexer
  (\<open>hwDemuxParser\<close>) and \<open>readDataSource\<close>.

  The hardware path writes the payload behind the end of a vector (it only reserved the
  capacity), so \<open>decode\<close> takes the memory and the vector's size apart.
\<close>

section \<open>Packets\<close>

definition PALETTE_DEFINITION_SEGMENT :: int where "PALETTE_DEFINITION_SEGMENT = 0x14"
definition OBJECT_DEFINITION_SEGMENT :: int where "OBJECT_DEFINITION_SEGMENT = 0x15"
definition PRESENTATION_COMPOSITION_SEGMENT :: int where "PRESENTATION_COMPOSITION_SEGMENT = 0x16"
definition WINDOW_DEFINITION_SEGMENT :: int where "WINDOW_DEFINITION_SEGMENT = 0x17"
definition END_DISPLAY_SEGMENT :: int where "END_DISPLAY_SEGMENT = 0x80"

lemmas pgs_segments = PALETTE_DEFINITION_SEGMENT_def OBJECT_DEFINITION_SEGMENT_def
  PRESENTATION_COMPOSITION_SEGMENT_def WINDOW_DEFINITION_SEGMENT_def END_DISPLAY_SEGMENT_def

text \<open>The switch over the segment's type; \<open>stamp\<close> is the packet's.\<close>

definition pgs_segment ::
  "env \<Rightarrow> mem \<Rightarrow> nat \<Rightarrow> nat \<Rightarrow> int \<Rightarrow> int \<Rightarrow> PgsParser \<Rightarrow> PgsParser option" where
  "pgs_segment E m buf len stamp type pgs =
     (let ctx = mPgsContext pgs in
      if type = PRESENTATION_COMPOSITION_SEGMENT then
        let ctx = ctx\<lparr>presentation := (presentation ctx)\<lparr>pres_pts := stamp\<rparr>\<rparr>
        in Some (pgs\<lparr>mPgsContext := parsePresentationSegment m buf len ctx\<rparr>)
      else if type = WINDOW_DEFINITION_SEGMENT then Some pgs
      else if type = PALETTE_DEFINITION_SEGMENT then do {
        ctx \<leftarrow> parsePaletteSegment m buf len ctx;
        Some (pgs\<lparr>mPgsContext := ctx\<rparr>) }
      else if type = OBJECT_DEFINITION_SEGMENT then do {
        (_, ctx) \<leftarrow> parsePgsObject E m buf len ctx;
        Some (pgs\<lparr>mPgsContext := ctx\<rparr>) }
      else if type = END_DISPLAY_SEGMENT then
        Some (pgs\<lparr>mPgsContextList := mPgsContextList pgs @ [ctx]\<rparr>)
      else Some pgs)"

definition first_pts :: "int \<Rightarrow> PgsParser \<Rightarrow> PgsParser" where
  "first_pts ptsMs pgs =
     (if mFirstPtsMs pgs = 0 \<or> mFirstPtsMs pgs > ptsMs then pgs\<lparr>mFirstPtsMs := ptsMs\<rparr> else pgs)"

text \<open>The loop \<open>while (buf < buf_end)\<close> over the segments: 13 bytes of header and the payload.\<close>

function decode_pgs :: "env \<Rightarrow> mem \<Rightarrow> nat \<Rightarrow> nat \<Rightarrow> PgsParser \<Rightarrow> PgsParser option" where
  "decode_pgs E m buf buf_end pgs =
     (if buf < buf_end then
        if mState pgs = SUB_STOP then Some pgs
        else
          let stamp = wrap32 (be32 m (buf + 2));
              pgs = first_pts (stamp sdiv DEFAULT_DVB_TIME_MULTI) pgs;
              segment_length = nat (be16 m (buf + 11))
          in do {
            assert_that E (buf + 13 + segment_length = buf_end);
            pgs \<leftarrow> pgs_segment E m (buf + 13) segment_length stamp (byte_at m (buf + 10)) pgs;
            decode_pgs E m (buf + 13 + segment_length) buf_end pgs }
      else Some pgs)"
  by pat_completeness auto
termination
  by (relation "measure (\<lambda>(E, m, buf, buf_end, pgs). buf_end - buf)") auto

declare decode_pgs.simps [simp del]

section \<open>Packets of the player\<close>

definition be_bytes :: "int \<Rightarrow> u8 list" where
  "be_bytes v = map (\<lambda>k. word_of_int (0xFF AND drop_bit k v)) [24, 16, 8, 0]"

text \<open>The packet that \<open>softDemuxParser\<close> builds for one segment of the player's data.\<close>

definition pgs_packet :: "int \<Rightarrow> int \<Rightarrow> u8 list \<Rightarrow> u8 list" where
  "pgs_packet stamp type payload =
     [0x50, 0x47] @ be_bytes stamp @ [0, 0, 0, 0] @ [word_of_int type,
      word_of_int (0xFF AND drop_bit 8 (int (length payload))), word_of_int (0xFF AND int (length payload))] @ payload"

definition PGS_MAX_PACKET :: int where "PGS_MAX_PACKET = 1920 * 1280 div 8 * 4"

function soft_segments :: "env \<Rightarrow> mem \<Rightarrow> int \<Rightarrow> nat \<Rightarrow> nat \<Rightarrow> PgsParser \<Rightarrow> PgsParser option" where
  "soft_segments E m stamp buf buf_end pgs =
     (if buf < buf_end then
        if mState pgs = SUB_STOP then Some pgs
        else
          let type = byte_at m buf; packetLen = nat (be16 m (buf + 1)) in
          if packetLen = 0 \<and> type \<noteq> 0x80 then Some pgs
          else if buf + 3 + packetLen > buf_end then Some pgs
          else if 13 + int packetLen > PGS_MAX_PACKET then Some pgs
          else
            let packet = pgs_packet stamp type (bytes_at m (buf + 3) packetLen) in do {
              pgs \<leftarrow> decode_pgs E (packet_mem E packet) 0 (length packet) pgs;
              soft_segments E m stamp (buf + 3 + packetLen) buf_end pgs }
      else Some pgs)"
  by pat_completeness auto
termination
  by (relation "measure (\<lambda>(E, m, stamp, buf, buf_end, pgs). buf_end - buf)") auto

declare soft_segments.simps [simp del]

definition softDemuxParser :: "env \<Rightarrow> 's reader \<Rightarrow> PgsParser \<Rightarrow> 's \<Rightarrow> (PgsParser \<times> 's) option" where
  "softDemuxParser E rd pgs s = do {
     (n, header, s) \<leftarrow> read_into rd 19 (replicate 19 0) s;
     (if n \<noteq> 19 then Some (pgs, s)
      else
        let dataLen = subPeekAsUint32 (cval E) (drop 3 header); stamp = subPeekAsUint64 (cval E) (drop 7 header) in
        if stamp = 0 then Some (pgs, s)
        else do {
          (n, data, s) \<leftarrow> read_into rd dataLen (replicate (nat dataLen) 0) s;
          (if n \<noteq> dataLen then Some (pgs, s)
           else do {
             pgs \<leftarrow> soft_segments E (packet_mem E data) stamp 0 (nat dataLen) pgs;
             Some (pgs, s) }) }) }"

section \<open>PES packets of the demultiplexer\<close>

text \<open>
  An empty PES header is an empty vector, whose data pointer is null: its first byte is then
  read through it. A header of less than five bytes is read past its end.
\<close>

definition pgs_timestamp :: "env \<Rightarrow> u8 list \<Rightarrow> int option" where
  "pgs_timestamp E header =
     (if header = [] then None
      else Some (pes_timestamp (cval E) (map (packet_mem E header) [0..<5]) 0))"

definition hwDemuxParser ::
  "env \<Rightarrow> 's reader \<Rightarrow> ('s \<Rightarrow> int) \<Rightarrow> PgsParser \<Rightarrow> 's \<Rightarrow> (PgsParser \<times> 's) option" where
  "hwDemuxParser E rd available pgs s = do {
     (n, dataLen, s) \<leftarrow> read_into rd 2 [0, 0] s;
     (if n \<noteq> 2 \<or> be16 (mem_of dataLen) 0 < 3 then Some (pgs, s)
      else do {
        (n, header, s) \<leftarrow> read_into rd 3 [0, 0, 0] s;
        let packetLen = be16 (mem_of dataLen) 0 - 3;
        let pesHeaderLen = cval E (header ! 2);
        let tag = cval E (header ! 1) AND 0xc0;
        (if n \<noteq> 3 \<or> packetLen < u32_of pesHeaderLen then Some (pgs, s)
         else if tag \<noteq> 0x80 \<and> tag \<noteq> 0xc0 then do {
           s \<leftarrow> skip_bytes rd (nat packetLen) s;
           Some (pgs, s) }
         else do {
           (n, pesHeader, s) \<leftarrow> read_into rd pesHeaderLen (replicate (nat pesHeaderLen) 0) s;
           (if n \<noteq> pesHeaderLen then Some (pgs, s)
            else do {
              stamp \<leftarrow> pgs_timestamp E pesHeader;
              let dts = (if tag = 0xc0 then stamp else 0);
              let packetLen = packetLen - pesHeaderLen;
              let packetLen = (if tag = 0xc0 then u32_of (packetLen - 5) else packetLen);
              (if stamp = 0 \<or> packetLen \<le> 0 \<or> available s < packetLen \<or> mState pgs = SUB_STOP
               then Some (pgs, s)
               else do {
                 (n, payload, s) \<leftarrow> read_into rd packetLen (replicate (nat packetLen) 0) s;
                 (if n \<noteq> packetLen then Some (pgs, s)
                  else do {
                    pgs \<leftarrow> decode_pgs E (packet_mem E ([0x50, 0x47] @ be_bytes stamp @ be_bytes dts @ payload)) 0 10 pgs;
                    Some (pgs, s) }) }) }) }) }) }"

text \<open>
  The shift of \<open>readDataSource\<close> masks with 40 bits where the other decoders mask with 32
  bits shifted by 8: the low byte of the shifted register is 0 anyway.
\<close>

lemma pgs_header_mask: "(push_bit 8 h AND 0xffffffffff) OR c = shift_header h c"
proof -
  have m: "(0xffffffffff :: int) = mask 40" "(0xffffffff00 :: int) = push_bit 8 (mask 32)"
    by (simp_all add: mask_eq_exp_minus_1 push_bit_eq_mult)
  have "push_bit 8 h AND 0xffffffffff = push_bit 8 h AND 0xffffffff00"
    unfolding m by (rule bit_eqI) (auto simp: bit_simps)
  then show ?thesis by (simp add: shift_header_def)
qed

definition readDataSource ::
  "env \<Rightarrow> 's reader \<Rightarrow> ('s \<Rightarrow> int) \<Rightarrow> PgsParser \<Rightarrow> 's \<Rightarrow> (int \<times> PgsParser \<times> 's) option" where
  "readDataSource E rd available pgs s =
     (let pgs = pgs\<lparr>mState := SUB_PLAYING\<rparr> in do {
        (sync, s) \<leftarrow> find_sync uint rd (mState pgs = SUB_STOP) 0 s;
        (case sync of
           NoSync \<Rightarrow> Some (-1, pgs, s)
         | HwSync \<Rightarrow> do { (pgs, s) \<leftarrow> hwDemuxParser E rd available pgs s; Some (0, pgs, s) }
         | SoftSync \<Rightarrow> do { (pgs, s) \<leftarrow> softDemuxParser E rd pgs s; Some (0, pgs, s) }) })"
section \<open>The packets are what the segments were\<close>

lemma packet_mem_nth: "i < length xs \<Longrightarrow> packet_mem E xs i = xs ! i"
  by (simp add: packet_mem_def)

lemma byte_and: "uint (word_of_int (0xFF AND v) :: u8) = v mod 256"
  using and_masks(1) [of v] by (simp add: and.commute take_bit_eq_mod uint_word_of_int)

lemma be32_eq: "be32 m p = 16777216 * byte_at m p + 65536 * byte_at m (p + 1) + 256 * byte_at m (p + 2) + byte_at m (p + 3)"
proof -
  have d: "a OR push_bit k b = a + push_bit k b" if "0 \<le> a" "a < 2 ^ k" for a b :: int and k
  proof -
    have "take_bit k a = a" using that by (simp add: take_bit_int_eq_self)
    then have below: "n < k" if "bit a n" for n using that by (metis bit_take_bit_iff)
    show ?thesis by (intro disjunctive_add [symmetric]) (auto simp: bit_push_bit_iff dest: below)
  qed
  define a b c where "a = byte_at m (p + 3)" and "b = byte_at m (p + 2)" and "c = byte_at m (p + 1)"
  have r: "0 \<le> a" "a < 256" "0 \<le> b" "b < 256" "0 \<le> c" "c < 256" by (simp_all add: a_def b_def c_def)
  have "a OR push_bit 8 b = a + 256 * b" using d [of a 8 b] r by (simp add: push_bit_eq_mult)
  moreover have "(a + 256 * b) OR push_bit 16 c = a + 256 * b + 65536 * c"
    using d [of "a + 256 * b" 16 c] r by (simp add: push_bit_eq_mult)
  moreover have "(a + 256 * b + 65536 * c) OR push_bit 24 (byte_at m p) = a + 256 * b + 65536 * c + 16777216 * byte_at m p"
    using d [of "a + 256 * b + 65536 * c" 24 "byte_at m p"] r by (simp add: push_bit_eq_mult)
  ultimately show ?thesis by (simp add: bytestream_get_be32_def a_def b_def c_def)
qed

lemma be_bytes_value:
  "16777216 * uint (be_bytes v ! 0) + 65536 * uint (be_bytes v ! 1) + 256 * uint (be_bytes v ! 2) + uint (be_bytes v ! 3)
    = v mod 4294967296"
proof -
  have m: "x mod (256 * n) = 256 * (x div 256 mod n) + x mod 256" if "0 \<le> n" for x n :: int
    using that by (rule zmod_zmult2_eq)
  have horner: "16777216 * a + 65536 * b + 256 * c + d = x"
    if "x = 256 * y + d" "y = 256 * z + c" "z = 256 * a + b" for a b c d x y z :: int
    using that by simp
  have "v mod 4294967296 = 256 * (v div 256 mod 16777216) + v mod 256"
    using m [of 16777216 v] by simp
  moreover have "v div 256 mod 16777216 = 256 * (v div 65536 mod 65536) + v div 256 mod 256"
    using m [of 65536 "v div 256"] zdiv_zmult2_eq [of 256 v 256] by simp
  moreover have "v div 65536 mod 65536 = 256 * (v div 16777216 mod 256) + v div 65536 mod 256"
    using m [of 256 "v div 65536"] zdiv_zmult2_eq [of 256 v 65536] by simp
  ultimately have "16777216 * (v div 16777216 mod 256) + 65536 * (v div 65536 mod 256) + 256 * (v div 256 mod 256)
      + v mod 256 = v mod 4294967296" by (rule horner)
  moreover have "uint (be_bytes v ! 0) = v div 16777216 mod 256" "uint (be_bytes v ! 1) = v div 65536 mod 256"
      "uint (be_bytes v ! 2) = v div 256 mod 256" "uint (be_bytes v ! 3) = v mod 256"
    by (simp_all add: be_bytes_def byte_and drop_bit_eq_div)
  ultimately show ?thesis by (simp only:)
qed

lemma pgs_packet_fields:
  fixes payload :: "u8 list" and stamp type :: int and E :: env
  assumes "length payload < 65536" "0 \<le> type" "type < 256"
  defines "m \<equiv> packet_mem E (pgs_packet stamp type payload)"
  shows "wrap32 (be32 m 2) = wrap32 stamp" "byte_at m 10 = type" "be16 m 11 = int (length payload)"
    "bytes_here m 13 payload"
proof -
  have len: "length (pgs_packet stamp type payload) = 13 + length payload"
    by (simp add: pgs_packet_def be_bytes_def)
  have at: "byte_at m i = uint (pgs_packet stamp type payload ! i)" if "i < 13" for i
    using that len by (simp add: m_def byte_at_def packet_mem_def)
  have bb: "length (be_bytes stamp) = 4" by (simp add: be_bytes_def)
  have "be32 m 2 = stamp mod 4294967296"
    unfolding be32_eq be_bytes_value [symmetric] by (simp add: at pgs_packet_def be_bytes_def)
  then show "wrap32 (be32 m 2) = wrap32 stamp" by (simp add: wrap32_eq_iff)
  show "byte_at m 10 = type"
    using assms(2,3) by (simp add: at pgs_packet_def be_bytes_def uint_word_of_int)
  have "int (length payload) div 256 < 256" using assms(1) by simp
  then show "be16 m 11 = int (length payload)"
    unfolding be16_eq by (simp add: at pgs_packet_def be_bytes_def byte_and drop_bit_eq_div)
  show "bytes_here m 13 payload"
    unfolding bytes_here_def m_def
    by (auto simp: packet_mem_def len pgs_packet_def be_bytes_def nth_append)
qed

text \<open>One packet is one segment, read right behind the 13 bytes of its header.\<close>

definition one_segment :: "env \<Rightarrow> int \<Rightarrow> int \<Rightarrow> u8 list \<Rightarrow> PgsParser \<Rightarrow> PgsParser option" where
  "one_segment E stamp type payload pgs =
     pgs_segment E (packet_mem E (pgs_packet stamp type payload)) 13 (length payload) (wrap32 stamp) type
       (first_pts (wrap32 stamp sdiv DEFAULT_DVB_TIME_MULTI) pgs)"

lemma decode_pgs_packet:
  assumes "length payload < 65536" "0 \<le> type" "type < 256" "mState pgs \<noteq> SUB_STOP"
  shows "decode_pgs E (packet_mem E (pgs_packet stamp type payload)) 0 (length (pgs_packet stamp type payload)) pgs
    = one_segment E stamp type payload pgs"
proof -
  let ?m = "packet_mem E (pgs_packet stamp type payload)"
  have len: "length (pgs_packet stamp type payload) = 13 + length payload"
    by (simp add: pgs_packet_def be_bytes_def)
  note f = pgs_packet_fields [OF assms(1-3), of E stamp]
  have stop: "decode_pgs E ?m n n p = Some p" for n p by (subst decode_pgs.simps) simp
  have "x \<bind> (\<lambda>p. decode_pgs E ?m (13 + length payload) (13 + length payload) p) = x" for x
    by (cases x) (simp_all add: stop)
  then show ?thesis
    unfolding len using assms(4) f
    by (subst decode_pgs.simps) (simp add: one_segment_def Let_def f(1) [unfolded numeral_2_eq_2])
qed
section \<open>Every packet keeps the invariant\<close>

definition pgs_inv :: "PgsParser \<Rightarrow> bool" where
  "pgs_inv pgs \<longleftrightarrow> pgs_ok (mPgsContext pgs) \<and> (\<forall>c \<in> set (mPgsContextList pgs). pgs_ok c)"

lemma new_pgs_inv: "pgs_inv new_pgs"
  using zero_pgs_ok by (simp add: pgs_inv_def new_pgs_def start_parser_def Parser.defs PgsParser.defs)

lemma pgs_segment_yields:
  assumes "pgs_inv pgs"
  shows "yields (\<lambda>p. pgs_inv p \<and> mState p = mState pgs) (pgs_segment E m buf len stamp type pgs)"
proof -
  let ?c = "mPgsContext pgs"
  have c: "pgs_ok ?c" using assms by (simp add: pgs_inv_def)
  have "pgs_ok (?c\<lparr>presentation := (presentation ?c)\<lparr>pres_pts := stamp\<rparr>\<rparr>)"
    using c by (simp add: pgs_ok_def presentation_ok_def)
  note pres = parsePresentation_ok [OF this, of m buf len]
  have put: "pgs_inv (pgs\<lparr>mPgsContext := c'\<rparr>)" if "pgs_ok c'" for c'
    using that assms by (simp add: pgs_inv_def)
  have pal: "yields (\<lambda>p. pgs_inv p \<and> mState p = mState pgs)
      (parsePaletteSegment m buf len ?c \<bind> (\<lambda>ctx. Some (pgs\<lparr>mPgsContext := ctx\<rparr>)))"
    unfolding yields_bind_iff by (rule yields_mono [OF parsePalette_ok [OF c]]) (simp add: put)
  have obj: "yields (\<lambda>p. pgs_inv p \<and> mState p = mState pgs)
      (parsePgsObject E m buf len ?c \<bind> (\<lambda>(_, ctx). Some (pgs\<lparr>mPgsContext := ctx\<rparr>)))"
    unfolding yields_bind_iff by (rule yields_mono [OF parseObject_ok [OF c]]) (auto simp: put)
  have "pgs_inv (pgs\<lparr>mPgsContextList := mPgsContextList pgs @ [?c]\<rparr>)"
    using assms c by (simp add: pgs_inv_def)
  with pres pal obj assms show ?thesis
    unfolding pgs_segment_def Let_def by (auto simp: put)
qed

lemma one_segment_yields:
  assumes "pgs_inv pgs"
  shows "yields (\<lambda>p. pgs_inv p \<and> mState p = mState pgs) (one_segment E stamp type payload pgs)"
proof -
  let ?p = "first_pts (wrap32 stamp sdiv DEFAULT_DVB_TIME_MULTI) pgs"
  have "pgs_inv ?p" "mState ?p = mState pgs" using assms by (simp_all add: first_pts_def pgs_inv_def)
  then show ?thesis
    unfolding one_segment_def using pgs_segment_yields [of ?p] by simp
qed

text \<open>The player's data, whatever it holds.\<close>

lemma soft_segments_yields:
  "pgs_inv pgs \<Longrightarrow> yields (\<lambda>p. pgs_inv p \<and> mState p = mState pgs) (soft_segments E m stamp buf e pgs)"
proof (induction "e - buf" arbitrary: buf pgs rule: less_induct)
  case less
  let ?n = "nat (be16 m (buf + 1))" and ?type = "byte_at m buf"
  let ?pl = "bytes_at m (buf + 3) ?n"
  let ?packet = "pgs_packet stamp ?type ?pl"
  have n: "?n < 65536" "length ?pl = ?n" by (simp_all add: bytes_at_def nat_less_iff)
  have "yields (\<lambda>p. pgs_inv p \<and> mState p = mState pgs)
      (decode_pgs E (packet_mem E ?packet) 0 (length ?packet) pgs \<bind> (\<lambda>p. soft_segments E m stamp (buf + 3 + ?n) e p))"
    if "buf < e" "mState pgs \<noteq> SUB_STOP"
  proof -
    have "yields (\<lambda>p. pgs_inv p \<and> mState p = mState pgs) (one_segment E stamp ?type ?pl pgs)"
      by (rule one_segment_yields [OF less.prems])
    then obtain p where p: "one_segment E stamp ?type ?pl pgs = Some p" "pgs_inv p" "mState p = mState pgs"
      by (auto elim: yieldsE)
    have "decode_pgs E (packet_mem E ?packet) 0 (length ?packet) pgs = Some p"
      using decode_pgs_packet [of ?pl ?type pgs E stamp] n that(2) p(1) by simp
    then show ?thesis using less.hyps [OF _ p(2), of "buf + 3 + ?n"] that(1) p(3) by simp
  qed
  then show ?case
    using less.prems by (subst soft_segments.simps) (simp add: Let_def)
qed

section \<open>The player's framing\<close>

text \<open>How the player frames segments: type, length, payload.\<close>

fun encode_frame :: "int \<times> u8 list \<Rightarrow> u8 list" where
  "encode_frame (type, payload) = ([word_of_int type, word_of_int (int (length payload) div 256),
     word_of_int (int (length payload) mod 256)] @ payload)"

definition frame_ok :: "int \<times> u8 list \<Rightarrow> bool" where
  "frame_ok = (\<lambda>(type, payload). 0 \<le> type \<and> type < 256 \<and> length payload < 65536 \<and> (payload = [] \<longrightarrow> type = 0x80))"

lemma bytes_here_at: "bytes_here m p xs \<Longrightarrow> bytes_at m p (length xs) = xs"
  by (rule nth_equalityI) (simp_all add: bytes_here_def bytes_at_def)

lemma soft_segments_frames:
  assumes "bytes_here m p (concat (map encode_frame fs))" "\<forall>f \<in> set fs. frame_ok f" "pgs_inv pgs"
    "mState pgs \<noteq> SUB_STOP"
  shows "soft_segments E m stamp p (p + length (concat (map encode_frame fs))) pgs
    = each (\<lambda>(type, payload). one_segment E stamp type payload) fs pgs"
  using assms
proof (induction fs arbitrary: p pgs)
  case Nil
  then show ?case by (subst soft_segments.simps) simp
next
  case (Cons f fs)
  obtain type payload where f: "f = (type, payload)" by fastforce
  have ok: "0 \<le> type" "type < 256" "length payload < 65536" "payload = [] \<longrightarrow> type = 0x80"
    using Cons.prems(2) by (auto simp: f frame_ok_def)
  let ?q = "p + 3 + length payload"
  have here: "m p = word_of_int type" "m (p + 1) = word_of_int (int (length payload) div 256)"
    "m (p + 1 + 1) = word_of_int (int (length payload) mod 256)"
    "bytes_here m (p + 3) payload" "bytes_here m ?q (concat (map encode_frame fs))"
    using Cons.prems(1)
    by (simp_all add: f bytes_here_Cons bytes_here_append
        numeral_3_eq_3)
  have type: "byte_at m p = type" using ok(1,2) here(1) by (simp add: byte_at_def uint_word_of_int)
  have "int (length payload) div 256 < 256" using ok(3) by simp
  then have len: "be16 m (p + 1) = int (length payload)"
    unfolding be16_eq byte_at_def here(2,3) by (simp add: uint_word_of_int)
  have pl: "bytes_at m (p + 3) (length payload) = payload" by (rule bytes_here_at [OF here(4)])
  obtain q where q: "one_segment E stamp type payload pgs = Some q" "pgs_inv q" "mState q = mState pgs"
    using one_segment_yields [OF Cons.prems(3), of E stamp type payload] by (auto elim: yieldsE)
  have IH: "soft_segments E m stamp ?q (?q + length (concat (map encode_frame fs))) q
      = each (\<lambda>(type, payload). one_segment E stamp type payload) fs q"
    using Cons.prems(2,4) q by (intro Cons.IH [OF here(5)]) auto
  have e: "p + length (concat (map encode_frame (f # fs))) = ?q + length (concat (map encode_frame fs))"
    by (simp add: f)
  have "soft_segments E m stamp p (?q + length (concat (map encode_frame fs))) pgs
      = soft_segments E m stamp ?q (?q + length (concat (map encode_frame fs))) q"
    using ok type len pl Cons.prems(4) q(1) decode_pgs_packet [OF ok(3,1,2) Cons.prems(4)]
    by (subst soft_segments.simps) (auto simp: Let_def PGS_MAX_PACKET_def)
  then show ?case unfolding e using IH q(1) by (simp add: f)
qed
section \<open>The demultiplexer's packets\<close>

text \<open>The vector has 10 bytes, so the first segment never ends where the vector does.\<close>

lemma decode_reserved:
  assumes "mState pgs \<noteq> SUB_STOP"
  shows "decode_pgs E m 0 10 pgs = (if asserts E then None else
    pgs_segment E m 13 (nat (be16 m 11)) (wrap32 (be32 m 2)) (byte_at m 10)
      (first_pts (wrap32 (be32 m 2) sdiv DEFAULT_DVB_TIME_MULTI) pgs))"
proof -
  have stop: "decode_pgs E m (13 + n) 10 p = Some p" for n p by (subst decode_pgs.simps) simp
  have "x \<bind> (\<lambda>p. decode_pgs E m (13 + n) 10 p) = x" for x n by (cases x) (simp_all add: stop)
  then show ?thesis
    using assms by (subst decode_pgs.simps)
      (simp add: Let_def assert_that_def numeral_2_eq_2)
qed

context byte_source begin

lemma hw_empty_header:
  assumes "live s" "pending s = [hi, lo, x, flags, 0] @ rest" "3 \<le> 256 * uint hi + uint lo"
    "cval E flags AND 0xc0 \<in> {0x80, 0xc0}" "cval E 0 = 0"
  shows "hwDemuxParser E rd available pgs s = None"
proof -
  obtain s1 where s1: "read_into rd 2 [0, 0] s = Some (2, [hi, lo] @ drop (length [hi, lo]) [0, 0], s1)"
      "pending s1 = [x, flags, 0] @ rest" "live s1"
    by (rule read_into_exact [OF assms(1), of "[hi, lo]" "[x, flags, 0] @ rest" 2 "[0, 0]"])
      (use assms(2) in simp_all)
  obtain s2 where s2: "read_into rd 3 [0, 0, 0] s1
      = Some (3, [x, flags, 0] @ drop (length [x, flags, 0]) [0, 0, 0], s2)" "pending s2 = rest" "live s2"
    by (rule read_into_exact [OF s1(3,2), of 3 "[0, 0, 0]"]) simp_all
  obtain s3 where s3: "read_into rd 0 [] s2 = Some (0, [] @ drop (length ([] :: u8 list)) [], s3)"
    by (rule read_into_exact [OF s2(3), of "[]" rest 0 "[]"]) (use s2(2) in simp_all)
  have be: "be16 (mem_of [hi, lo]) 0 = 256 * uint hi + uint lo"
    unfolding be16_eq by (simp add: mem_of_def byte_at_def)
  have "0 \<le> 256 * uint hi + uint lo - 3" using assms(3) by simp
  then show ?thesis
    using s1(1) s2(1) s3 assms(3-5) be
    by (auto simp: hwDemuxParser_def Let_def pgs_timestamp_def)
qed

text \<open>A unit of the player: header, data, and the source left behind it.\<close>

lemma soft_unit_parsed:
  assumes "live s" "pending s = header @ data @ rest" "length header = 19"
    "subPeekAsUint32 (cval E) (drop 3 header) = int (length data)" "length data < 2 ^ 31"
    "subPeekAsUint64 (cval E) (drop 7 header) = stamp" "stamp \<noteq> 0" "pgs_inv pgs"
  shows "yields (\<lambda>(p, s'). soft_segments E (packet_mem E data) stamp 0 (length data) pgs = Some p \<and>
    pgs_inv p \<and> pending s' = rest \<and> live s') (softDemuxParser E rd pgs s)"
proof -
  obtain s1 where s1: "read_into rd 19 (replicate 19 0) s = Some (19, header @ drop (length header) (replicate 19 0), s1)"
      "pending s1 = data @ rest" "live s1"
    by (rule read_into_exact [OF assms(1,2), of 19 "replicate 19 0"]) (use assms(3) in simp_all)
  obtain s2 where s2: "read_into rd (int (length data)) (replicate (length data) 0) s1
      = Some (int (length data), data @ drop (length data) (replicate (length data) 0), s2)" "pending s2 = rest" "live s2"
    by (rule read_into_exact [OF s1(3,2), of "int (length data)" "replicate (length data) 0"]) (use assms(5) in simp_all)
  obtain p where p: "soft_segments E (packet_mem E data) stamp 0 (length data) pgs = Some p" "pgs_inv p"
    using soft_segments_yields [OF assms(8), of E "packet_mem E data" stamp 0 "length data"] by (auto elim: yieldsE)
  have "header @ drop (length header) (replicate 19 0) = header" using assms(3) by simp
  then show ?thesis
    using s1(1) s2 p assms(4,6,7) unfolding softDemuxParser_def Let_def by simp
qed

end

end
