(* ===== verification/Pgs_Show.thy ===== *)
theory Pgs_Show
  imports Pgs_Decode
begin

text \<open>
  What the presentation side of \<open>PgsParser.cpp\<close> guarantees: bitmaps are the decoded
  pixels in their palette's colours, display sets are consumed in order, and the calls
  never leave the buffers as long as the objects are not too large.
\<close>

section \<open>Bitmaps\<close>

definition bitmap_of :: "u32 list \<Rightarrow> u8 list \<Rightarrow> u8 list" where
  "bitmap_of palette ds = concat (map (\<lambda>d. colour_bytes (palette ! unat d)) ds)"

lemma length_bitmap_of: "length (bitmap_of palette ds) = 4 * length ds"
  by (induction ds) (simp_all add: bitmap_of_def colour_bytes_def)

lemma masked_bytes: "ucast (v AND 0xFF :: u32) = (ucast v :: u8)" "ucast (drop_bit k v AND 0xFF :: u32) = (ucast (drop_bit k v) :: u8)"
proof -
  have m: "(0xFF :: u32) = mask 8" by (simp add: mask_eq_exp_minus_1)
  show "ucast (v AND 0xFF :: u32) = (ucast v :: u8)" "ucast (drop_bit k v AND 0xFF :: u32) = (ucast (drop_bit k v) :: u8)"
    unfolding m by (rule bit_word_eqI, auto simp: bit_simps)+
qed

lemma store_four:
  assumes "length xs = n + 4 + k" "a = int n"
  shows "\<exists>ys. (do { xs \<leftarrow> store xs a p; xs \<leftarrow> store xs (a + 1) q; xs \<leftarrow> store xs (a + 2) r; store xs (a + 3) t }) = Some ys \<and>
    length ys = length xs \<and> take n ys = take n xs \<and> take (n + 4) ys = take n xs @ [p, q, r, t]"
proof -
  let ?ys = "xs[n := p, n + 1 := q, n + 2 := r, n + 3 := t]"
  have nat: "nat (int n + 1) = n + 1" "nat (int n + 2) = n + 2" "nat (int n + 3) = n + 3" by auto
  have "take (n + 4) ?ys = take n xs @ [p, q, r, t]"
    using assms(1) by (intro nth_equalityI) (auto simp: nth_append nth_list_update nth_Cons split: nat.splits)
  then show ?thesis
    using assms by (simp add: store_def nat)
qed

lemma paint_pixel_yields:
  assumes "length palette = 256" "length bm = 4 * length ds" "0 \<le> i" "i < int (length ds)" "4 * length ds < 2 ^ 31"
    "take (nat (4 * i)) bm = bitmap_of palette (take (nat i) ds)"
  shows "yields (\<lambda>bm'. length bm' = 4 * length ds \<and> take (nat (4 * (i + 1))) bm' = bitmap_of palette (take (nat (i + 1)) ds))
    (paint_pixel palette ds i bm)"
proof -
  let ?n = "nat i" and ?d = "ds ! nat i"
  have n: "?n < length ds" "i = int ?n" using assms(3,4) by auto
  have "uint ?d < 256" using uint_bounded [of ?d] by simp
  then have ld: "load ds i = Some ?d" "load palette (uint ?d) = Some (palette ! unat ?d)"
    using assms(1,3,4) by (simp_all add: load_def)
  let ?v = "palette ! unat ?d"
  have j: "wrap32 (4 * i) = int (4 * ?n)" using assms(3-5) by (subst wrap32_id) auto
  obtain k where k: "length bm = 4 * ?n + 4 + k" using n(1) assms(2) by (metis less_eq_Suc_le le_Suc_ex add_mult_distrib2 mult_Suc_right add.commute add.assoc)
  obtain ys where ys: "(do { xs \<leftarrow> store bm (int (4 * ?n)) (ucast ?v); xs \<leftarrow> store xs (int (4 * ?n) + 1) (ucast (drop_bit 8 ?v));
      xs \<leftarrow> store xs (int (4 * ?n) + 2) (ucast (drop_bit 16 ?v)); store xs (int (4 * ?n) + 3) (ucast (drop_bit 24 ?v)) }) = Some ys"
      "length ys = length bm" "take (4 * ?n + 4) ys = take (4 * ?n) bm
        @ [ucast ?v, ucast (drop_bit 8 ?v), ucast (drop_bit 16 ?v), ucast (drop_bit 24 ?v)]"
    using store_four [OF k refl] by metis
  have "bitmap_of palette (take (nat (i + 1)) ds) = bitmap_of palette (take ?n ds) @ colour_bytes ?v"
    using n(1) assms(3) by (simp add: bitmap_of_def nat_add_distrib take_Suc_conv_app_nth del: One_nat_def)
  moreover have "nat (4 * (i + 1)) = 4 * ?n + 4" "nat (4 * i) = 4 * ?n" using assms(3) by auto
  ultimately show ?thesis
    using ys assms(2,6) unfolding paint_pixel_def ld j Option.bind.simps Let_def masked_bytes
    by (simp add: colour_bytes_def)
qed

lemma render_bitmap:
  assumes "decodedRle rect = Some ds" "decodedRleSize rect = int (length ds)" "4 * length ds < 2 ^ 31"
    "length (rect_palette rect) = 256" "malloc_ok E (BitmapBuffer (4 * int (length ds)))"
  shows "renderRle2Bitmap E rect = Some (rect\<lparr>bitmapSize := 4 * int (length ds),
    rect_bitmap := Some (bitmap_of (rect_palette rect) ds)\<rparr>)"
proof -
  have size: "wrap32 (4 * int (length ds)) = 4 * int (length ds)" "size_of (4 * int (length ds)) = 4 * int (length ds)"
    using assms(3) by (auto intro!: wrap32_id size_of_id)
  let ?init = "map (stray E) [0..<nat (4 * int (length ds))]"
  have "yields (\<lambda>bm. length bm = 4 * length ds \<and>
      take (nat (4 * int (length ds))) bm = bitmap_of (rect_palette rect) (take (nat (int (length ds))) ds))
      (each (paint_pixel (rect_palette rect) ds) [0..int (length ds) - 1] ?init)"
  proof (rule each_upto_yields)
    show "length ?init = 4 * length ds \<and> take (nat (4 * 0)) ?init = bitmap_of (rect_palette rect) (take (nat 0) ds)"
      by (simp add: bitmap_of_def)
    show "yields (\<lambda>bm. length bm = 4 * length ds \<and>
        take (nat (4 * (i + 1))) bm = bitmap_of (rect_palette rect) (take (nat (i + 1)) ds))
        (paint_pixel (rect_palette rect) ds i s)"
      if "0 \<le> i" "i < int (length ds)" "length s = 4 * length ds \<and>
        take (nat (4 * i)) s = bitmap_of (rect_palette rect) (take (nat i) ds)" for i s
      using that assms(3,4) by (intro paint_pixel_yields) auto
  qed simp
  then obtain bm where "each (paint_pixel (rect_palette rect) ds) [0..int (length ds) - 1] ?init = Some bm"
      "length bm = 4 * length ds" "take (4 * length ds) bm = bitmap_of (rect_palette rect) ds"
    by (auto elim!: yieldsE simp: nat_mult_distrib)
  then show ?thesis
    using assms size by (simp add: renderRle2Bitmap_def malloc_bytes_def)
qed
section \<open>Decoding a display set is safe\<close>

text \<open>A rectangle that may be shown: its bitmap has the size it announces; no RLE buffer is left.\<close>

definition rect_ok :: "AVSubtitleRect \<Rightarrow> bool" where
  "rect_ok rect \<longleftrightarrow> decodedRle rect = None \<and> (\<forall>b. is_valid rect \<longrightarrow> rect_bitmap rect = Some b \<longrightarrow>
     int (length b) = bitmapSize rect \<and> bitmapSize rect = 4 * (rect_w rect * rect_h rect))"

definition small_object :: "PGSSubObject \<Rightarrow> bool" where
  "small_object ob \<longleftrightarrow> pgs_w ob * pgs_h ob < 2 ^ 28"

lemma zero_rect_ok: "rect_ok zero_rect"
  by (simp add: rect_ok_def zero_rect_def)

lemma object_size_fits:
  assumes "rle_ok ob" "small_object ob" "rle ob \<noteq> []"
  shows "size_fits (pgs_w ob) (pgs_h ob)" "0 \<le> pgs_w ob * pgs_h ob"
    "wrap32 (pgs_w ob * pgs_h ob) = pgs_w ob * pgs_h ob"
    "size_of (pgs_w ob * pgs_h ob) = pgs_w ob * pgs_h ob"
proof -
  define n where "n = pgs_w ob * pgs_h ob"
  show nn: "0 \<le> pgs_w ob * pgs_h ob" using assms(1,3) by (simp add: rle_ok_def)
  have n: "0 \<le> n" "n < 2 ^ 28" using nn assms(2) by (simp_all add: small_object_def n_def)
  have "wrap32 n = n" "size_of n = n" using n by (auto intro!: wrap32_id size_of_id)
  then show "wrap32 (pgs_w ob * pgs_h ob) = pgs_w ob * pgs_h ob" "size_of (pgs_w ob * pgs_h ob) = pgs_w ob * pgs_h ob"
    by (simp_all add: n_def)
  show "size_fits (pgs_w ob) (pgs_h ob)"
    using assms(1,3) n by (simp add: size_fits_def rle_ok_def n_def)
qed

lemma render_failed:
  assumes "decodedRle rect \<noteq> None \<or> \<not> asserts E" "\<not> malloc_ok E (BitmapBuffer (wrap32 (4 * decodedRleSize rect)))"
  shows "renderRle2Bitmap E rect = Some (rect\<lparr>bitmapSize := wrap32 (4 * decodedRleSize rect), rect_bitmap := None\<rparr>)"
  using assms by (auto simp: renderRle2Bitmap_def assert_that_def malloc_bytes_def)

text \<open>What the RLE part leaves in a fresh rectangle.\<close>

definition decoded_for :: "PGSSubObject \<Rightarrow> AVSubtitleRect \<Rightarrow> object_flow \<times> AVSubtitleRect \<Rightarrow> bool" where
  "decoded_for ob rect = (\<lambda>(flow, rect').
     (if flow = Render then
        (if rle ob = [] then rect' = rect
         else \<exists>ds. int (length ds) = pgs_w ob * pgs_h ob \<and>
           rect' = rect\<lparr>rect_w := pgs_w ob, rect_h := pgs_h ob, decodedRleSize := pgs_w ob * pgs_h ob,
                        decodedRle := Some ds\<rparr>)
      else decodedRle rect' = None \<and> rect_bitmap rect' = None))"

lemma decode_object_yields:
  assumes "rle_ok ob" "small_object ob" "decodedRle rect = None" "rect_bitmap rect = None"
  shows "yields (decoded_for ob rect) (decode_object E ob rect)"
proof (cases "rle ob = [] \<or> rle_remaining_len ob \<noteq> 0")
  case True
  with assms show ?thesis by (auto simp: decode_object_def decoded_for_def Let_def)
next
  case False
  note sz = object_size_fits [OF assms(1,2)]
  let ?n = "pgs_w ob * pgs_h ob"
  let ?buf = "map (stray E) [0..<nat ?n]"
  have "int (length ?buf) = ?n" using sz(2) False by simp
  then obtain ok out where dec: "decodeRle (packet_mem E (rle ob)) (length (rle ob)) (pgs_w ob) (pgs_h ob) ?buf
      = Some (ok, out)" "length out = length ?buf"
    using decodeRle_yields [of "pgs_w ob" "pgs_h ob" ?buf "packet_mem E (rle ob)" "length (rle ob)"] sz(1) False
    by (auto elim: yieldsE)
  then show ?thesis
    using False assms sz
    by (auto simp: decode_object_def decoded_for_def malloc_bytes_def Let_def intro!: exI [of _ out])
qed

lemma render_object_yields:
  assumes "rle_ok ob" "small_object ob" "length palette = 256" "asserts E \<longrightarrow> rle ob \<noteq> []"
  shows "yields (\<lambda>(flow, rect). rect_ok rect) (render_object E palette ob r i zero_rect)"
proof -
  let ?r0 = "zero_rect\<lparr>rect_x := ref_x r, rect_y := ref_y r, is_valid := True\<rparr>"
  have fresh: "decodedRle ?r0 = None" "rect_bitmap ?r0 = None" by (simp_all add: zero_rect_def)
  obtain flow rect where dec: "decode_object E ob ?r0 = Some (flow, rect)" "decoded_for ob ?r0 (flow, rect)"
    using decode_object_yields [OF assms(1,2) fresh, of E] by (auto elim!: yieldsE)
  show ?thesis
  proof (cases "flow = Render")
    case False
    then show ?thesis using dec by (auto simp: render_object_def decoded_for_def rect_ok_def)
  next
    case go: True
    let ?r1 = "rect\<lparr>rect_palette := palette\<rparr>"
    let ?n = "decodedRleSize rect"
    have r1: "?n = rect_w rect * rect_h rect" "0 \<le> ?n" "?n < 2 ^ 28"
      using dec(2) go object_size_fits(2) [OF assms(1,2)] assms(2)
      by (auto simp: decoded_for_def zero_rect_def small_object_def split: if_splits)
    have four: "wrap32 (4 * ?n) = 4 * ?n" using r1(2,3) by (intro wrap32_id) simp_all
    have "yields (\<lambda>rect. \<forall>b. rect_bitmap rect = Some b \<longrightarrow> int (length b) = bitmapSize rect \<and>
        bitmapSize rect = 4 * (rect_w rect * rect_h rect)) (renderRle2Bitmap E ?r1)"
    proof (cases "malloc_ok E (BitmapBuffer (4 * ?n))")
      case ok: True
      show ?thesis
      proof (cases "rle ob = []")
        case True
        then have "rect = ?r0" "\<not> asserts E" using dec(2) go assms(4) by (auto simp: decoded_for_def)
        then show ?thesis
          using ok by (simp add: renderRle2Bitmap_def zero_rect_def assert_that_def malloc_bytes_def size_of_def wrap32_def)
      next
        case False
        then obtain ds where ds: "int (length ds) = pgs_w ob * pgs_h ob" "decodedRle rect = Some ds"
            "?n = int (length ds)"
          using dec(2) go by (auto simp: decoded_for_def)
        have "renderRle2Bitmap E ?r1 = Some (?r1\<lparr>bitmapSize := 4 * int (length ds),
            rect_bitmap := Some (bitmap_of (rect_palette ?r1) ds)\<rparr>)"
          using ds r1(3) ok assms(3) by (intro render_bitmap) auto
        then show ?thesis using ds r1(1) by (simp add: length_bitmap_of)
      qed
    next
      case False
      moreover have "decodedRle ?r1 \<noteq> None \<or> \<not> asserts E"
        using dec(2) go assms(4) by (auto simp: decoded_for_def split: if_splits)
      ultimately show ?thesis using render_failed [of ?r1 E] four by simp
    qed
    then show ?thesis
      using dec(1) go by (auto simp: render_object_def rect_ok_def elim!: yieldsE)
  qed
qed

text \<open>A context whose display set can be decoded: the limits of the properties below.\<close>

definition decodable :: "env \<Rightarrow> PGSSubContext \<Rightarrow> bool" where
  "decodable E ctx \<longleftrightarrow> pgs_ok ctx \<and> (\<forall>i < 64. small_object (objects_array (objects ctx) ! i)) \<and>
     (asserts E \<longrightarrow> (\<forall>i < nat (objects_count (objects ctx)). rle (objects_array (objects ctx) ! i) \<noteq> []))"

definition rendered :: "PGSSubContext \<Rightarrow> PGSSubContext \<Rightarrow> bool" where
  "rendered ctx ctx' \<longleftrightarrow> (\<exists>rects. ctx' = ctx\<lparr>presentation := (presentation ctx)\<lparr>present_sub_rect := rects\<rparr>\<rparr> \<and>
     length rects = 2 \<and> (\<forall>r \<in> set rects. rect_ok r))"

lemma render_objects_yields:
  assumes "pgs_ok c0" "decodable E c0" "length palette = 256" "rendered c0 ctx" "distinct is"
    "\<forall>i \<in> set is. i < 2 \<and> present_sub_rect (presentation ctx) ! i = zero_rect"
  shows "yields (rendered c0) (render_objects E palette is ctx)"
  using assms(4-6)
proof (induction "is" arbitrary: ctx)
  case Nil
  then show ?case by simp
next
  case (Cons i rest)
  obtain rects where rects: "ctx = c0\<lparr>presentation := (presentation c0)\<lparr>present_sub_rect := rects\<rparr>\<rparr>"
      "length rects = 2" "\<forall>r \<in> set rects. rect_ok r"
    using Cons.prems(1) by (auto simp: rendered_def)
  have keep: "rendered c0 (update_rect i rect ctx)" if "rect_ok rect" for rect
    unfolding rendered_def update_rect_def rects(1)
    using that rects(2,3) by (intro exI [of _ "rects[i := rect]"]) (auto dest!: set_update_subset_insert [THEN subsetD])
  have rest: "yields (rendered c0) (render_objects E palette rest (update_rect i rect ctx))" if "rect_ok rect" for rect
    using Cons.prems keep [OF that] rects
    by (intro Cons.IH) (auto simp: update_rect_def nth_list_update)
  have objs: "objects ctx = objects c0" "object_refs (presentation ctx) = object_refs (presentation c0)"
    by (simp_all add: rects(1))
  show ?case
  proof (cases "findObject (ref_id (object_refs (presentation c0) ! i)) (objects c0)")
    case None
    then show ?thesis using Cons.prems Cons.IH [of ctx] by (simp add: objs Let_def)
  next
    case (Some k)
    have k: "k < nat (objects_count (objects c0))" "k < 64"
      using object_table.lookup_SomeD [OF Some] assms(1) by (auto simp: pgs_ok_def objects_ok_def table_ok_def pgs_limits)
    have "yields (\<lambda>(flow, rect). rect_ok rect) (render_object E palette (objects_array (objects c0) ! k)
        (object_refs (presentation c0) ! i) i zero_rect)"
      using assms(1-3) k by (intro render_object_yields) (auto simp: decodable_def pgs_ok_def objects_ok_def)
    then show ?thesis
      using Some Cons.prems(3) keep rest by (auto simp: objs Let_def elim!: yieldsE)
  qed
qed

lemma decode_display_set:
  assumes "decodable E ctx"
  shows "yields (rendered ctx) (decodeRleAndRenderBitmap E ctx)"
proof -
  have ok: "pgs_ok ctx" using assms by (simp add: decodable_def)
  have refl: "rendered ctx ctx"
    using ok zero_rect_ok unfolding rendered_def
    by (intro exI [of _ "present_sub_rect (presentation ctx)"]) (auto simp: pgs_ok_def presentation_ok_def)
  show ?thesis
  proof (cases "findPalette (palette_id (presentation ctx)) (palettes ctx)")
    case None
    then show ?thesis using refl by (simp add: decodeRleAndRenderBitmap_def)
  next
    case (Some k)
    have "k < 8"
      using palette_table.lookup_SomeD [OF Some] ok by (auto simp: pgs_ok_def palettes_ok_def table_ok_def pgs_limits)
    then have "length (argb (palettes_array (palettes ctx) ! k)) = 256" using ok by (simp add: pgs_ok_def palettes_ok_def)
    then show ?thesis
      using Some ok refl assms
      by (auto simp: decodeRleAndRenderBitmap_def pgs_ok_def presentation_ok_def pgs_limits
          intro!: render_objects_yields)
  qed
qed
section \<open>The image that is shown\<close>

lemma packet_mem_here: "bytes_here (packet_mem E xs) 0 xs"
  by (simp add: bytes_here_def packet_mem_def)

lemma render_object_image:
  assumes "rle ob = concat (map encode_line ls)" "rle_remaining_len ob = 0" "image_lines (pgs_w ob) ls"
    "pgs_h ob = int (length ls)" "0 < pgs_w ob" "0 < pgs_h ob" "pgs_w ob * pgs_h ob < 2 ^ 28"
    "length palette = 256" "\<forall>n. malloc_ok E (RleBuffer n)" "\<forall>n. malloc_ok E (BitmapBuffer n)"
  shows "render_object E palette ob r i rect = Some (Render, rect\<lparr>rect_x := ref_x r, rect_y := ref_y r,
    rect_w := pgs_w ob, rect_h := pgs_h ob, rect_palette := palette, decodedRle := None, decodedRleSize := 0,
    rect_bitmap := Some (bitmap_of palette (concat (map line_pixels ls))),
    bitmapSize := 4 * (pgs_w ob * pgs_h ob), is_valid := True,
    is_forced_display := composition_flag r AND 0x40 \<noteq> 0, object_segment_id := int i\<rparr>)"
proof -
  define n where "n = pgs_w ob * pgs_h ob"
  have n: "0 \<le> n" "n < 2 ^ 28" using assms(5-7) by (simp_all add: n_def)
  have wn: "wrap32 n = n" "size_of n = n" using n by (auto intro!: wrap32_id size_of_id)
  have sz: "size_fits (pgs_w ob) (pgs_h ob)" using assms(5) n by (simp add: size_fits_def n_def)
  have "ls \<noteq> []" using assms(4,6) by auto
  then have ne: "rle ob \<noteq> []" unfolding assms(1) by (cases ls) (simp_all add: encode_line_def)
  let ?ds = "concat (map line_pixels ls)"
  have dec: "decodeRle (packet_mem E (rle ob)) (length (rle ob)) (pgs_w ob) (pgs_h ob) (map (stray E) [0..<nat n])
      = Some (True, ?ds)"
    unfolding assms(1) using n(1) assms(4)
    by (intro decode_encode_rle [OF sz _ assms(3)] packet_mem_here) (simp_all add: n_def)
  have "sum_list (map (length \<circ> line_pixels) ls) = length ls * nat (pgs_w ob)"
    using assms(3) by (induction ls) (auto simp: image_lines_def)
  then have len: "int (length ?ds) = n"
    using assms(4,5) by (simp add: length_concat n_def mult.commute comp_def)
  have "decode_object E ob (rect\<lparr>rect_x := ref_x r, rect_y := ref_y r, is_valid := True\<rparr>)
      = Some (Render, rect\<lparr>rect_x := ref_x r, rect_y := ref_y r, is_valid := True, rect_w := pgs_w ob,
          rect_h := pgs_h ob, decodedRleSize := n, decodedRle := Some ?ds\<rparr>)"
    using ne assms(2,9) dec wn by (simp add: decode_object_def Let_def malloc_bytes_def flip: n_def)
  moreover have "4 * length ?ds < 2 ^ 31" using len n(2) by simp
  ultimately show ?thesis
    using len assms(8,10) by (simp add: render_object_def render_bitmap n_def)
qed

section \<open>Display sets are consumed in order\<close>

lemma post_units_frame:
  "mPgsContextList (post_units us p) = mPgsContextList p \<and> mState (post_units us p) = mState p \<and>
   mPresentationTime (post_units us p) = mPresentationTime p \<and> mFirstPtsMs (post_units us p) = mFirstPtsMs p \<and>
   mPgsContext (post_units us p) = mPgsContext p"
  unfolding post_units_def
proof (induction us arbitrary: p)
  case (Cons u us)
  have "mPgsContextList (addDecodedItem u p) = mPgsContextList p \<and> mState (addDecodedItem u p) = mState p \<and>
    mPresentationTime (addDecodedItem u p) = mPresentationTime p \<and> mFirstPtsMs (addDecodedItem u p) = mFirstPtsMs p \<and>
    mPgsContext (addDecodedItem u p) = mPgsContext p"
    by (simp add: addDecodedItem_def notify_def Let_def)
  with Cons [of "addDecodedItem u p"] show ?case by simp
qed simp

lemma postDecodedItem_frame:
  "mPgsContextList (postDecodedItem ctx im p) = mPgsContextList p \<and> mState (postDecodedItem ctx im p) = mState p \<and>
   mCurrentTimeMs (postDecodedItem ctx im p) = mCurrentTimeMs p"
proof -
  have "mCurrentTimeMs (post_units us q) = mCurrentTimeMs q" for us and q :: "'a PgsParser_scheme"
    unfolding post_units_def by (induction us arbitrary: q) (simp_all add: addDecodedItem_def notify_def Let_def)
  then show ?thesis by (simp add: postDecodedItem_def Let_def post_units_frame)
qed

definition consumed :: "PGSSubContext list \<Rightarrow> PGSSubContext list \<Rightarrow> present_flow \<times> PgsParser \<Rightarrow> bool" where
  "consumed due later = (\<lambda>(flow, p). \<exists>shown left. due = shown @ left \<and> mPgsContextList p = left @ later \<and>
     (flow = Finished \<longrightarrow> left = []) \<and> (flow = Busy \<longrightarrow> shown \<noteq> []))"

lemma consumed_Cons: "consumed due later x \<Longrightarrow> consumed (c # due) later x"
  by (auto simp: consumed_def intro: exI [of _ "c # shown" for shown])

lemma present_contexts_yields:
  assumes "\<forall>c \<in> set due. decodable E c" "mPgsContextList pgs = due @ later"
  shows "yields (\<lambda>x. consumed due later x \<and> mState (snd x) = mState pgs \<and>
      ((\<forall>j. 0 \<le> now (j + 1) - now j \<and> now (j + 1) - now j < DECODE_PRE_TIME_MS) \<longrightarrow> mState pgs \<noteq> SUB_STOP \<longrightarrow>
        fst x = Finished)) (present_contexts E now k due pgs)"
  using assms
proof (induction due arbitrary: k pgs)
  case Nil
  then show ?case by (simp add: consumed_def)
next
  case (Cons it rest)
  let ?Q = "\<lambda>due x. consumed due later x \<and> mState (snd x) = mState pgs \<and>
      ((\<forall>j. 0 \<le> now (j + 1) - now j \<and> now (j + 1) - now j < DECODE_PRE_TIME_MS) \<longrightarrow> mState pgs \<noteq> SUB_STOP \<longrightarrow>
        fst x = Finished)"
  have lst: "mPgsContextList pgs = it # rest @ later" using Cons.prems(2) by simp
  have step: "yields (?Q (it # rest)) (present_contexts E now k' rest p)"
    if "mPgsContextList p = rest @ later" "mState p = mState pgs" for k' p
    by (rule yields_mono [OF Cons.IH]) (use Cons.prems(1) that consumed_Cons in auto)
  show ?case
  proof (cases "mState pgs = SUB_STOP")
    case True
    then show ?thesis using lst by (simp add: consumed_def)
  next
    case go: False
    let ?null = "rest \<noteq> [] \<and> object_count (presentation it) = 0
          \<and> pres_pts (presentation it) = pres_pts (presentation (hd rest))"
    show ?thesis
    proof (cases ?null)
      case True
      then show ?thesis
        using go lst step [of "pgs\<lparr>mPgsContextList := rest @ later\<rparr>"] by (simp add: erase_front_def)
    next
      case False
      obtain ctx where ctx: "decodeRleAndRenderBitmap E it = Some ctx"
        using decode_display_set [of E it] Cons.prems(1) by (auto elim: yieldsE)
      let ?start = "pgs\<lparr>mCurrentTimeMs := now k\<rparr>"
      let ?p = "(postDecodedItem ctx True ?start)\<lparr>mPgsContextList := rest @ later\<rparr>"
      have fr: "mPgsContextList (postDecodedItem ctx True ?start) = it # rest @ later"
          "mState (postDecodedItem ctx True ?start) = mState pgs"
          "mCurrentTimeMs (postDecodedItem ctx True ?start) = now k"
        using postDecodedItem_frame [of ctx True ?start] lst by auto
      have er: "erase_front (postDecodedItem ctx True ?start) = Some ?p" using fr(1) by (simp add: erase_front_def)
      let ?spend = "size_of (now (k + 1) - now k)"
      have busy: "?Q (it # rest) (Busy, ?p)" if "?spend \<ge> DECODE_PRE_TIME_MS"
      proof -
        have "\<not> (0 \<le> now (k + 1) - now k \<and> now (k + 1) - now k < DECODE_PRE_TIME_MS)"
          using that by (auto simp: size_of_def DECODE_PRE_TIME_MS_def)
        then show ?thesis
          using fr(2) by (auto simp: consumed_def intro!: exI [of _ "[it]"])
      qed
      let ?diff = "if rest = [] then 0
        else wrap32 ((pres_pts (presentation (hd rest)) - pres_pts (presentation it)) sdiv DEFAULT_DVB_TIME_MULTI)"
      have "present_contexts E now k (it # rest) pgs
          = (if DECODE_PRE_TIME_MS \<le> ?spend \<and> size_of ?diff \<le> ?spend then Some (Busy, ?p)
             else present_contexts E now (k + 2) rest ?p)"
        unfolding present_contexts.simps if_not_P [OF go] if_not_P [OF False] Let_def ctx Option.bind.simps er
        using fr(3) by simp
      then show ?thesis using busy step [of ?p "k + 2"] fr(2) by simp
    qed
  qed
qed

text \<open>
  One call of \<open>handleDisplayEndSegment\<close>: the sets with a wrong time stamp are dropped, of the
  others a prefix is consumed; all that is due, when decoding keeps up.
\<close>

lemma handle_end_yields:
  assumes "\<forall>c \<in> set (mPgsContextList pgs). decodable E c"
  defines "kept \<equiv> filter (\<lambda>c. \<not> is_wrong_pgs pgs c) (mPgsContextList pgs)"
  shows "yields (\<lambda>p. (\<exists>gone. kept = gone @ mPgsContextList p) \<and>
      (mState pgs \<noteq> SUB_STOP \<longrightarrow> (\<forall>j. 0 \<le> now (j + 1) - now j \<and> now (j + 1) - now j < DECODE_PRE_TIME_MS) \<longrightarrow>
        mPgsContextList p = dropWhile (is_due pgs) kept)) (handleDisplayEndSegment E now pgs)"
proof -
  let ?p = "pgs\<lparr>mPgsContextList := kept\<rparr>"
  have due: "is_due ?p = is_due pgs" by (rule ext) (simp add: is_due_def)
  let ?due = "takeWhile (is_due pgs) kept" and ?later = "dropWhile (is_due pgs) kept"
  have dec: "\<forall>c \<in> set ?due. decodable E c" using assms(1) by (auto simp: kept_def dest!: set_takeWhileD)
  have split: "mPgsContextList ?p = ?due @ ?later" by simp
  obtain flow q where q: "present_contexts E now 0 ?due ?p = Some (flow, q)" "consumed ?due ?later (flow, q)"
      "(\<forall>j. 0 \<le> now (j + 1) - now j \<and> now (j + 1) - now j < DECODE_PRE_TIME_MS) \<longrightarrow> mState pgs \<noteq> SUB_STOP \<longrightarrow> flow = Finished"
    using present_contexts_yields [OF dec split, of now 0] by (auto elim!: yieldsE)
  obtain shown left where sl: "?due = shown @ left" "mPgsContextList q = left @ ?later" "flow = Finished \<longrightarrow> left = []"
    using q(2) by (auto simp: consumed_def)
  have kept: "kept = shown @ mPgsContextList q" using sl by (metis append.assoc takeWhile_dropWhile_id)
  let ?nz = "\<lambda>c :: PGSSubContext. object_count (presentation c) \<noteq> 0"
  have "kept = (shown @ takeWhile ?nz (mPgsContextList q)) @ dropWhile ?nz (mPgsContextList q)"
    using kept by simp
  then have busy: "\<exists>gone. kept = gone @ dropWhile ?nz (mPgsContextList q)" by blast
  have run: "handleDisplayEndSegment E now pgs = Some (if flow = Busy
      then q\<lparr>mPgsContextList := dropWhile ?nz (mPgsContextList q)\<rparr> else q)"
    using q(1) unfolding handleDisplayEndSegment_def Let_def kept_def [symmetric] by (simp add: due)
  show ?thesis
  proof (cases "flow = Busy")
    case True
    then have "\<not> (mState pgs \<noteq> SUB_STOP \<and>
        (\<forall>j. 0 \<le> now (j + 1) - now j \<and> now (j + 1) - now j < DECODE_PRE_TIME_MS))" using q(3) by auto
    moreover have "handleDisplayEndSegment E now pgs = Some (q\<lparr>mPgsContextList := dropWhile ?nz (mPgsContextList q)\<rparr>)"
      unfolding run using True by simp
    ultimately show ?thesis using busy by (simp del: One_nat_def) blast
  next
    case False
    then have "handleDisplayEndSegment E now pgs = Some q" unfolding run by simp
    moreover have "\<exists>gone. kept = gone @ mPgsContextList q" using kept by blast
    moreover have "mPgsContextList q = ?later" if "flow = Finished" using sl(2,3) that by simp
    ultimately show ?thesis using q(3) by (simp del: One_nat_def)
  qed
qed
section \<open>Images that are too large\<close>

lemma render_overflows:
  assumes "decodedRle rect \<noteq> None" "0 < decodedRleSize rect" "wrap32 (4 * decodedRleSize rect) = 0"
    "malloc_ok E (BitmapBuffer 0)"
  shows "renderRle2Bitmap E rect = None"
proof -
  obtain ds where ds: "decodedRle rect = Some ds" using assms(1) by blast
  have up: "[0..decodedRleSize rect - 1] = 0 # [1..decodedRleSize rect - 1]"
    using assms(2) upto_rec1 [of 0 "decodedRleSize rect - 1"] by simp
  have "paint_pixel palette ds 0 [] = None" for palette
  proof -
    have "store [] (wrap32 (4 * 0)) v = None" for v :: u8 by (simp add: store_def)
    then show ?thesis unfolding paint_pixel_def by (cases "load ds 0") (auto simp: Let_def bind_eq_None_conv)
  qed
  then show ?thesis
    using assms(3,4) ds by (simp add: renderRle2Bitmap_def malloc_bytes_def size_of_def up)
qed

lemma render_object_overflows:
  assumes "rle ob = concat (map encode_line ls)" "rle_remaining_len ob = 0" "image_lines 32768 ls"
    "length ls = 32768" "pgs_w ob = 32768" "pgs_h ob = 32768" "\<forall>n. malloc_ok E (RleBuffer n)"
    "\<forall>n. malloc_ok E (BitmapBuffer n)"
  shows "render_object E palette ob r i rect = None"
proof -
  have ne: "rle ob \<noteq> []" unfolding assms(1) using assms(4) by (cases ls) (simp_all add: encode_line_def)
  let ?buf = "map (stray E) [0..<1073741824]"
  have "wrap32 (32768 * 32768) = 1073741824" "size_of 1073741824 = 1073741824" by simp_all
  moreover have "decodeRle (packet_mem E (rle ob)) (length (rle ob)) 32768 32768 ?buf
      = Some (True, concat (map line_pixels ls))"
    unfolding assms(1) using assms(4)
    by (intro decode_encode_rle [OF _ _ assms(3)] packet_mem_here) (simp_all add: size_fits_def)
  ultimately have dec: "decode_object E ob (rect\<lparr>rect_x := ref_x r, rect_y := ref_y r, is_valid := True\<rparr>)
      = Some (Render, rect\<lparr>rect_x := ref_x r, rect_y := ref_y r, is_valid := True, rect_w := 32768,
          rect_h := 32768, decodedRleSize := 1073741824, decodedRle := Some (concat (map line_pixels ls))\<rparr>)"
    using ne assms(2,5-7) by (simp add: decode_object_def Let_def malloc_bytes_def del: upt_rec_numeral)
  show ?thesis
    unfolding render_object_def dec Option.bind.simps prod.case
    using assms(8) by (simp add: render_overflows wrap32_def)
qed

end
