(* ===== verification/Pgs_Properties.thy ===== *)
theory Pgs_Properties
  imports Pgs_Show
begin

text \<open>
  The properties of the PGS decoder, with the concrete data that witnesses them.
\<close>

section \<open>Concrete data\<close>

definition pgs_env :: env where
  "pgs_env = \<lparr>malloc_ok = (\<lambda>_. True), stray = (\<lambda>_. 0xaa), cval = uint, asserts = True\<rparr>"

text \<open>A composition with one object, a palette with one colour, a two by one object, the end.\<close>

definition pgs_frames :: "(int \<times> u8 list) list" where
  "pgs_frames =
     [(0x16, [0, 8, 0, 4, 0x10, 0, 1, 0x80, 0, 0, 1, 0, 5, 0, 0, 0, 3, 0, 2]),
      (0x14, [0, 0, 7, 16, 128, 128, 255]),
      (0x15, [0, 5, 0, 0xc0, 0, 0, 8, 0, 2, 0, 1, 7, 7, 0, 0]),
      (0x80, [])]"

definition playing_pgs :: PgsParser where
  "playing_pgs = new_pgs\<lparr>mState := SUB_PLAYING\<rparr>"

lemma playing_pgs_inv: "pgs_inv playing_pgs"
  using new_pgs_inv by (simp add: playing_pgs_def pgs_inv_def)

lemma playing_pgs_state: "mState playing_pgs = SUB_PLAYING"
  by (simp add: playing_pgs_def)

section \<open>The input\<close>



text \<open>
  C24. The framing is undone exactly: data built from a list of segments is decoded as these
  segments, one after the other, each with its payload.
\<close>

theorem pgs_frames_decoded:
  assumes "\<forall>f \<in> set fs. frame_ok f" "pgs_inv pgs" "mState pgs \<noteq> SUB_STOP"
  shows "soft_segments E (packet_mem E (concat (map encode_frame fs))) stamp 0
      (length (concat (map encode_frame fs))) pgs
    = each (\<lambda>(type, payload). one_segment E stamp type payload) fs pgs"
  using soft_segments_frames [of "packet_mem E (concat (map encode_frame fs))" 0 fs pgs E stamp] assms packet_mem_here
  by simp

theorem pgs_frames_decoded_witness:
  "soft_segments pgs_env (packet_mem pgs_env (concat (map encode_frame pgs_frames))) 900 0 53 playing_pgs
    = each (\<lambda>(type, payload). one_segment pgs_env 900 type payload) pgs_frames playing_pgs"
proof -
  have ok: "\<forall>f \<in> set pgs_frames. frame_ok f" by (simp add: pgs_frames_def frame_ok_def)
  have len: "length (concat (map encode_frame pgs_frames)) = 53" by (simp add: pgs_frames_def)
  have "mState playing_pgs \<noteq> SUB_STOP" by (simp add: playing_pgs_state SUB_PLAYING_def SUB_STOP_def)
  from pgs_frames_decoded [OF ok playing_pgs_inv this, of pgs_env 900] show ?thesis
    unfolding len .
qed

text \<open>
  C25. A unit of the player that arrives on a device source is consumed exactly, and its data is
  parsed with the time stamp of its header.
\<close>

theorem pgs_unit_consumed:
  assumes "source_live s" "source_pending s = header @ data @ rest" "length header = 19"
    "subPeekAsUint32 (cval E) (drop 3 header) = int (length data)" "length data < 2 ^ 31"
    "subPeekAsUint64 (cval E) (drop 7 header) = stamp" "stamp \<noteq> 0" "pgs_inv pgs"
  shows "yields (\<lambda>(p, s'). soft_segments E (packet_mem E data) stamp 0 (length data) pgs = Some p \<and>
    pgs_inv p \<and> source_pending s' = rest \<and> source_live s') (softDemuxParser E device_read pgs s)"
  by (rule device.soft_unit_parsed [OF assms])

definition pgs_unit :: "u8 list" where
  "pgs_unit = [0, 0, 0, 0, 0, 0, 3, 0, 0, 0, 0, 0, 0, 3, 0x84, 0, 0, 0, 0, 0x80, 0, 0, 9]"

theorem pgs_unit_consumed_witness:
  "yields (\<lambda>(p, s'). length (mPgsContextList p) = 1 \<and> source_pending s' = [9])
    (softDemuxParser pgs_env device_read playing_pgs
      \<lparr>mSegments = [], mAvailableDataSize = 0, mEnabled = True, mCurrentItem = Some (new_item pgs_unit), mStarted = True\<rparr>)"
proof -
  let ?s = "\<lparr>mSegments = [], mAvailableDataSize = 0, mEnabled = True, mCurrentItem = Some (new_item pgs_unit), mStarted = True\<rparr>"
  let ?header = "[0, 0, 0, 0, 0, 0, 3, 0, 0, 0, 0, 0, 0, 3, 0x84, 0, 0, 0, 0] :: u8 list"
  have data: "map_option (\<lambda>p. length (mPgsContextList p))
      (soft_segments pgs_env (packet_mem pgs_env [0x80, 0, 0]) 900 0 (length [0x80 :: u8, 0, 0]) playing_pgs) = Some 1"
    by code_simp
  have pend: "source_pending ?s = ?header @ [0x80, 0, 0] @ [9]"
    by (simp add: source_pending_def pgs_unit_def item_rest_def new_item_def)
  have live: "source_live ?s" by (simp add: source_live_def pgs_unit_def item_ok_def new_item_def)
  have len: "subPeekAsUint32 (cval pgs_env) (drop 3 ?header) = int (length [0x80 :: u8, 0, 0])"
    and stamp: "subPeekAsUint64 (cval pgs_env) (drop 7 ?header) = 900"
    by code_simp+
  have "yields (\<lambda>(p, s'). soft_segments pgs_env (packet_mem pgs_env [0x80, 0, 0]) 900 0 (length [0x80 :: u8, 0, 0]) playing_pgs
      = Some p \<and> pgs_inv p \<and> source_pending s' = [9] \<and> source_live s') (softDemuxParser pgs_env device_read playing_pgs ?s)"
    by (rule pgs_unit_consumed [OF live pend _ len _ stamp _ playing_pgs_inv]) simp_all
  then show ?thesis using data by (auto elim!: yields_mono)
qed

section \<open>Run-length code\<close>

text \<open>
  C104. Decoding an encoded bitmap gives it back: for every image, cut into runs in any way,
  \<open>decodeRle\<close> accepts its encoding and returns exactly its pixels.
\<close>

theorem pgs_rle_roundtrip:
  assumes "size_fits w h" "image_lines w ls" "int (length ls) = h" "int (length out) = w * h"
  shows "decodeRle (packet_mem E (concat (map encode_line ls))) (length (concat (map encode_line ls))) w h out
    = Some (True, concat (map line_pixels ls))"
  by (rule decode_encode_rle [OF assms(1,4,2,3) packet_mem_here])

theorem pgs_rle_roundtrip_witness:
  "decodeRle (packet_mem pgs_env (concat (map encode_line [[(7, 1), (0, 99)], [(9, 100)]]))) 12 100 2 (replicate 200 1)
    = Some (True, [7] @ replicate 99 0 @ replicate 100 9)"
proof -
  have "decodeRle (packet_mem pgs_env (concat (map encode_line [[(7, 1), (0, 99)], [(9, 100)]])))
      (length (concat (map encode_line [[(7, 1), (0, 99)], [(9, 100)]]))) 100 2 (replicate 200 1)
    = Some (True, concat (map line_pixels [[(7, 1), (0, 99)], [(9, 100)]]))"
    by (rule pgs_rle_roundtrip) (simp_all add: size_fits_def image_lines_def runs_ok_def line_pixels_def)
  moreover have "length (concat (map encode_line [[(7, 1), (0, 99)], [(9, 100)]])) = 12" by code_simp
  moreover have "concat (map line_pixels [[(7, 1), (0, 99)], [(9, 100)]]) = [7] @ replicate 99 0 @ replicate 100 9"
    by (simp add: line_pixels_def)
  ultimately show ?thesis by (simp only:)
qed

text \<open>
  C105. An image that \<open>decodeRle\<close> accepts consists of bytes the stream has written: the
  result does not depend on what the fresh buffer held, and whatever the stream holds, the
  buffer is not left.
\<close>

theorem pgs_rle_initialised:
  assumes "size_fits w h" "int (length out1) = w * h" "int (length out2) = w * h"
  shows "yields (\<lambda>(ok, r1). length r1 = length out1 \<and> (ok \<longrightarrow> decodeRle m n w h out2 = Some (True, r1)))
    (decodeRle m n w h out1)"
proof -
  obtain ok r1 where r: "decodeRle m n w h out1 = Some (ok, r1)" "length r1 = length out1"
    using decodeRle_yields [OF assms(1,2), of m n] by (auto elim: yieldsE)
  then show ?thesis using decodeRle_initialised [OF assms, of m n r1] by (cases ok) auto
qed

theorem pgs_rle_initialised_witness:
  "decodeRle (mem_of [7, 7, 0, 0]) 4 2 1 [1, 2] = decodeRle (mem_of [7, 7, 0, 0]) 4 2 1 [3, 4]"
proof -
  have "decodeRle (mem_of [7, 7, 0, 0]) 4 2 1 [1, 2] = Some (True, [7, 7])" by code_simp
  with pgs_rle_initialised [of 2 1 "[1, 2]" "[3, 4]" "mem_of [7, 7, 0, 0]" 4] show ?thesis
    by (simp add: size_fits_def)
qed

section \<open>Showing display sets\<close>

text \<open>
  C22. A complete object is shown as it was encoded: the bitmap is the image's pixels in the
  colours of the palette, with the object's size and the composition's position.
\<close>

theorem pgs_image_shown:
  assumes "rle ob = concat (map encode_line ls)" "rle_remaining_len ob = 0" "image_lines (pgs_w ob) ls"
    "pgs_h ob = int (length ls)" "0 < pgs_w ob" "0 < pgs_h ob" "pgs_w ob * pgs_h ob < 2 ^ 28"
    "length palette = 256" "\<forall>n. malloc_ok E (RleBuffer n)" "\<forall>n. malloc_ok E (BitmapBuffer n)"
  shows "yields (\<lambda>(flow, rect'). flow = Render \<and> is_valid rect' \<and> rect_x rect' = ref_x r \<and> rect_y rect' = ref_y r \<and>
      rect_w rect' = pgs_w ob \<and> rect_h rect' = pgs_h ob \<and> bitmapSize rect' = 4 * (pgs_w ob * pgs_h ob) \<and>
      rect_bitmap rect' = Some (bitmap_of palette (concat (map line_pixels ls))))
    (render_object E palette ob r i rect)"
  unfolding render_object_image [OF assms] by simp

theorem pgs_image_shown_witness:
  "yields (\<lambda>(flow, rect'). rect_bitmap rect' = Some (concat (replicate 3 [4, 3, 2, 1])))
    (render_object pgs_env (replicate 256 0x01020304)
      \<lparr>pgs_id = 5, pgs_w = 3, pgs_h = 1, rle = [0, 0x83, 7, 0, 0], rle_buffer_size = 0, rle_data_len = 5, rle_remaining_len = 0\<rparr>
      \<lparr>ref_id = 5, window_id = 0, composition_flag = 0, ref_x = 0, ref_y = 0, crop_x = 0, crop_y = 0, crop_w = 0, crop_h = 0\<rparr>
      0 zero_rect)"
proof -
  let ?ob = "\<lparr>pgs_id = 5, pgs_w = 3, pgs_h = 1, rle = [0, 0x83, 7, 0, 0], rle_buffer_size = 0, rle_data_len = 5, rle_remaining_len = 0\<rparr>"
  have enc: "rle ?ob = concat (map encode_line [[(7, 3)]])" by (simp add: encode_line_def encode_run_def)
  have "bitmap_of (replicate 256 0x01020304) (concat (map line_pixels [[(7, 3)]])) = concat (replicate 3 [4, 3, 2, 1])"
    by code_simp
  then show ?thesis
    by (intro yields_mono [OF pgs_image_shown [OF enc]])
      (auto simp: image_lines_def runs_ok_def line_pixels_def pgs_env_def)
qed



text \<open>
  C23. Display sets are shown in the order they were decoded: a call drops the sets whose
  time stamp is wrong and consumes a prefix of the others, exactly those that are due when
  decoding takes less than the lead time.
\<close>

theorem pgs_sets_in_order:
  assumes "\<forall>c \<in> set (mPgsContextList pgs). decodable E c"
  shows "yields (\<lambda>p. (\<exists>gone. filter (\<lambda>c. \<not> is_wrong_pgs pgs c) (mPgsContextList pgs) = gone @ mPgsContextList p) \<and>
      (mState pgs \<noteq> SUB_STOP \<longrightarrow> (\<forall>j. 0 \<le> now (j + 1) - now j \<and> now (j + 1) - now j < DECODE_PRE_TIME_MS) \<longrightarrow>
        mPgsContextList p = dropWhile (is_due pgs) (filter (\<lambda>c. \<not> is_wrong_pgs pgs c) (mPgsContextList pgs))))
    (handleDisplayEndSegment E now pgs)"
  by (rule handle_end_yields [OF assms])

theorem pgs_sets_in_order_witness:
  "yields (\<lambda>p. mPgsContextList p = [])
    (handleDisplayEndSegment pgs_env (\<lambda>_. 0) (playing_pgs\<lparr>mPgsContextList := [zero_pgs]\<rparr>))"
proof -
  let ?p = "playing_pgs\<lparr>mPgsContextList := [zero_pgs]\<rparr>"
  have "decodable pgs_env zero_pgs"
    using zero_pgs_ok by (simp add: decodable_def zero_pgs_def small_object_def)
  then have "\<forall>c \<in> set (mPgsContextList ?p). decodable pgs_env c" by simp
  note run = pgs_sets_in_order [OF this, of "\<lambda>_. 0"]
  have "\<not> is_wrong_pgs ?p zero_pgs" "is_due ?p zero_pgs" "mState ?p \<noteq> SUB_STOP" by code_simp+
  then show ?thesis by (intro yields_mono [OF run]) (auto simp: DECODE_PRE_TIME_MS_def)
qed

section \<open>What goes wrong\<close>



text \<open>
  A PES packet that announces a time stamp but has an empty PES header makes the parser
  read through a null pointer.
\<close>

theorem pgs_empty_pes_header_faults:
  assumes "source_live s" "source_pending s = [hi, lo, x, flags, 0] @ rest" "3 \<le> 256 * uint hi + uint lo"
    "cval E flags AND 0xc0 \<in> {0x80, 0xc0}" "cval E 0 = 0"
  shows "hwDemuxParser E device_read available pgs s = None"
  by (rule device.hw_empty_header [OF assms])

theorem pgs_empty_pes_header_faults_witness:
  "hwDemuxParser pgs_env device_read (\<lambda>_. 0) playing_pgs
    \<lparr>mSegments = [], mAvailableDataSize = 0, mEnabled = True, mCurrentItem = Some (new_item [0, 3, 0x80, 0x80, 0]), mStarted = True\<rparr>
    = None"
  by (rule pgs_empty_pes_header_faults [where hi = 0 and lo = 3 and x = "0x80" and flags = "0x80" and rest = "[]"])
    (simp_all add: source_live_def source_pending_def item_ok_def item_rest_def new_item_def pgs_env_def)

definition bad_frames :: "(int \<times> u8 list) list" where
  "bad_frames =
     [(0x16, [0, 8, 0, 4, 0x10, 0, 1, 0x80, 0, 0, 1, 0, 5, 0, 0, 0, 3, 0, 2]),
      (0x14, [0, 0]),
      (0x15, [0, 5, 0, 0xc0, 0, 0, 8, 0, 0, 0, 1, 7, 7, 0, 0]),
      (0x80, [])]"

text \<open>
  An object of width 0 is rejected but keeps its slot; the composition that refers to it
  then aborts the process when it is shown, in a build with assertions.
\<close>

theorem pgs_empty_object_aborts:
  "(do { p \<leftarrow> soft_segments pgs_env (packet_mem pgs_env (concat (map encode_frame bad_frames))) 900 0
            (length (concat (map encode_frame bad_frames))) playing_pgs;
         pgs_render_time pgs_env (\<lambda>_. 0) 900 p }) = None"
  by code_simp

text \<open>
  A bitmap of 32768 by 32768 pixels, whose RLE data is complete, overflows the size of
  the bitmap to 0, and the first pixel is written outside it.
\<close>

theorem pgs_bitmap_overflow:
  assumes "rle ob = concat (map encode_line ls)" "rle_remaining_len ob = 0" "image_lines 32768 ls"
    "length ls = 32768" "pgs_w ob = 32768" "pgs_h ob = 32768" "\<forall>n. malloc_ok E (RleBuffer n)"
    "\<forall>n. malloc_ok E (BitmapBuffer n)"
  shows "render_object E palette ob r i rect = None"
  by (rule render_object_overflows [OF assms])

theorem pgs_bitmap_overflow_witness:
  "render_object pgs_env (replicate 256 0)
    \<lparr>pgs_id = 5, pgs_w = 32768, pgs_h = 32768,
     rle = concat (map encode_line (replicate 32768 [(1, 16383), (1, 16383), (1, 2)])),
     rle_buffer_size = 0, rle_data_len = 0, rle_remaining_len = 0\<rparr>
    \<lparr>ref_id = 5, window_id = 0, composition_flag = 0, ref_x = 0, ref_y = 0, crop_x = 0, crop_y = 0, crop_w = 0, crop_h = 0\<rparr>
    0 zero_rect = None"
  by (rule pgs_bitmap_overflow [where ls = "replicate 32768 [(1, 16383), (1, 16383), (1, 2)]"])
    (simp_all add: image_lines_def runs_ok_def line_pixels_def pgs_env_def)

end
