(* ===== verification/Dvd_Control.thy ===== *)
theory Dvd_Control
  imports Packet_Sync
begin

text \<open>
  The control sequences of DVD subtitles (\<open>doDCSQC\<close> and \<open>getSpuCmd\<close> of
  \<open>subtitle/parser/DvdParser.cpp\<close>): the commands that give a subtitle its colours, area,
  pixel addresses and duration.

  A position is an offset from the start of the buffer \<open>spu_data\<close>. Neither function
  keeps its reads within the packet, so the memory is total; a scan that never meets the
  end of its sequence is \<open>None\<close>.
\<close>

definition VOB_SUB_WIDTH :: int where "VOB_SUB_WIDTH = 1920"
definition VOB_SUB_HEIGHT :: int where "VOB_SUB_HEIGHT = 1280"
definition VOB_SUB_SIZE :: int where "VOB_SUB_SIZE = VOB_SUB_WIDTH * VOB_SUB_HEIGHT div 4"

lemmas vob_limits = VOB_SUB_WIDTH_def VOB_SUB_HEIGHT_def VOB_SUB_SIZE_def

section \<open>Commands\<close>

definition FSTA_DSP :: int where "FSTA_DSP = 0"
definition STA_DSP :: int where "STA_DSP = 1"
definition STP_DSP :: int where "STP_DSP = 2"
definition SET_COLOR :: int where "SET_COLOR = 3"
definition SET_CONTR :: int where "SET_CONTR = 4"
definition SET_DAREA :: int where "SET_DAREA = 5"
definition SET_DSPXA :: int where "SET_DSPXA = 6"
definition CHG_COLCON :: int where "CHG_COLCON = 7"
definition CMD_END :: int where "CMD_END = 0xFF"

lemmas command_ids = FSTA_DSP_def STA_DSP_def STP_DSP_def SET_COLOR_def SET_CONTR_def SET_DAREA_def
  SET_DSPXA_def CHG_COLCON_def CMD_END_def

definition word_at :: "mem \<Rightarrow> nat \<Rightarrow> int" where
  "word_at m p = u16_of (push_bit 8 (byte_at m p) + byte_at m (p + 1))"

lemma word_at_eq: "word_at m p = 256 * byte_at m p + byte_at m (p + 1)"
proof -
  have "0 \<le> byte_at m p" "byte_at m p \<le> 255" "0 \<le> byte_at m (p + 1)" "byte_at m (p + 1) \<le> 255" by simp_all
  then have "0 \<le> 256 * byte_at m p + byte_at m (p + 1)" "256 * byte_at m p + byte_at m (p + 1) < 65536"
    by linarith+
  then show ?thesis by (simp add: word_at_def push_bit_eq_mult mult.commute)
qed

section \<open>The delay of a chain of sequences\<close>

text \<open>
  The commands of one sequence are skipped. The source steps over seven bytes at
  \<open>SET_DSPXA\<close>, which has five, and reads the size of \<open>CHG_COLCON\<close> at the command itself.
\<close>

partial_function (option) skip_commands :: "mem \<Rightarrow> nat \<Rightarrow> nat \<Rightarrow> bool \<Rightarrow> (nat \<times> bool) option" where
  "skip_commands m pend p stoped =
     (let c = byte_at m p in
      if c = FSTA_DSP \<or> c = STA_DSP then skip_commands m pend (p + 1) stoped
      else if c = STP_DSP then skip_commands m pend (p + 1) True
      else if c = SET_COLOR \<or> c = SET_CONTR then skip_commands m pend (p + 3) stoped
      else if c = SET_DAREA \<or> c = SET_DSPXA then skip_commands m pend (p + 7) stoped
      else if c = CHG_COLCON then skip_commands m pend (p + 2 + nat (word_at m p)) stoped
      else if c = CMD_END then Some (p + 1, stoped)
      else Some (pend, stoped))"

declare skip_commands.simps [code]

partial_function (option) doDCSQC :: "mem \<Rightarrow> nat \<Rightarrow> nat \<Rightarrow> int option" where
  "doDCSQC m pend p = do {
     let cmdDelay = word_at m p;
     (q, stoped) \<leftarrow> skip_commands m pend (p + 4) False;
     (if q < pend \<and> \<not> stoped
      then do { cmdDelaynew \<leftarrow> doDCSQC m pend q; Some (if cmdDelaynew > cmdDelay then cmdDelaynew else cmdDelay) }
      else Some cmdDelay) }"

declare doDCSQC.simps [code]

section \<open>The commands of the first sequence\<close>

text \<open>The display area: two pairs of 12-bit coordinates in six bytes at \<open>p\<close>.\<close>

definition set_darea :: "mem \<Rightarrow> nat \<Rightarrow> AML_SPUVAR \<Rightarrow> AML_SPUVAR" where
  "set_darea m p s =
     (let x = u16_of (push_bit 4 (byte_at m p AND 0x3f) OR drop_bit 4 (byte_at m (p + 1)));
          x2 = u16_of (push_bit 8 (byte_at m (p + 1) AND 0x0f) OR byte_at m (p + 2));
          w = u16_of (x2 - x + 1);
          y = u16_of (push_bit 4 (byte_at m (p + 3) AND 0x3f) OR drop_bit 4 (byte_at m (p + 4)));
          y2 = u16_of (push_bit 8 (byte_at m (p + 4) AND 0x0f) OR byte_at m (p + 5));
          h = u16_of (y2 - y + 1)
      in s\<lparr>spu_start_x := x, spu_start_y := y,
           spu_width := (if w > VOB_SUB_WIDTH then VOB_SUB_WIDTH else w),
           spu_height := (if h > VOB_SUB_HEIGHT then VOB_SUB_HEIGHT else h)\<rparr>)"

definition end_commands :: "mem \<Rightarrow> nat \<Rightarrow> nat \<Rightarrow> AML_SPUVAR \<Rightarrow> AML_SPUVAR option" where
  "end_commands m pend p s =
     (if int p \<le> int pend - 6 then do {
        d \<leftarrow> doDCSQC m (pend - 6) p;
        Some (s\<lparr>m_delay := (if d > 0 then d * 1024 + pts s else d)\<rparr>) }
      else Some s)"

function spu_commands :: "mem \<Rightarrow> nat \<Rightarrow> nat \<Rightarrow> AML_SPUVAR \<Rightarrow> (int \<times> AML_SPUVAR) option" where
  "spu_commands m pend p s =
     (if p < pend then
        let c = byte_at m p; p = p + 1 in
        if c = FSTA_DSP then spu_commands m pend p (s\<lparr>display_pending := 2\<rparr>)
        else if c = STA_DSP then spu_commands m pend p (s\<lparr>display_pending := 1\<rparr>)
        else if c = STP_DSP then spu_commands m pend p (s\<lparr>display_pending := 0\<rparr>)
        else if c = SET_COLOR then spu_commands m pend (p + 2) (s\<lparr>spu_color := word_at m p\<rparr>)
        else if c = SET_CONTR then spu_commands m pend (p + 2) (s\<lparr>spu_alpha := word_at m p\<rparr>)
        else if c = SET_DAREA then spu_commands m pend (p + 6) (set_darea m p s)
        else if c = SET_DSPXA then spu_commands m pend (p + 4)
            (s\<lparr>top_pxd_addr := word_at m p, bottom_pxd_addr := word_at m (p + 2)\<rparr>)
        else if c = CHG_COLCON then spu_commands m pend (p + 2 + nat (word_at m p)) s
        else if c = CMD_END then do { s \<leftarrow> end_commands m pend p s; Some (0, s) }
        else Some (-1, s)
      else Some (-1, s))"
  by pat_completeness auto
termination
  by (relation "measure (\<lambda>(m, pend, p, s). pend - p)") auto

declare spu_commands.simps [simp del]

definition getSpuCmd :: "mem \<Rightarrow> AML_SPUVAR \<Rightarrow> (int \<times> AML_SPUVAR) option" where
  "getSpuCmd m s =
     (if cmd_offset s \<ge> spu_length s then Some (-1, s)
      else spu_commands m (nat (spu_length s)) (nat (cmd_offset s) + 4) s)"

section \<open>Commands as data\<close>

text \<open>The commands of the DVD specification that the parser understands, and their bytes.\<close>

datatype command =
    Forced | Start | Stop
  | Color int
  | Contrast int
  | Area int int int int
  | Addresses int int

fun encode_command :: "command \<Rightarrow> u8 list" where
  "encode_command Forced = [0]"
| "encode_command Start = [1]"
| "encode_command Stop = [2]"
| "encode_command (Color c) = [3, word_of_int (c div 256), word_of_int (c mod 256)]"
| "encode_command (Contrast c) = [4, word_of_int (c div 256), word_of_int (c mod 256)]"
| "encode_command (Area x1 x2 y1 y2) =
     [5, word_of_int (x1 div 16), word_of_int (16 * (x1 mod 16) + x2 div 256), word_of_int (x2 mod 256),
      word_of_int (y1 div 16), word_of_int (16 * (y1 mod 16) + y2 div 256), word_of_int (y2 mod 256)]"
| "encode_command (Addresses t b) =
     [6, word_of_int (t div 256), word_of_int (t mod 256), word_of_int (b div 256), word_of_int (b mod 256)]"

fun command_ok :: "command \<Rightarrow> bool" where
  "command_ok (Color c) \<longleftrightarrow> 0 \<le> c \<and> c < 65536"
| "command_ok (Contrast c) \<longleftrightarrow> 0 \<le> c \<and> c < 65536"
| "command_ok (Area x1 x2 y1 y2) \<longleftrightarrow> 0 \<le> x1 \<and> x1 \<le> x2 \<and> x1 < 1024 \<and> x2 < x1 + 1920 \<and> x2 < 4096 \<and>
     0 \<le> y1 \<and> y1 \<le> y2 \<and> y1 < 1024 \<and> y2 < y1 + 1280 \<and> y2 < 4096"
| "command_ok (Addresses t b) \<longleftrightarrow> 0 \<le> t \<and> t < 65536 \<and> 0 \<le> b \<and> b < 65536"
| "command_ok _ \<longleftrightarrow> True"

text \<open>What a command does to the unit.\<close>

fun apply_command :: "command \<Rightarrow> AML_SPUVAR \<Rightarrow> AML_SPUVAR" where
  "apply_command Forced s = s\<lparr>display_pending := 2\<rparr>"
| "apply_command Start s = s\<lparr>display_pending := 1\<rparr>"
| "apply_command Stop s = s\<lparr>display_pending := 0\<rparr>"
| "apply_command (Color c) s = s\<lparr>spu_color := c\<rparr>"
| "apply_command (Contrast c) s = s\<lparr>spu_alpha := c\<rparr>"
| "apply_command (Area x1 x2 y1 y2) s =
     s\<lparr>spu_start_x := x1, spu_start_y := y1, spu_width := x2 - x1 + 1, spu_height := y2 - y1 + 1\<rparr>"
| "apply_command (Addresses t b) s = s\<lparr>top_pxd_addr := t, bottom_pxd_addr := b\<rparr>"
section \<open>Encoded commands are obeyed\<close>

lemma byte_of_range: "0 \<le> v \<Longrightarrow> v < 256 \<Longrightarrow> uint (word_of_int v :: u8) = v"
  by (simp add: uint_word_of_int)

lemma div_byte: "0 \<le> c \<Longrightarrow> c < 65536 \<Longrightarrow> uint (word_of_int (c div 256) :: u8) = c div 256"
  by (rule byte_of_range) simp_all

lemma mod_byte: "uint (word_of_int (c mod 256) :: u8) = c mod 256"
  by (rule byte_of_range) simp_all

lemma word_at_bytes:
  "m p = word_of_int (c div 256) \<Longrightarrow> m (p + 1) = word_of_int (c mod 256) \<Longrightarrow> 0 \<le> c \<Longrightarrow> c < 65536 \<Longrightarrow>
     word_at m p = c"
  by (simp add: word_at_eq byte_at_def div_byte mod_byte del: uint_word_of_int_eq)

lemma coordinate_pair:
  assumes "0 \<le> a" "a < 1024" "0 \<le> b" "b < 4096"
    "m p = word_of_int (a div 16)" "m (p + 1) = word_of_int (16 * (a mod 16) + b div 256)"
    "m (p + 2) = word_of_int (b mod 256)"
  shows "push_bit 4 (byte_at m p AND 0x3f) OR drop_bit 4 (byte_at m (p + 1)) = a"
    "push_bit 8 (byte_at m (p + 1) AND 0x0f) OR byte_at m (p + 2) = b"
proof -
  have d: "0 \<le> a div 16" "a div 16 < 64" "0 \<le> b div 256" "b div 256 < 16" using assms(1-4) by simp_all
  have mid: "0 \<le> 16 * (a mod 16) + b div 256" "16 * (a mod 16) + b div 256 < 256"
    using d(3,4) pos_mod_bound [of 16 a] pos_mod_sign [of 16 a] by linarith+
  have 1: "byte_at m p = a div 16" using d(1,2) assms(5) by (simp add: byte_at_def byte_of_range del: uint_word_of_int_eq)
  have 2: "byte_at m (p + 1) = 16 * (a mod 16) + b div 256"
    unfolding byte_at_def assms(6) by (rule byte_of_range [OF mid])
  have 3: "byte_at m (p + 2) = b mod 256" unfolding byte_at_def assms(7) by (rule mod_byte)
  have masks: "(0x3f :: int) = mask 6" "(0x0f :: int) = mask 4" by (simp_all add: mask_eq_exp_minus_1)
  have low: "(a div 16) AND 0x3f = a div 16"
    unfolding masks using d(1,2) by (simp add: take_bit_int_eq_self flip: take_bit_eq_mask)
  have hi: "drop_bit 4 (16 * (a mod 16) + b div 256) = a mod 16" using d(3,4) by (simp add: drop_bit_eq_div)
  have nib: "(16 * (a mod 16) + b div 256) AND 0x0f = b div 256"
    unfolding masks using d(3,4) by (simp add: take_bit_eq_mod flip: take_bit_eq_mask)
  show "push_bit 4 (byte_at m p AND 0x3f) OR drop_bit 4 (byte_at m (p + 1)) = a"
    unfolding 1 2 low hi using or_low [of "a mod 16" 4 "a div 16"] by simp
  show "push_bit 8 (byte_at m (p + 1) AND 0x0f) OR byte_at m (p + 2) = b"
    unfolding 2 3 nib using or_low [of "b mod 256" 8 "b div 256"] by simp
qed

lemma set_darea_bytes:
  assumes "bytes_here m p (encode_command (Area x1 x2 y1 y2))" "command_ok (Area x1 x2 y1 y2)"
  shows "set_darea m (p + 1) s = apply_command (Area x1 x2 y1 y2) s"
proof -
  have here: "m (p + 1) = word_of_int (x1 div 16)" "m (p + 1 + 1) = word_of_int (16 * (x1 mod 16) + x2 div 256)"
    "m (p + 1 + 2) = word_of_int (x2 mod 256)" "m (p + 1 + 3) = word_of_int (y1 div 16)"
    "m (p + 1 + 3 + 1) = word_of_int (16 * (y1 mod 16) + y2 div 256)" "m (p + 1 + 3 + 2) = word_of_int (y2 mod 256)"
    using assms(1) by (simp_all add: bytes_here_Cons eval_nat_numeral)
  have ok: "0 \<le> x1" "x1 \<le> x2" "x1 < 1024" "x2 < x1 + 1920" "x2 < 4096"
    "0 \<le> y1" "y1 \<le> y2" "y1 < 1024" "y2 < y1 + 1280" "y2 < 4096" using assms(2) by simp_all
  have x: "push_bit 4 (byte_at m (p + 1) AND 0x3f) OR drop_bit 4 (byte_at m (p + 1 + 1)) = x1"
    "push_bit 8 (byte_at m (p + 1 + 1) AND 0x0f) OR byte_at m (p + 1 + 2) = x2"
    by (rule coordinate_pair [OF _ _ _ _ here(1,2,3)]; use ok in linarith)+
  have y: "push_bit 4 (byte_at m (p + 1 + 3) AND 0x3f) OR drop_bit 4 (byte_at m (p + 1 + 3 + 1)) = y1"
    "push_bit 8 (byte_at m (p + 1 + 3 + 1) AND 0x0f) OR byte_at m (p + 1 + 3 + 2) = y2"
    by (rule coordinate_pair [OF _ _ _ _ here(4,5,6)]; use ok in linarith)+
  have e: "p + 1 + 4 = p + 1 + 3 + 1" "p + 1 + 5 = p + 1 + 3 + 2" by simp_all
  show ?thesis
    using ok unfolding set_darea_def e x y Let_def by (simp add: vob_limits)
qed

lemma command_step:
  assumes "bytes_here m p (encode_command c)" "command_ok c" "p < pend"
  shows "spu_commands m pend p s = spu_commands m pend (p + length (encode_command c)) (apply_command c s)"
proof (cases c)
  case (Area x1 x2 y1 y2)
  then have "byte_at m p = 5" using assms(1) by (simp add: bytes_here_Cons byte_at_def)
  moreover have "set_darea m (p + 1) s = apply_command (Area x1 x2 y1 y2) s"
    using assms(1,2) set_darea_bytes unfolding Area by blast
  ultimately show ?thesis
    using assms(3) by (subst spu_commands.simps) (simp add: Area command_ids Let_def eval_nat_numeral)
next
  case (Addresses t b)
  then have "byte_at m p = 6" using assms(1) by (simp add: bytes_here_Cons byte_at_def)
  moreover have "word_at m (p + 1) = t" "word_at m (p + 1 + 2) = b"
    using assms(1,2) by (auto simp: Addresses bytes_here_Cons eval_nat_numeral intro!: word_at_bytes)
  ultimately show ?thesis
    using assms(3) by (subst spu_commands.simps) (simp add: Addresses command_ids Let_def eval_nat_numeral)
next
  case (Color v)
  then have "byte_at m p = 3" using assms(1) by (simp add: bytes_here_Cons byte_at_def)
  moreover have "word_at m (p + 1) = v"
    using assms(1,2) by (auto simp: Color bytes_here_Cons intro!: word_at_bytes)
  ultimately show ?thesis
    using assms(3) by (subst spu_commands.simps) (simp add: Color command_ids Let_def eval_nat_numeral)
next
  case (Contrast v)
  then have "byte_at m p = 4" using assms(1) by (simp add: bytes_here_Cons byte_at_def)
  moreover have "word_at m (p + 1) = v"
    using assms(1,2) by (auto simp: Contrast bytes_here_Cons intro!: word_at_bytes)
  ultimately show ?thesis
    using assms(3) by (subst spu_commands.simps) (simp add: Contrast command_ids Let_def eval_nat_numeral)
qed (use assms in \<open>subst spu_commands.simps, simp add: bytes_here_Cons byte_at_def command_ids Let_def\<close>)+

lemma spu_commands_list:
  assumes "bytes_here m p (concat (map encode_command cs) @ [0xff])" "\<forall>c \<in> set cs. command_ok c"
    "p + length (concat (map encode_command cs)) < pend"
  shows "spu_commands m pend p s = do {
    s \<leftarrow> end_commands m pend (p + length (concat (map encode_command cs)) + 1) (fold apply_command cs s);
    Some (0, s) }"
  using assms
proof (induction cs arbitrary: p s)
  case Nil
  then show ?case
    by (subst spu_commands.simps) (simp add: bytes_here_Cons byte_at_def command_ids Let_def)
next
  case (Cons c cs)
  have "spu_commands m pend p s = spu_commands m pend (p + length (encode_command c)) (apply_command c s)"
    using Cons.prems by (intro command_step) (auto simp: bytes_here_append)
  also have "\<dots> = do {
      s \<leftarrow> end_commands m pend (p + length (encode_command c) + length (concat (map encode_command cs)) + 1)
        (fold apply_command cs (apply_command c s));
      Some (0, s) }"
    using Cons.prems by (intro Cons.IH) (auto simp: bytes_here_append)
  finally show ?case by (simp add: add.assoc)
qed
lemma getSpuCmd_commands:
  assumes "bytes_here m (nat (cmd_offset s) + 4) (concat (map encode_command cs) @ [0xff])"
    "\<forall>c \<in> set cs. command_ok c" "0 \<le> cmd_offset s"
    "cmd_offset s + 4 + int (length (concat (map encode_command cs))) < spu_length s"
  shows "getSpuCmd m s = do {
    s' \<leftarrow> end_commands m (nat (spu_length s)) (nat (cmd_offset s) + 5 + length (concat (map encode_command cs)))
      (fold apply_command cs s);
    Some (0, s') }"
proof -
  have "spu_commands m (nat (spu_length s)) (nat (cmd_offset s) + 4) s = do {
      s' \<leftarrow> end_commands m (nat (spu_length s)) (nat (cmd_offset s) + 4 + length (concat (map encode_command cs)) + 1)
        (fold apply_command cs s);
      Some (0, s') }"
    using assms by (intro spu_commands_list) auto
  then show ?thesis using assms(3,4) by (simp add: getSpuCmd_def add.commute add.left_commute)
qed

section \<open>The delay of a chain\<close>

text \<open>A sequence: its delay and its commands. The link to the next one is not read.\<close>

type_synonym sequence = "int \<times> int \<times> command list"

fun encode_sequence :: "sequence \<Rightarrow> u8 list" where
  "encode_sequence (delay, link, cs) =
     [word_of_int (delay div 256), word_of_int (delay mod 256), word_of_int (link div 256), word_of_int (link mod 256)]
       @ concat (map encode_command cs) @ [0xff]"

fun plain_command :: "command \<Rightarrow> bool" where
  "plain_command (Addresses t b) = False"
| "plain_command c = True"

fun sequence_ok :: "sequence \<Rightarrow> bool" where
  "sequence_ok (delay, link, cs) \<longleftrightarrow> 0 \<le> delay \<and> delay < 65536 \<and> (\<forall>c \<in> set cs. plain_command c)"

text \<open>The largest delay up to the first sequence that stops the display.\<close>

fun chain_delay :: "sequence list \<Rightarrow> int" where
  "chain_delay [] = 0"
| "chain_delay ((delay, link, cs) # rest) = (if Stop \<in> set cs then delay else max delay (chain_delay rest))"

fun command_id :: "command \<Rightarrow> int" where
  "command_id Forced = 0"
| "command_id Start = 1"
| "command_id Stop = 2"
| "command_id (Color c) = 3"
| "command_id (Contrast c) = 4"
| "command_id (Area x1 x2 y1 y2) = 5"
| "command_id (Addresses t b) = 6"

lemma command_id_here: "bytes_here m p (encode_command c) \<Longrightarrow> byte_at m p = command_id c"
  by (cases c) (simp_all add: bytes_here_Cons byte_at_def)

lemma skip_command:
  assumes "bytes_here m p (encode_command c)" "plain_command c"
  shows "skip_commands m pend p stoped = skip_commands m pend (p + length (encode_command c)) (stoped \<or> c = Stop)"
  using command_id_here [OF assms(1)] assms(2)
  by (cases c) (subst skip_commands.simps, simp add: command_ids eval_nat_numeral)+

lemma skip_commands_list:
  assumes "bytes_here m p (concat (map encode_command cs) @ [0xff])" "\<forall>c \<in> set cs. plain_command c"
  shows "skip_commands m pend p stoped
    = Some (p + length (concat (map encode_command cs)) + 1, stoped \<or> Stop \<in> set cs)"
  using assms
proof (induction cs arbitrary: p stoped)
  case Nil
  then show ?case by (subst skip_commands.simps) (simp add: bytes_here_Cons byte_at_def command_ids)
next
  case (Cons c cs)
  have here: "bytes_here m p (encode_command c)"
    "bytes_here m (p + length (encode_command c)) (concat (map encode_command cs) @ [0xff])"
    using Cons.prems(1) by (auto simp: bytes_here_append)
  have "skip_commands m pend p stoped = skip_commands m pend (p + length (encode_command c)) (stoped \<or> c = Stop)"
    using skip_command [OF here(1)] Cons.prems(2) by simp
  with Cons.IH [OF here(2), of "stoped \<or> c = Stop"] Cons.prems(2) show ?case
    by (simp add: add.assoc) blast
qed

lemma doDCSQC_chain:
  assumes "bytes_here m p (concat (map encode_sequence qs))" "qs \<noteq> []" "\<forall>q \<in> set qs. sequence_ok q"
    "pend \<le> p + length (concat (map encode_sequence qs))"
    "tl qs \<noteq> [] \<longrightarrow> p + length (concat (map encode_sequence (butlast qs))) < pend"
  shows "doDCSQC m pend p = Some (chain_delay qs)"
  using assms
proof (induction qs arbitrary: p)
  case (Cons q qs)
  obtain delay link cs where q: "q = (delay, link, cs)" by (cases q) auto
  let ?n = "length (concat (map encode_command cs))"
  have ok: "0 \<le> delay" "delay < 65536" "\<forall>c \<in> set cs. plain_command c"
    using Cons.prems(3) by (auto simp: q)
  have here: "m p = word_of_int (delay div 256)" "m (p + 1) = word_of_int (delay mod 256)"
    "bytes_here m (p + 4) (concat (map encode_command cs) @ [0xff])"
    "bytes_here m (p + 4 + ?n + 1) (concat (map encode_sequence qs))"
    using Cons.prems(1) by (auto simp: q bytes_here_append bytes_here_Cons eval_nat_numeral add.commute add.left_commute)
  have delay: "word_at m p = delay" by (rule word_at_bytes [OF here(1,2) ok(1,2)])
  have skip: "skip_commands m pend (p + 4) False = Some (p + 4 + ?n + 1, Stop \<in> set cs)"
    using skip_commands_list [OF here(3) ok(3), of pend False] by simp
  have eq: "doDCSQC m pend p = (if p + 4 + ?n + 1 < pend \<and> Stop \<notin> set cs
      then do { d \<leftarrow> doDCSQC m pend (p + 4 + ?n + 1); Some (if d > delay then d else delay) } else Some delay)"
    using skip by (subst doDCSQC.simps) (simp add: delay)
  show ?case
  proof (cases "qs = []")
    case True
    then have "\<not> p + 4 + ?n + 1 < pend" using Cons.prems(4) by (simp add: q)
    then show ?thesis using True ok(1) unfolding eq by (simp add: q)
  next
    case False
    have next_here: "p + 4 + ?n + 1 < pend"
    proof -
      have "length (encode_sequence q) \<le> length (concat (map encode_sequence (butlast (q # qs))))"
        using False by simp
      then show ?thesis using Cons.prems(5) False by (simp add: q)
    qed
    have "doDCSQC m pend (p + 4 + ?n + 1) = Some (chain_delay qs)"
      using Cons.prems(3-5) False by (intro Cons.IH [OF here(4) False]) (auto simp: q neq_Nil_conv)
    then show ?thesis using next_here unfolding eq by (simp add: q max_def)
  qed
qed simp

end
