(* ===== verification/Dvd_Pixels.thy ===== *)
theory Dvd_Pixels
  imports Dvd_Control
begin

text \<open>
  The pixel data of DVD subtitles (\<open>DecodeRL\<close>, \<open>GetWordFromPixBuffer\<close> and
  \<open>spuFillPixel\<close> of \<open>subtitle/parser/DvdParser.cpp\<close>): runs coded in 4, 8, 12 or 16 bits, unpacked
  into rows of two bits per pixel.

  The read position is an offset into \<open>spu_data\<close>, in steps of one 16-bit word, and is never
  compared with its end, so the memory is total. The output is an array of 16-bit words;
  a write outside it is a fault.
\<close>

type_synonym u16 = "16 word"

section \<open>Reading runs\<close>

definition GetWordFromPixBuffer :: "mem \<Rightarrow> nat \<Rightarrow> nat \<Rightarrow> u16" where
  "GetWordFromPixBuffer m bitpos p =
     (let first = (push_bit 8 (ucast (m p)) OR ucast (m (p + 1)) :: u16);
          second = (push_bit 8 (ucast (m (p + 2))) OR ucast (m (p + 3)) :: u16)
      in if bitpos = 0 then first else push_bit bitpos first OR drop_bit (16 - bitpos) second)"

text \<open>The number of bits, the run length and the pixel value.\<close>

definition DecodeRL :: "u16 \<Rightarrow> nat \<times> nat \<times> nat" where
  "DecodeRL nData =
     (let bits = (if nData AND 0xc000 \<noteq> 0 then 4 else if nData AND 0x3000 \<noteq> 0 then 8
            else if nData AND 0x0c00 \<noteq> 0 then 12 else 16);
          shift = 16 - bits
      in (bits, unat (drop_bit (shift + 2) nData), unat (drop_bit shift nData AND 3)))"

section \<open>Writing pixels\<close>

text \<open>The write pointer: a word of the output and the bits left in it.\<close>

record pxd_writer =
  ptrPXDWrite :: nat
  WrOffset :: nat
  pixelOut :: "u16 list"

definition put_pixel :: "nat \<Rightarrow> pxd_writer \<Rightarrow> pxd_writer option" where
  "put_pixel v w =
     (let offset = WrOffset w - 2 in do {
        old \<leftarrow> load (pixelOut w) (int (ptrPXDWrite w));
        out \<leftarrow> store (pixelOut w) (int (ptrPXDWrite w)) (old OR push_bit offset (of_nat v));
        Some (if offset = 0 then w\<lparr>ptrPXDWrite := ptrPXDWrite w + 1, WrOffset := 16, pixelOut := out\<rparr>
              else w\<lparr>WrOffset := offset, pixelOut := out\<rparr>) })"

fun put_pixels :: "nat \<Rightarrow> nat \<Rightarrow> pxd_writer \<Rightarrow> pxd_writer option" where
  "put_pixels 0 v w = Some w"
| "put_pixels (Suc n) v w = do { w \<leftarrow> put_pixel v w; put_pixels n v w }"

definition align_writer :: "pxd_writer \<Rightarrow> pxd_writer" where
  "align_writer w = (if WrOffset w \<noteq> 16 then w\<lparr>WrOffset := 16, ptrPXDWrite := ptrPXDWrite w + 1\<rparr> else w)"

section \<open>One field\<close>

record pxd_state = pxd_writer +
  pixelIn :: nat
  PXDBufferBitPos :: nat
  nDecodedPixNum :: nat

text \<open>\<open>PixelData\<close>: the identity, or the exchange of value 0 with the first transparent one.\<close>

function count_opaque :: "int \<Rightarrow> nat" where
  "count_opaque alpha = (if 0 < alpha \<and> alpha AND 0xF \<noteq> 0 then Suc (count_opaque (drop_bit 4 alpha)) else 0)"
  by pat_completeness auto
termination
  by (relation "measure nat") (auto simp: drop_bit_eq_div)

declare count_opaque.simps [simp del]

text \<open>
  A fault when the alpha word has no transparent value: \<open>PixelData\<close> has four entries. An
  unchanged table is \<open>[0, 1, 2, 3]\<close>.
\<close>

definition pixel_data :: "int \<Rightarrow> nat list option" where
  "pixel_data alpha =
     (let change = count_opaque alpha in
      if change = 0 then Some [0, 1, 2, 3]
      else store ([0, 1, 2, 3][0 := change]) (int change) 0)"

definition swapped_alpha :: "int \<Rightarrow> int" where
  "swapped_alpha alpha =
     (let change = count_opaque alpha in
      if change = 0 then alpha else u16_of ((alpha AND 0xFFF0) OR push_bit (4 * change) 0x000F))"

text \<open>\<open>while (nDecodedPixNum < rownum)\<close>; the counter is 16 bits wide.\<close>

definition next_run :: "mem \<Rightarrow> nat \<Rightarrow> pxd_state \<Rightarrow> nat \<times> nat \<times> pxd_state" where
  "next_run m rownum st =
     (case DecodeRL (GetWordFromPixBuffer m (PXDBufferBitPos st) (pixelIn st)) of (bits, num, v) \<Rightarrow>
        let pos = PXDBufferBitPos st + bits;
            st = (if pos \<ge> 16 then st\<lparr>PXDBufferBitPos := pos - 16, pixelIn := pixelIn st + 2\<rparr>
                  else st\<lparr>PXDBufferBitPos := pos\<rparr>)
        in (if num = 0 then rownum - nDecodedPixNum st mod rownum else num, v, st))"

definition lift_writer :: "pxd_writer \<Rightarrow> pxd_state \<Rightarrow> pxd_state" where
  "lift_writer w st = st\<lparr>ptrPXDWrite := ptrPXDWrite w, WrOffset := WrOffset w, pixelOut := pixelOut w\<rparr>"

partial_function (option) fill_row :: "mem \<Rightarrow> nat list \<Rightarrow> nat \<Rightarrow> pxd_state \<Rightarrow> pxd_state option" where
  "fill_row m table rownum st =
     (if nDecodedPixNum st < rownum then
        (case next_run m rownum st of (num, v, st) \<Rightarrow> do {
           w \<leftarrow> put_pixels num (table ! v) (pxd_writer.truncate st);
           fill_row m table rownum (lift_writer w (st\<lparr>nDecodedPixNum := (nDecodedPixNum st + num) mod 65536\<rparr>)) })
      else Some st)"

declare fill_row.simps [code]

text \<open>Rule 6 of the specification: a row starts at a byte; and the writer starts a word.\<close>

definition end_row :: "nat \<Rightarrow> pxd_state \<Rightarrow> pxd_state" where
  "end_row rownum st =
     (let st = (if PXDBufferBitPos st = 4 then st\<lparr>PXDBufferBitPos := 8\<rparr>
                else if PXDBufferBitPos st = 12 then st\<lparr>PXDBufferBitPos := 0, pixelIn := pixelIn st + 2\<rparr>
                else st)
      in lift_writer (align_writer (pxd_writer.truncate st)) (st\<lparr>nDecodedPixNum := nDecodedPixNum st - rownum\<rparr>))"

fun fill_rows :: "mem \<Rightarrow> nat list \<Rightarrow> nat \<Rightarrow> nat \<Rightarrow> pxd_state \<Rightarrow> pxd_state option" where
  "fill_rows m table rownum 0 st = Some st"
| "fill_rows m table rownum (Suc k) st = do {
     st \<leftarrow> fill_row m table rownum st;
     fill_rows m table rownum k (end_row rownum st) }"

definition field_words :: nat where
  "field_words = nat (VOB_SUB_SIZE div 4)"

lemma field_words_eq: "field_words = 153600"
  by (simp add: field_words_def vob_limits)

definition new_field :: "nat \<Rightarrow> pxd_state" where
  "new_field p = \<lparr>ptrPXDWrite = 0, WrOffset = 16, pixelOut = replicate field_words 0,
     pixelIn = p, PXDBufferBitPos = 0, nDecodedPixNum = 0\<rparr>"

text \<open>The result: the words of the field and the unit, whose alpha the second field updates.\<close>

definition spuFillPixel :: "mem \<Rightarrow> nat \<Rightarrow> int \<Rightarrow> AML_SPUVAR \<Rightarrow> (u16 list \<times> AML_SPUVAR) option" where
  "spuFillPixel m p n s = do {
     table \<leftarrow> pixel_data (spu_alpha s);
     st \<leftarrow> fill_rows m table (nat (spu_width s)) (nat (spu_height s) div 2) (new_field p);
     Some (pixelOut st, if n = 2 then s\<lparr>spu_alpha := swapped_alpha (spu_alpha s)\<rparr> else s) }"
section \<open>Half bytes\<close>

definition nibble :: "mem \<Rightarrow> nat \<Rightarrow> nat \<Rightarrow> int" where
  "nibble m p k = (if even k then byte_at m (p + k div 2) div 16 else byte_at m (p + k div 2) mod 16)"

lemma nibble_range: "0 \<le> nibble m p k" "nibble m p k < 16"
proof -
  have "0 \<le> b div 16 \<and> b div 16 < 16" if "0 \<le> b" "b < 256" for b :: int using that by auto
  then have "0 \<le> byte_at m (p + k div 2) div 16 \<and> byte_at m (p + k div 2) div 16 < 16" by simp
  then show "0 \<le> nibble m p k" "nibble m p k < 16" unfolding nibble_def by auto
qed

lemma nibble_pair: "byte_at m (p + q) = 16 * nibble m p (2 * q) + nibble m p (2 * q + 1)"
  by (simp add: nibble_def)

definition word_value :: "mem \<Rightarrow> nat \<Rightarrow> nat \<Rightarrow> int" where
  "word_value m p k = 4096 * nibble m p k + 256 * nibble m p (k + 1) + 16 * nibble m p (k + 2) + nibble m p (k + 3)"

lemma uint_pair: "uint (push_bit 8 (ucast (a :: u8)) OR ucast (b :: u8) :: u16) = 256 * uint a + uint b"
proof -
  have "uint a < 256" "uint b < 256" using uint_bounded [of a] uint_bounded [of b] by simp_all
  then have "take_bit 16 (push_bit 8 (uint a)) = push_bit 8 (uint a)" "take_bit 16 (uint a) = uint a"
    "take_bit 16 (uint b) = uint b"
    by (auto intro!: take_bit_int_eq_self simp: push_bit_eq_mult)
  then have "uint (push_bit 8 (ucast a) OR ucast b :: u16) = push_bit 8 (uint a) OR uint b"
    by (simp add: unsigned_or_eq unsigned_push_bit_eq unsigned_ucast_eq)
  then show ?thesis by (simp add: or_bytes)
qed

lemma word_value_range: "0 \<le> word_value m p k" "word_value m p k < 65536"
  using nibble_range [of m p k] nibble_range [of m p "k + 1"] nibble_range [of m p "k + 2"] nibble_range [of m p "k + 3"]
  unfolding word_value_def by linarith+

lemma shifted_word:
  assumes "0 < n" "n < 16"
  shows "uint (push_bit n x OR drop_bit (16 - n) y :: u16) = 2 ^ n * (uint x mod 2 ^ (16 - n)) + uint y div 2 ^ (16 - n)"
proof -
  have ty: "take_bit 16 (uint y) = uint y" using uint_bounded [of y] by (intro take_bit_int_eq_self) simp_all
  then have "uint y div 2 ^ (16 - n) = take_bit n (drop_bit (16 - n) (uint y))"
    using assms drop_bit_take_bit [of "16 - n" 16 "uint y"] by (simp add: drop_bit_eq_div)
  then have y: "0 \<le> uint y div 2 ^ (16 - n)" "uint y div 2 ^ (16 - n) < 2 ^ n" by simp_all
  have uy: "uint (drop_bit (16 - n) y) = uint y div 2 ^ (16 - n)"
    by (simp only: unsigned_drop_bit_eq drop_bit_eq_div [symmetric]) (simp add: ty)
  have "take_bit 16 (push_bit n (uint x)) = push_bit n (uint x mod 2 ^ (16 - n))"
    using assms by (simp add: take_bit_push_bit take_bit_eq_mod flip: take_bit_eq_mod)
  then have "uint (push_bit n x OR drop_bit (16 - n) y) = push_bit n (uint x mod 2 ^ (16 - n)) OR uint y div 2 ^ (16 - n)"
    unfolding unsigned_or_eq unsigned_push_bit_eq uy by simp
  also have "\<dots> = 2 ^ n * (uint x mod 2 ^ (16 - n)) + uint y div 2 ^ (16 - n)"
    by (rule or_low [OF y])
  finally show ?thesis .
qed
lemma div_mod_parts:
  assumes "x = d * a + r" "0 \<le> r" "r < (d :: int)"
  shows "x mod d = r" "x div d = a"
  using assms by auto

lemma nibble_word: "256 * byte_at m (p + 2 * q) + byte_at m (p + 2 * q + 1) = word_value m p (4 * q)"
proof -
  have e: "2 * (2 * q) = 4 * q" "2 * (2 * q + 1) = 4 * q + 2" "4 * q + 2 + 1 = 4 * q + 3"
    "p + 2 * q + 1 = p + (2 * q + 1)" by simp_all
  have "byte_at m (p + 2 * q) = 16 * nibble m p (4 * q) + nibble m p (4 * q + 1)"
    "byte_at m (p + 2 * q + 1) = 16 * nibble m p (4 * q + 2) + nibble m p (4 * q + 3)"
    using nibble_pair [of m p "2 * q"] nibble_pair [of m p "2 * q + 1"] unfolding e by simp_all
  then show ?thesis by (simp add: word_value_def)
qed

lemma GetWord_value:
  assumes "b < 4"
  shows "uint (GetWordFromPixBuffer m (4 * b) (p + 2 * q)) = word_value m p (4 * q + b)"
proof -
  define x :: u16 where "x = push_bit 8 (ucast (m (p + 2 * q))) OR ucast (m (p + 2 * q + 1))"
  define y :: u16 where "y = push_bit 8 (ucast (m (p + 2 * q + 2))) OR ucast (m (p + 2 * q + 3))"
  have x: "uint x = word_value m p (4 * q)"
    using nibble_word [of m p q] by (simp add: x_def uint_pair byte_at_def)
  have y: "uint y = word_value m p (4 * q + 4)"
  proof -
    have e: "p + 2 * (q + 1) = p + 2 * q + 2" "p + 2 * q + 2 + 1 = p + 2 * q + 3" "4 * (q + 1) = 4 * q + 4"
      by simp_all
    show ?thesis using nibble_word [of m p "q + 1"] unfolding e y_def uint_pair byte_at_def .
  qed
  define N where "N = (\<lambda>i. nibble m p (4 * q + i))"
  have N: "0 \<le> N i" "N i < 16" for i using nibble_range by (simp_all add: N_def)
  have vals: "word_value m p (4 * q + i) = 4096 * N i + 256 * N (i + 1) + 16 * N (i + 2) + N (i + 3)" for i
    by (simp add: word_value_def N_def add.assoc)
  have xs: "uint x = 4096 * N 0 + 256 * N 1 + 16 * N 2 + N 3"
    and ys: "uint y = 4096 * N 4 + 256 * N 5 + 16 * N 6 + N 7"
    using x y vals [of 0] vals [of 4] by (simp_all add: numeral_2_eq_2)
  have eq: "GetWordFromPixBuffer m (4 * b) (p + 2 * q)
      = (if b = 0 then x else push_bit (4 * b) x OR drop_bit (16 - 4 * b) y)"
    by (simp add: GetWordFromPixBuffer_def Let_def x_def y_def)
  consider "b = 0" | "b = 1" | "b = 2" | "b = 3" using assms by linarith
  then show ?thesis
  proof cases
    case 1
    then show ?thesis using x unfolding eq by simp
  next
    case 2
    have "uint x mod 4096 = 256 * N 1 + 16 * N 2 + N 3"
      by (rule div_mod_parts(1) [of _ _ "N 0"]) (use xs N [of 1] N [of 2] N [of 3] in \<open>simp_all add: algebra_simps\<close>)
    moreover have "uint y div 4096 = N 4"
      by (rule div_mod_parts(2) [of _ _ _ "256 * N 5 + 16 * N 6 + N 7"]) (use ys N [of 5] N [of 6] N [of 7] in \<open>simp_all add: algebra_simps\<close>)
    ultimately show ?thesis using shifted_word [of 4 x y] 2 vals [of 1, simplified]
      unfolding eq by (simp add: eval_nat_numeral)
  next
    case 3
    have "uint x mod 256 = 16 * N 2 + N 3"
      by (rule div_mod_parts(1) [of _ _ "16 * N 0 + N 1"]) (use xs N [of 2] N [of 3] in \<open>simp_all add: algebra_simps\<close>)
    moreover have "uint y div 256 = 16 * N 4 + N 5"
      by (rule div_mod_parts(2) [of _ _ _ "16 * N 6 + N 7"]) (use ys N [of 6] N [of 7] in \<open>simp_all add: algebra_simps\<close>)
    ultimately show ?thesis using shifted_word [of 8 x y] 3 vals [of 2]
      unfolding eq by (simp add: eval_nat_numeral)
  next
    case 4
    have "uint x mod 16 = N 3"
      by (rule div_mod_parts(1) [of _ _ "256 * N 0 + 16 * N 1 + N 2"]) (use xs N [of 3] in \<open>simp_all add: algebra_simps\<close>)
    moreover have "uint y div 16 = 256 * N 4 + 16 * N 5 + N 6"
      by (rule div_mod_parts(2) [of _ _ _ "N 7"]) (use ys N [of 7] in \<open>simp_all add: algebra_simps\<close>)
    ultimately show ?thesis using shifted_word [of 12 x y] 4 vals [of 3]
      unfolding eq by (simp add: eval_nat_numeral)
  qed
qed
section \<open>Encoded runs are read back\<close>

lemma mask_and:
  fixes x :: int
  assumes "0 \<le> x" "x < 2 ^ (n + k)"
  shows "x AND push_bit n (mask k) = 0 \<longleftrightarrow> x < 2 ^ n"
proof -
  have "x AND push_bit n (mask k) = push_bit n (take_bit k (drop_bit n x))"
    by (rule bit_eqI) (auto simp: bit_simps)
  moreover have "take_bit k (drop_bit n x) = drop_bit n x"
    using assms drop_bit_take_bit [of n "n + k" x] by (simp add: take_bit_int_eq_self)
  moreover have "x div 2 ^ n = 0 \<longleftrightarrow> x < 2 ^ n"
    using assms(1) by (metis div_pos_pos_trivial less_irrefl not_less pos_imp_zdiv_pos_iff zero_less_numeral zero_less_power)
  ultimately show ?thesis by (simp add: drop_bit_eq_div push_bit_eq_mult)
qed

lemma word_and_zero: "w AND c = 0 \<longleftrightarrow> uint w AND uint c = 0" for w c :: u16
  by (metis uint_0_iff uint_and)

lemma DecodeRL_bits:
  fixes nData :: u16
  shows
  "nData AND 0xc000 = 0 \<longleftrightarrow> uint nData < 2 ^ 14"
  "uint nData < 2 ^ 14 \<Longrightarrow> nData AND 0x3000 = 0 \<longleftrightarrow> uint nData < 2 ^ 12"
  "uint nData < 2 ^ 12 \<Longrightarrow> nData AND 0x0c00 = 0 \<longleftrightarrow> uint nData < 2 ^ 10"
proof -
  have c: "uint (0xc000 :: u16) = push_bit 14 (mask 2)" "uint (0x3000 :: u16) = push_bit 12 (mask 2)"
    "uint (0x0c00 :: u16) = push_bit 10 (mask 2)"
    by (simp_all add: mask_eq_exp_minus_1 push_bit_eq_mult)
  show "nData AND 0xc000 = 0 \<longleftrightarrow> uint nData < 2 ^ 14"
    unfolding word_and_zero c using uint_bounded [of nData] by (intro mask_and) simp_all
  show "nData AND 0x3000 = 0 \<longleftrightarrow> uint nData < 2 ^ 12" if "uint nData < 2 ^ 14"
    unfolding word_and_zero c using that by (intro mask_and) simp_all
  show "nData AND 0x0c00 = 0 \<longleftrightarrow> uint nData < 2 ^ 10" if "uint nData < 2 ^ 12"
    unfolding word_and_zero c using that by (intro mask_and) simp_all
qed

lemma DecodeRL_eq:
  "DecodeRL w =
     (let x = uint w;
          bits = (if 2 ^ 14 \<le> x then 4 else if 2 ^ 12 \<le> x then 8 else if 2 ^ 10 \<le> x then 12 else 16)
      in (bits, nat (x div 2 ^ (16 - bits + 2)), nat (x div 2 ^ (16 - bits) mod 4)))"
proof -
  have three: "(3 :: u16) = mask 2" by (simp add: mask_eq_exp_minus_1)
  have num: "unat (drop_bit n w) = nat (uint w div 2 ^ n)" for n
    unfolding unat_drop_bit_eq
    unfolding drop_bit_eq_div unat_eq_nat_uint by (simp add: nat_div_distrib nat_power_eq)
  have val: "unat (drop_bit n w AND 3) = nat (uint w div 2 ^ n mod 4)" for n
  proof -
    have "unat (take_bit 2 (drop_bit n w)) = unat (drop_bit n w) mod 4"
      by (simp only: unsigned_take_bit_eq) (simp add: take_bit_eq_mod)
    then show ?thesis unfolding three take_bit_eq_mask [symmetric] num
      by (simp add: nat_mod_distrib pos_imp_zdiv_nonneg_iff)
  qed
  show ?thesis
    using DecodeRL_bits [of w] by (auto simp: DecodeRL_def Let_def num val not_less)
qed
text \<open>A run is a length, or 0 for the rest of the row, and a value; its code is 1 to 4 half bytes.\<close>

fun encode_pxd :: "nat \<times> nat \<Rightarrow> nat list" where
  "encode_pxd (n, c) =
     (let v = 4 * n + c in
      if n = 0 then [0, 0, 0, c]
      else if n < 4 then [v]
      else if n < 16 then [v div 16, v mod 16]
      else if n < 64 then [0, v div 16, v mod 16]
      else [0, v div 256, v div 16 mod 16, v mod 16])"

definition pxd_run_ok :: "nat \<times> nat \<Rightarrow> bool" where
  "pxd_run_ok r \<longleftrightarrow> fst r < 256 \<and> snd r < 4"

definition nibbles_here :: "mem \<Rightarrow> nat \<Rightarrow> nat \<Rightarrow> nat list \<Rightarrow> bool" where
  "nibbles_here m p k xs \<longleftrightarrow> (\<forall>i < length xs. nibble m p (k + i) = int (xs ! i))"

lemma nibbles_here_Cons:
  "nibbles_here m p k (x # xs) \<longleftrightarrow> nibble m p k = int x \<and> nibbles_here m p (k + 1) xs"
  by (auto simp: nibbles_here_def nth_Cons split: nat.splits)

lemma nibbles_here_append:
  "nibbles_here m p k (xs @ ys) \<longleftrightarrow> nibbles_here m p k xs \<and> nibbles_here m p (k + length xs) ys"
  by (induction xs arbitrary: k) (auto simp: nibbles_here_Cons nibbles_here_def [of _ _ _ "[]"])

lemma word_split:
  "word_value m p k = 4096 * nibble m p k + r1 \<and> 0 \<le> r1 \<and> r1 < 4096 \<and> r1 = 256 * nibble m p (k + 1) + r2 \<and>
     0 \<le> r2 \<and> r2 < 256 \<and> r2 = 16 * nibble m p (k + 2) + r3 \<and> 0 \<le> r3 \<and> r3 < 16 \<and> r3 = nibble m p (k + 3)"
  if "r1 = 256 * nibble m p (k + 1) + 16 * nibble m p (k + 2) + nibble m p (k + 3)"
    "r2 = 16 * nibble m p (k + 2) + nibble m p (k + 3)" "r3 = nibble m p (k + 3)"
  using nibble_range [of m p "k + 1"] nibble_range [of m p "k + 2"] nibble_range [of m p "k + 3"]
  unfolding that word_value_def by auto

lemma decode_value:
  assumes "uint w = 2 ^ s * (4 * int n + int c) + r" "0 \<le> r" "r < 2 ^ s" "c < 4"
  shows "nat (uint w div 2 ^ (s + 2)) = n" "nat (uint w div 2 ^ s mod 4) = c"
proof -
  have d: "uint w div 2 ^ s = 4 * int n + int c"
    using assms(1-3) by (intro div_mod_parts(2))
  have "uint w div 2 ^ (s + 2) = uint w div 2 ^ s div 4"
    unfolding power_add by (subst zdiv_zmult2_eq) simp_all
  then have "uint w div 2 ^ (s + 2) = int n" unfolding d using assms(4) by simp
  then show "nat (uint w div 2 ^ (s + 2)) = n" by simp
  show "nat (uint w div 2 ^ s mod 4) = c" unfolding d using assms(4) by simp
qed

lemma three_digits: "256 * (v div 256) + 16 * (v div 16 mod 16) + v mod 16 = (v :: nat)"
proof -
  have sum: "256 * a + 16 * b + r = v" if "16 * q + r = v" "16 * a + b = q" for a b q r :: nat
    using that by linarith
  have "v div 256 = v div 16 div 16" by (simp flip: div_mult2_eq)
  then show ?thesis by (simp only:) (rule sum [OF mult_div_mod_eq mult_div_mod_eq])
qed

lemma DecodeRL_code:
  assumes "uint w = 2 ^ s * (4 * int n + int c) + r" "0 \<le> r" "r < 2 ^ s" "c < 4"
    "s = 12 \<and> 2 ^ 14 \<le> uint w \<or> s = 8 \<and> 2 ^ 12 \<le> uint w \<and> uint w < 2 ^ 14
      \<or> s = 4 \<and> 2 ^ 10 \<le> uint w \<and> uint w < 2 ^ 12 \<or> s = 0 \<and> uint w < 2 ^ 10"
  shows "DecodeRL w = (16 - s, n, c)"
proof -
  note v = decode_value [OF assms(1-4)]
  have bits: "(if 2 ^ 14 \<le> uint w then 4 else if 2 ^ 12 \<le> uint w then 8 else if 2 ^ 10 \<le> uint w then 12 else 16)
      = (16 - s :: nat)"
    using assms(5) by auto
  have s: "16 - (16 - s) = s" using assms(5) by auto
  show ?thesis unfolding DecodeRL_eq Let_def bits s v ..
qed

lemma decode_run:
  assumes "nibbles_here m p k (encode_pxd (n, c))" "pxd_run_ok (n, c)" "uint w = word_value m p k"
  shows "DecodeRL w = (4 * length (encode_pxd (n, c)), n, c)"
proof -
  have c: "c < 4" "n < 256" using assms(2) by (simp_all add: pxd_run_ok_def)
  define r1 where "r1 = 256 * nibble m p (k + 1) + 16 * nibble m p (k + 2) + nibble m p (k + 3)"
  define r2 where "r2 = 16 * nibble m p (k + 2) + nibble m p (k + 3)"
  define r3 where "r3 = nibble m p (k + 3)"
  note split = word_split [OF r1_def r2_def r3_def]
  consider "n = 0" | "0 < n" "n < 4" | "4 \<le> n" "n < 16" | "16 \<le> n" "n < 64" | "64 \<le> n" by linarith
  then show ?thesis
  proof cases
    case 1
    then have "uint w = 2 ^ 0 * (4 * int n + int c) + 0"
      using assms(1,3) split by (simp add: nibbles_here_Cons numeral_2_eq_2 numeral_3_eq_3)
    from DecodeRL_code [OF this] this c 1 show ?thesis by simp
  next
    case 2
    then have "uint w = 2 ^ 12 * (4 * int n + int c) + r1"
      using assms(1,3) split by (simp add: nibbles_here_Cons)
    from DecodeRL_code [OF this _ _ c(1)] split this 2 show ?thesis by simp
  next
    case 3
    define a b where "a = (4 * n + c) div 16" and "b = (4 * n + c) mod 16"
    have v: "16 * int a + int b = 4 * int n + int c"
      unfolding a_def b_def by (metis mult_div_mod_eq of_nat_add of_nat_mult of_nat_numeral)
    have "nibble m p k = int a" "nibble m p (k + 1) = int b"
      using assms(1) 3 by (auto simp: nibbles_here_Cons Let_def a_def b_def)
    then have "uint w = 2 ^ 8 * (4 * int n + int c) + r2"
      using assms(3) split unfolding v [symmetric] by auto
    moreover from this have "2 ^ 12 \<le> uint w" "uint w < 2 ^ 14" using 3 c split by simp_all
    ultimately show ?thesis using DecodeRL_code [of w 8 n c r2] split c 3 by (simp add: Let_def)
  next
    case 4
    define a b where "a = (4 * n + c) div 16" and "b = (4 * n + c) mod 16"
    have v: "16 * int a + int b = 4 * int n + int c"
      unfolding a_def b_def by (metis mult_div_mod_eq of_nat_add of_nat_mult of_nat_numeral)
    have "nibble m p k = 0" "nibble m p (k + 1) = int a" "nibble m p (k + 2) = int b"
      using assms(1) 4 by (auto simp: nibbles_here_Cons Let_def a_def b_def)
    then have "uint w = 2 ^ 4 * (4 * int n + int c) + r3"
      using assms(3) split unfolding v [symmetric] by auto
    moreover from this have "2 ^ 10 \<le> uint w" "uint w < 2 ^ 12" using 4 c split by simp_all
    ultimately show ?thesis using DecodeRL_code [of w 4 n c r3] split c 4 by (simp add: Let_def)
  next
    case 5
    define a b d where "a = (4 * n + c) div 256" and "b = (4 * n + c) div 16 mod 16" and "d = (4 * n + c) mod 16"
    have "256 * a + 16 * b + d = 4 * n + c" unfolding a_def b_def d_def by (rule three_digits)
    then have v: "256 * int a + 16 * int b + int d = 4 * int n + int c" by linarith
    have "nibble m p k = 0" "nibble m p (k + 1) = int a" "nibble m p (k + 2) = int b" "nibble m p (k + 3) = int d"
    proof -
      have "encode_pxd (n, c) = [0, a, b, d]" using 5 by (simp add: Let_def a_def b_def d_def)
      with assms(1) have "nibbles_here m p k [0, a, b, d]" by simp
      then show "nibble m p k = 0" "nibble m p (k + 1) = int a" "nibble m p (k + 2) = int b" "nibble m p (k + 3) = int d"
        by (simp_all add: nibbles_here_Cons numeral_3_eq_3)
    qed
    then have "uint w = 2 ^ 0 * (4 * int n + int c) + 0"
      using assms(3) split unfolding v [symmetric] by auto
    moreover from this have "uint w < 2 ^ 10" using 5 c by simp
    ultimately show ?thesis using DecodeRL_code [of w 0 n c 0] c 5 by (simp add: Let_def)
  qed
qed
section \<open>Positions\<close>

text \<open>Reading at half byte \<open>k\<close> from \<open>p\<close>; writing pixel \<open>P\<close> of an output of \<open>N\<close> words.\<close>

definition seek :: "nat \<Rightarrow> nat \<Rightarrow> pxd_state \<Rightarrow> pxd_state" where
  "seek p k st = st\<lparr>pixelIn := p + 2 * (k div 4), PXDBufferBitPos := 4 * (k mod 4)\<rparr>"

definition writer_at :: "'a pxd_writer_scheme \<Rightarrow> nat \<Rightarrow> nat \<Rightarrow> bool" where
  "writer_at w N P \<longleftrightarrow> ptrPXDWrite w = P div 8 \<and> WrOffset w = 16 - 2 * (P mod 8) \<and> length (pixelOut w) = N"

definition pixel :: "u16 list \<Rightarrow> nat \<Rightarrow> nat" where
  "pixel out i = unat (drop_bit (14 - 2 * (i mod 8)) (out ! (i div 8)) AND 3)"

lemma seek_parts: "b < 4 \<Longrightarrow> seek p (4 * q + b) st = st\<lparr>pixelIn := p + 2 * q, PXDBufferBitPos := 4 * b\<rparr>"
  by (simp add: seek_def)

lemma quarters: obtains q b where "k = 4 * q + b" "b < (4 :: nat)"
  using mod_less_divisor [of 4 k] mult_div_mod_eq [of 4 k] by (metis zero_less_numeral)

lemma next_run_seek:
  assumes "DecodeRL (GetWordFromPixBuffer m (4 * (k mod 4)) (p + 2 * (k div 4))) = (4 * l, n, c)" "1 \<le> l" "l \<le> 4"
  shows "next_run m rownum (seek p k st)
    = (if n = 0 then rownum - nDecodedPixNum st mod rownum else n, c, seek p (k + l) st)"
proof -
  obtain q b where k: "k = 4 * q + b" "b < 4" by (rule quarters)
  have dec: "DecodeRL (GetWordFromPixBuffer m (4 * b) (p + 2 * q)) = (4 * l, n, c)" using assms(1) k by simp
  have s: "seek p k st = st\<lparr>pixelIn := p + 2 * q, PXDBufferBitPos := 4 * b\<rparr>"
    using k seek_parts by simp
  show ?thesis
  proof (cases "b + l < 4")
    case True
    then have "seek p (k + l) st = st\<lparr>pixelIn := p + 2 * q, PXDBufferBitPos := 4 * (b + l)\<rparr>"
      using seek_parts [of "b + l" p q st] k by (simp add: add.assoc)
    then show ?thesis using dec True unfolding s by (simp add: next_run_def Let_def)
  next
    case False
    then have "k + l = 4 * (q + 1) + (b + l - 4)" using k by simp
    moreover have "b + l - 4 < 4" using k assms(3) by simp
    ultimately have "seek p (k + l) st = st\<lparr>pixelIn := p + 2 * (q + 1), PXDBufferBitPos := 4 * (b + l - 4)\<rparr>"
      using seek_parts by metis
    moreover have "16 \<le> 4 * b + 4 * l" "4 * b + 4 * l - 16 = 4 * (b + l - 4)" using False by simp_all
    ultimately show ?thesis using dec unfolding s by (simp add: next_run_def Let_def)
  qed
qed

lemma GetWord_at: "uint (GetWordFromPixBuffer m (4 * (k mod 4)) (p + 2 * (k div 4))) = word_value m p k"
  using GetWord_value [of "k mod 4" m p "k div 4"] by simp

lemma end_row_seek:
  "end_row rownum (seek p k st) = seek p (2 * ((k + 1) div 2))
     (lift_writer (align_writer (pxd_writer.truncate st)) (st\<lparr>nDecodedPixNum := nDecodedPixNum st - rownum\<rparr>))"
proof -
  obtain q b where k: "k = 4 * q + b" "b < 4" by (rule quarters)
  have s: "seek p k st' = st'\<lparr>pixelIn := p + 2 * q, PXDBufferBitPos := 4 * b\<rparr>" for st'
    using k seek_parts by simp
  consider "b = 0 \<or> b = 2" | "b = 1" | "b = 3" using k(2) by linarith
  then show ?thesis
  proof cases
    case 1
    then have e: "2 * ((k + 1) div 2) = k" using k by auto
    show ?thesis unfolding e s using 1 by (auto simp: end_row_def lift_writer_def pxd_writer.truncate_def)
  next
    case 2
    then have e: "2 * ((k + 1) div 2) = 4 * q + 2" using k by simp
    have s2: "seek p (4 * q + 2) st' = st'\<lparr>pixelIn := p + 2 * q, PXDBufferBitPos := 8\<rparr>" for st'
      using seek_parts [of 2 p q st'] by simp
    show ?thesis unfolding e s2 unfolding s using 2
      by (simp add: end_row_def lift_writer_def pxd_writer.truncate_def)
  next
    case 3
    then have e: "2 * ((k + 1) div 2) = 4 * (q + 1)" using k by simp
    have s2: "seek p (4 * (q + 1)) st' = st'\<lparr>pixelIn := p + 2 * (q + 1), PXDBufferBitPos := 0\<rparr>" for st'
      using seek_parts [of 0 p "q + 1" st'] by simp
    show ?thesis unfolding e s2 unfolding s using 3
      by (simp add: end_row_def lift_writer_def pxd_writer.truncate_def)
  qed
qed
section \<open>Pixels are written where they belong\<close>

lemma pixel_of_or:
  fixes w :: u16
  assumes "v < 4" "j < 8" "k < 8"
  shows "unat (drop_bit (14 - 2 * j) (w OR push_bit (14 - 2 * k) (of_nat v)) AND 3)
    = (if j = k then unat (drop_bit (14 - 2 * j) w AND 3) OR v else unat (drop_bit (14 - 2 * j) w AND 3))"
proof -
  have three: "(3 :: u16) = mask 2" by (simp add: mask_eq_exp_minus_1)
  have "take_bit 2 v = v" using assms(1) by (simp add: take_bit_nat_eq_self)
  then have v: "n < 2" if "bit v n" for n using that by (metis bit_take_bit_iff)
  show ?thesis
  proof (rule bit_eqI)
    fix n
    show "bit (unat (drop_bit (14 - 2 * j) (w OR push_bit (14 - 2 * k) (of_nat v)) AND 3)) n
      = bit (if j = k then unat (drop_bit (14 - 2 * j) w AND 3) OR v else unat (drop_bit (14 - 2 * j) w AND 3)) n"
      using assms(2,3) v [of n] v [of "14 - 2 * j + n - (14 - 2 * k)"] unfolding three
      by (auto simp: bit_simps)
  qed
qed
lemma put_pixel_yields:
  assumes "writer_at w N P" "P < 8 * N" "v < 4"
  shows "yields (\<lambda>w'. writer_at w' N (P + 1) \<and>
    (\<forall>i. pixel (pixelOut w') i = (if i = P then pixel (pixelOut w) i OR v else pixel (pixelOut w) i))) (put_pixel v w)"
proof -
  obtain q k where P: "P = 8 * q + k" "k < 8"
    using mod_less_divisor [of 8 P] mult_div_mod_eq [of 8 P] by (metis zero_less_numeral)
  then have q: "q < N" using assms(2) by simp
  have w: "ptrPXDWrite w = q" "WrOffset w = 16 - 2 * k" "length (pixelOut w) = N"
    using assms(1) P by (simp_all add: writer_at_def)
  let ?out = "(pixelOut w)[q := pixelOut w ! q OR push_bit (14 - 2 * k) (of_nat v)]"
  have off: "16 - 2 * k - 2 = 14 - 2 * k" by simp
  have px: "pixel ?out i = (if i = P then pixel (pixelOut w) i OR v else pixel (pixelOut w) i)" for i
  proof (cases "i div 8 = q")
    case True
    then have "i = 8 * q + i mod 8" by (metis mult_div_mod_eq)
    then have i: "i = P \<longleftrightarrow> i mod 8 = k" using P by (metis add_left_cancel)
    have "pixel ?out i = unat (drop_bit (14 - 2 * (i mod 8)) (pixelOut w ! q OR push_bit (14 - 2 * k) (of_nat v)) AND 3)"
      using True q w(3) by (simp add: pixel_def)
    also have "\<dots> = (if i mod 8 = k then pixel (pixelOut w) i OR v else pixel (pixelOut w) i)"
      by (subst pixel_of_or [OF assms(3) _ P(2)]) (simp_all add: pixel_def True)
    finally show ?thesis using i by simp
  next
    case False
    then have "i \<noteq> P" using P by auto
    with False show ?thesis by (simp add: pixel_def)
  qed
  have at: "writer_at (if 14 - 2 * k = 0 then w\<lparr>ptrPXDWrite := q + 1, WrOffset := 16, pixelOut := ?out\<rparr>
      else w\<lparr>WrOffset := 14 - 2 * k, pixelOut := ?out\<rparr>) N (P + 1)"
  proof (cases "k = 7")
    case True
    then have "P + 1 = 8 * (q + 1)" using P by simp
    with True w show ?thesis by (simp add: writer_at_def)
  next
    case False
    then have "P + 1 = 8 * q + (k + 1)" "k + 1 < 8" using P by auto
    then have "(P + 1) div 8 = q" "(P + 1) mod 8 = k + 1" by simp_all
    with False P w show ?thesis by (simp add: writer_at_def)
  qed
  have "put_pixel v w = Some (if 14 - 2 * k = 0 then w\<lparr>ptrPXDWrite := q + 1, WrOffset := 16, pixelOut := ?out\<rparr>
      else w\<lparr>WrOffset := 14 - 2 * k, pixelOut := ?out\<rparr>)"
    using q w by (simp add: put_pixel_def load_def store_def Let_def)
  with at px show ?thesis by (auto simp: yields_def)
qed

lemma put_pixels_yields:
  assumes "writer_at w N P" "P + n \<le> 8 * N" "v < 4"
  shows "yields (\<lambda>w'. writer_at w' N (P + n) \<and>
    (\<forall>i. pixel (pixelOut w') i = (if P \<le> i \<and> i < P + n then pixel (pixelOut w) i OR v else pixel (pixelOut w) i)))
    (put_pixels n v w)"
  using assms(1,2)
proof (induction n arbitrary: w P)
  case (Suc n)
  obtain w1 where w1: "put_pixel v w = Some w1" "writer_at w1 N (P + 1)"
    "\<forall>i. pixel (pixelOut w1) i = (if i = P then pixel (pixelOut w) i OR v else pixel (pixelOut w) i)"
    using put_pixel_yields [OF Suc.prems(1) _ assms(3)] Suc.prems(2) by (auto elim: yieldsE)
  have "P + 1 + n \<le> 8 * N" using Suc.prems(2) by simp
  from Suc.IH [OF w1(2) this] show ?case
    unfolding put_pixels.simps w1(1) Option.bind.bind_lunit
    by (elim yields_mono) (use w1(3) in auto)
qed simp

lemma align_writer_at:
  assumes "writer_at w N P"
  shows "writer_at (align_writer w) N (8 * ((P + 7) div 8)) \<and> pixelOut (align_writer w) = pixelOut w"
proof -
  obtain q k where P: "P = 8 * q + k" "k < 8"
    using mod_less_divisor [of 8 P] mult_div_mod_eq [of 8 P] by (metis zero_less_numeral)
  have w: "ptrPXDWrite w = q" "WrOffset w = 16 - 2 * k" "length (pixelOut w) = N"
    using assms P by (simp_all add: writer_at_def)
  show ?thesis
  proof (cases "k = 0")
    case True
    then have "8 * ((P + 7) div 8) = P" using P by simp
    with True w assms show ?thesis by (simp add: align_writer_def)
  next
    case False
    then have "P + 7 = 8 * (q + 1) + (k - 1)" "k - 1 < 8" using P by simp_all
    then have "(P + 7) div 8 = q + 1" by (metis add.commute div_less div_mult_self2 add_cancel_left_left zero_neq_numeral)
    then have "8 * ((P + 7) div 8) = 8 * (q + 1)" by simp
    with False w P show ?thesis by (simp add: align_writer_def writer_at_def)
  qed
qed
section \<open>Any data\<close>

lemma DecodeRL_range:
  obtains l n c where "DecodeRL w = (4 * l, n, c)" "1 \<le> l" "l \<le> 4" "n \<le> 255" "c < 4"
proof -
  have x: "0 \<le> uint w" "uint w < 2 ^ 16" using uint_bounded [of w] by simp_all
  define s :: nat where "s = (if 2 ^ 14 \<le> uint w then 12 else if 2 ^ 12 \<le> uint w then 8 else if 2 ^ 10 \<le> uint w then 4 else 0)"
  have s: "s \<le> 12" "4 dvd s" "uint w < 2 ^ (s + 2) * 256" using x by (auto simp: s_def)
  have "uint w div 2 ^ (s + 2) \<le> 255"
  proof (rule ccontr)
    assume "\<not> uint w div 2 ^ (s + 2) \<le> 255"
    then have "256 \<le> uint w div 2 ^ (s + 2)" by simp
    then have "2 ^ (s + 2) * 256 \<le> 2 ^ (s + 2) * (uint w div 2 ^ (s + 2))" by (rule mult_left_mono) simp
    also have "\<dots> \<le> uint w"
    proof -
      have "d * (x div d) \<le> x" if "0 < d" for d x :: int
        using mult_div_mod_eq [of d x] pos_mod_sign [OF that, of x] by linarith
      then show ?thesis by simp
    qed
    finally show False using s(3) by simp
  qed
  moreover have "DecodeRL w = (16 - s, nat (uint w div 2 ^ (s + 2)), nat (uint w div 2 ^ s mod 4))"
  proof -
    have "(if 2 ^ 14 \<le> uint w then 4 else if 2 ^ 12 \<le> uint w then 8 else if 2 ^ 10 \<le> uint w then 12 else 16) = (16 - s :: nat)"
      by (simp add: s_def)
    moreover have "16 - (16 - s) = s" using s(1) by simp
    ultimately show ?thesis by (simp only: DecodeRL_eq Let_def)
  qed
  moreover have "nat (uint w div 2 ^ s mod 4) < 4" using pos_mod_bound [of 4 "uint w div 2 ^ s"] by (simp add: nat_less_iff)
  moreover obtain l where "16 - s = 4 * l" "1 \<le> l" "l \<le> 4"
  proof -
    obtain t where "s = 4 * t" using s(2) by (elim dvdE)
    then show ?thesis using s(1) by (intro that [of "4 - t"]) auto
  qed
  ultimately show ?thesis by (intro that [of l]) auto
qed

definition table_ok :: "nat list \<Rightarrow> bool" where
  "table_ok t \<longleftrightarrow> length t = 4 \<and> (\<forall>v \<in> set t. v < 4)"

lemma table_nth: "table_ok t \<Longrightarrow> v < 4 \<Longrightarrow> t ! v < 4"
  by (simp add: table_ok_def)

text \<open>One turn of the loop, with what it reads left open.\<close>

lemma fill_row_step:
  assumes "DecodeRL (GetWordFromPixBuffer m (4 * (k mod 4)) (p + 2 * (k div 4))) = (4 * l, n, c)" "1 \<le> l" "l \<le> 4" "c < 4"
    "nDecodedPixNum st < rownum" "r = (if n = 0 then rownum - nDecodedPixNum st else n)"
    "nDecodedPixNum st + r < 65536" "table_ok table" "writer_at st N P" "P + r \<le> 8 * N"
  obtains st' where "fill_row m table rownum (seek p k st) = fill_row m table rownum (seek p (k + l) st')"
    "nDecodedPixNum st' = nDecodedPixNum st + r" "writer_at st' N (P + r)"
    "\<forall>i. pixel (pixelOut st') i = (if P \<le> i \<and> i < P + r then pixel (pixelOut st) i OR table ! c else pixel (pixelOut st) i)"
proof -
  have nx: "next_run m rownum (seek p k st) = (r, c, seek p (k + l) st)"
    using next_run_seek [OF assms(1-3), of rownum st] assms(5,6) by simp
  have "writer_at (pxd_writer.truncate st) N P" using assms(9) by (simp add: writer_at_def pxd_writer.truncate_def)
  from put_pixels_yields [OF this assms(10) table_nth [OF assms(8,4)]]
  obtain w where w: "put_pixels r (table ! c) (pxd_writer.truncate st) = Some w" "writer_at w N (P + r)"
    "\<forall>i. pixel (pixelOut w) i = (if P \<le> i \<and> i < P + r then pixel (pixelOut st) i OR table ! c else pixel (pixelOut st) i)"
    by (auto simp: pxd_writer.truncate_def elim!: yieldsE)
  let ?st' = "lift_writer w (st\<lparr>nDecodedPixNum := nDecodedPixNum st + r\<rparr>)"
  have comm: "lift_writer w (seek p (k + l) st\<lparr>nDecodedPixNum := nDecodedPixNum st + r\<rparr>) = seek p (k + l) ?st'"
    by (rule pxd_state.equality) (simp_all add: seek_def lift_writer_def)
  have "fill_row m table rownum (seek p k st) = fill_row m table rownum (seek p (k + l) ?st')"
    unfolding comm [symmetric] using assms(5,7) w(1) nx
    by (subst fill_row.simps) (simp add: seek_def pxd_writer.truncate_def)
  then show ?thesis
    using w(2,3) by (intro that [of ?st']) (simp_all add: lift_writer_def writer_at_def)
qed

lemma fill_row_done: "rownum \<le> nDecodedPixNum st \<Longrightarrow> fill_row m table rownum (seek p k st) = Some (seek p k st)"
  by (subst fill_row.simps) (simp add: seek_def)

text \<open>Whatever the data, a row is filled and overshot by at most 254 pixels.\<close>

lemma fill_row_yields:
  assumes "table_ok table" "rownum < 65000" "nDecodedPixNum st \<le> rownum + 254" "writer_at st N P"
    "P + rownum + 254 - nDecodedPixNum st \<le> 8 * N"
  shows "yields (\<lambda>st'. \<exists>k' st0. st' = seek p k' st0 \<and> rownum \<le> nDecodedPixNum st0 \<and> nDecodedPixNum st0 \<le> rownum + 254 \<and>
    nDecodedPixNum st \<le> nDecodedPixNum st0 \<and> writer_at st0 N (P + nDecodedPixNum st0 - nDecodedPixNum st)) (fill_row m table rownum (seek p k st))"
  using assms(3-5)
proof (induction "rownum - nDecodedPixNum st" arbitrary: st k P rule: less_induct)
  case less
  show ?case
  proof (cases "nDecodedPixNum st < rownum")
    case False
    then show ?thesis using less.prems by (auto simp: fill_row_done intro!: exI [of _ k] exI [of _ st])
  next
    case True
    obtain l n c where dec: "DecodeRL (GetWordFromPixBuffer m (4 * (k mod 4)) (p + 2 * (k div 4))) = (4 * l, n, c)"
      "1 \<le> l" "l \<le> 4" "n \<le> 255" "c < 4" by (rule DecodeRL_range)
    define r where "r = (if n = 0 then rownum - nDecodedPixNum st else n)"
    have r: "0 < r" "nDecodedPixNum st + r \<le> rownum + 254" using True dec(4) by (auto simp: r_def)
    obtain st' where st': "fill_row m table rownum (seek p k st) = fill_row m table rownum (seek p (k + l) st')"
      "nDecodedPixNum st' = nDecodedPixNum st + r" "writer_at st' N (P + r)"
    proof -
      have le: "P + r \<le> 8 * N" "nDecodedPixNum st + r < 65536" using r less.prems(3) assms(2) by linarith+
      show thesis
        by (rule fill_row_step [OF dec(1-3,5) True r_def le(2) assms(1) less.prems(2) le(1)]) (rule that)
    qed
    have "yields (\<lambda>st''. \<exists>k' st0. st'' = seek p k' st0 \<and> rownum \<le> nDecodedPixNum st0 \<and> nDecodedPixNum st0 \<le> rownum + 254 \<and>
        nDecodedPixNum st' \<le> nDecodedPixNum st0 \<and> writer_at st0 N (P + r + nDecodedPixNum st0 - nDecodedPixNum st')) (fill_row m table rownum (seek p (k + l) st'))"
      using True r st' less.prems by (intro less.hyps) auto
    moreover have "P + r + x - nDecodedPixNum st' = P + x - nDecodedPixNum st" for x using st'(2) by simp
    ultimately show ?thesis unfolding st'(1)
      by (elim yields_mono) (use st'(2) in \<open>metis le_add1 le_trans\<close>)
  qed
qed

lemma end_row_state:
  assumes "writer_at st N P"
  obtains st' where "end_row rownum (seek p k st) = seek p (2 * ((k + 1) div 2)) st'"
    "nDecodedPixNum st' = nDecodedPixNum st - rownum" "writer_at st' N (8 * ((P + 7) div 8))" "pixelOut st' = pixelOut st"
proof -
  have "writer_at (pxd_writer.truncate st) N P" using assms by (simp add: writer_at_def pxd_writer.truncate_def)
  from align_writer_at [OF this] assms show ?thesis
    by (intro that [OF end_row_seek]) (simp_all add: lift_writer_def writer_at_def pxd_writer.truncate_def)
qed

text \<open>Each row uses at most seven pixels to fill its last word.\<close>

lemma fill_rows_yields:
  assumes "table_ok table" "rownum < 65000" "nDecodedPixNum st \<le> 254" "writer_at st N P"
    "P + rows * (rownum + 7) + 254 \<le> 8 * N + nDecodedPixNum st"
  shows "yields (\<lambda>st'. length (pixelOut st') = N) (fill_rows m table rownum rows (seek p k st))"
  using assms(3-5)
proof (induction rows arbitrary: st k P)
  case 0
  then show ?case by (simp add: seek_def writer_at_def)
next
  case (Suc rows)
  have room: "P + rownum + 254 - nDecodedPixNum st \<le> 8 * N" "nDecodedPixNum st \<le> rownum + 254"
    using Suc.prems(1,3) by simp_all
  obtain k1 st1 where st1: "fill_row m table rownum (seek p k st) = Some (seek p k1 st1)" "rownum \<le> nDecodedPixNum st1"
    "nDecodedPixNum st1 \<le> rownum + 254" "nDecodedPixNum st \<le> nDecodedPixNum st1" "writer_at st1 N (P + nDecodedPixNum st1 - nDecodedPixNum st)"
    using fill_row_yields [OF assms(1,2) room(2) Suc.prems(2) room(1), where m = m and p = p and k = k]
    by (auto elim!: yieldsE)
  define P1 where "P1 = P + nDecodedPixNum st1 - nDecodedPixNum st"
  obtain st2 where st2: "end_row rownum (seek p k1 st1) = seek p (2 * ((k1 + 1) div 2)) st2"
    "nDecodedPixNum st2 = nDecodedPixNum st1 - rownum" "writer_at st2 N (8 * ((P1 + 7) div 8))"
    using end_row_state [OF st1(5)] unfolding P1_def by metis
  define D where "D = 8 * ((P1 + 7) div 8)"
  have D: "D \<le> P1 + 7" by (simp add: D_def)
  have "nDecodedPixNum st2 \<le> 254" using st1(3) st2(2) by simp
  moreover have "D + rows * (rownum + 7) + 254 \<le> 8 * N + nDecodedPixNum st2"
    using D st1(2,4) st2(2) Suc.prems(1,3) unfolding P1_def by (simp add: algebra_simps)
  ultimately have "yields (\<lambda>st'. length (pixelOut st') = N)
      (fill_rows m table rownum rows (seek p (2 * ((k1 + 1) div 2)) st2))"
    using st2(3) unfolding D_def by (intro Suc.IH)
  then show ?case using st1(1) st2(1) by simp
qed
lemma drop_bit_less: "0 < x \<Longrightarrow> drop_bit 4 x < x" for x :: int
  by (simp add: drop_bit_eq_div)

text \<open>The exchange is possible when some value is transparent.\<close>

lemma pixel_data_ok: "count_opaque alpha < 4 \<Longrightarrow> \<exists>t. pixel_data alpha = Some t \<and> table_ok t"
proof -
  assume "count_opaque alpha < 4"
  then consider "count_opaque alpha = 0" | "count_opaque alpha = 1" | "count_opaque alpha = 2" | "count_opaque alpha = 3"
    by linarith
  then show ?thesis
    by cases (simp_all add: pixel_data_def store_def table_ok_def numeral_2_eq_2 numeral_3_eq_3)
qed

lemma pixel_data_overrun: "4 \<le> count_opaque alpha \<Longrightarrow> pixel_data alpha = None"
  by (simp add: pixel_data_def Let_def store_def)

lemma new_field_state: "new_field p = seek p 0 (new_field p)" "writer_at (new_field p) field_words 0"
  "nDecodedPixNum (new_field p) = 0"
  by (simp_all add: new_field_def seek_def writer_at_def)

lemma spuFillPixel_yields:
  assumes "count_opaque (spu_alpha s) < 4" "spu_width s < 65000"
    "nat (spu_height s) div 2 * (nat (spu_width s) + 7) + 254 \<le> 8 * field_words"
  shows "yields (\<lambda>(out, s'). length out = field_words \<and>
    s' = (if n = 2 then s\<lparr>spu_alpha := swapped_alpha (spu_alpha s)\<rparr> else s)) (spuFillPixel m p n s)"
proof -
  obtain t where t: "pixel_data (spu_alpha s) = Some t" "table_ok t" using pixel_data_ok [OF assms(1)] by auto
  have "nat (spu_width s) < 65000" using assms(2) by simp
  from fill_rows_yields [OF t(2) this, of "new_field p" field_words 0 "nat (spu_height s) div 2" m p 0]
  have "yields (\<lambda>st'. length (pixelOut st') = field_words)
      (fill_rows m t (nat (spu_width s)) (nat (spu_height s) div 2) (new_field p))"
    using new_field_state [of p] assms(3) by simp
  then show ?thesis using t(1) by (auto simp: spuFillPixel_def elim!: yieldsE)
qed

section \<open>Encoded rows\<close>

text \<open>The pixels of a row with \<open>w\<close> left, and when its runs fill it exactly.\<close>

fun row_pixels :: "nat \<Rightarrow> (nat \<times> nat) list \<Rightarrow> nat list" where
  "row_pixels w [] = []"
| "row_pixels w ((n, c) # rs) = (let l = (if n = 0 then w else n) in replicate l c @ row_pixels (w - l) rs)"

fun row_ok :: "nat \<Rightarrow> (nat \<times> nat) list \<Rightarrow> bool" where
  "row_ok w [] \<longleftrightarrow> w = 0"
| "row_ok w ((n, c) # rs) \<longleftrightarrow> 0 < w \<and> n < 256 \<and> n \<le> w \<and> c < 4 \<and> row_ok (w - (if n = 0 then w else n)) rs"

definition encode_row :: "(nat \<times> nat) list \<Rightarrow> nat list" where
  "encode_row rs = (let xs = concat (map encode_pxd rs) in if even (length xs) then xs else xs @ [0])"

lemma length_row_pixels: "row_ok w rs \<Longrightarrow> length (row_pixels w rs) = w"
  by (induction w rs rule: row_pixels.induct) (auto simp: Let_def)

lemma length_encode_pxd: "1 \<le> length (encode_pxd r) \<and> length (encode_pxd r) \<le> 4"
  by (cases r) (simp add: Let_def)

lemma fill_row_exact:
  assumes "nibbles_here m p k (concat (map encode_pxd rs))" "row_ok w rs" "w + nDecodedPixNum st = rownum" "rownum < 65000"
    "table_ok table" "writer_at st N P" "P + w \<le> 8 * N"
  shows "\<exists>st'. fill_row m table rownum (seek p k st) = Some (seek p (k + length (concat (map encode_pxd rs))) st') \<and>
    nDecodedPixNum st' = rownum \<and> writer_at st' N (P + w) \<and>
    (\<forall>i. pixel (pixelOut st') i = (if P \<le> i \<and> i < P + w then pixel (pixelOut st) i OR table ! (row_pixels w rs ! (i - P))
       else pixel (pixelOut st) i))"
  using assms(1,2,3,6,7)
proof (induction rs arbitrary: k w st P)
  case Nil
  then have "fill_row m table rownum (seek p k st) = Some (seek p k st)" by (intro fill_row_done) simp
  with Nil show ?case by (intro exI [of _ st]) simp
next
  case (Cons r rs)
  obtain n c where r: "r = (n, c)" by fastforce
  let ?l = "length (encode_pxd r)"
  define s where "s = (if n = 0 then w else n)"
  have ok: "0 < w" "s \<le> w" "0 < s" "c < 4" "pxd_run_ok (n, c)" "row_ok (w - s) rs"
    using Cons.prems(2) by (auto simp: r s_def pxd_run_ok_def)
  have here: "nibbles_here m p k (encode_pxd (n, c))" "nibbles_here m p (k + ?l) (concat (map encode_pxd rs))"
    using Cons.prems(1) by (auto simp: nibbles_here_append r)
  have dec: "DecodeRL (GetWordFromPixBuffer m (4 * (k mod 4)) (p + 2 * (k div 4))) = (4 * ?l, n, c)"
    unfolding r by (rule decode_run [OF here(1) ok(5) GetWord_at])
  have "s = (if n = 0 then rownum - nDecodedPixNum st else n)" using Cons.prems(3) by (auto simp: s_def)
  then have r_eq: "s = (if n = 0 then rownum - nDecodedPixNum st else n)" .
  have room: "nDecodedPixNum st < rownum" "nDecodedPixNum st + s < 65536" "P + s \<le> 8 * N"
    using ok Cons.prems(3,5) assms(4) by linarith+
  note len = length_encode_pxd [of r]
  obtain st1 where st1: "fill_row m table rownum (seek p k st) = fill_row m table rownum (seek p (k + ?l) st1)"
    "nDecodedPixNum st1 = nDecodedPixNum st + s" "writer_at st1 N (P + s)"
    "\<forall>i. pixel (pixelOut st1) i = (if P \<le> i \<and> i < P + s then pixel (pixelOut st) i OR table ! c else pixel (pixelOut st) i)"
    by (rule fill_row_step [OF dec conjunct1 [OF len] conjunct2 [OF len] ok(4) room(1) r_eq room(2) assms(5)
        Cons.prems(4) room(3)])
  have "w - s + nDecodedPixNum st1 = rownum" "P + s + (w - s) \<le> 8 * N" using ok st1(2) Cons.prems(3,5) by simp_all
  from Cons.IH [OF here(2) ok(6) this(1) st1(3) this(2)]
  obtain st2 where st2: "fill_row m table rownum (seek p (k + ?l) st1)
      = Some (seek p (k + ?l + length (concat (map encode_pxd rs))) st2)"
    "nDecodedPixNum st2 = rownum" "writer_at st2 N (P + s + (w - s))"
    "\<forall>i. pixel (pixelOut st2) i = (if P + s \<le> i \<and> i < P + s + (w - s)
       then pixel (pixelOut st1) i OR table ! (row_pixels (w - s) rs ! (i - (P + s))) else pixel (pixelOut st1) i)"
    by blast
  have e: "P + s + (w - s) = P + w" using ok(2) by simp
  have px: "row_pixels w (r # rs) = replicate s c @ row_pixels (w - s) rs" by (simp add: r s_def Let_def)
  have "pixel (pixelOut st2) i = (if P \<le> i \<and> i < P + w then pixel (pixelOut st) i OR table ! (row_pixels w (r # rs) ! (i - P))
       else pixel (pixelOut st) i)" for i
    using st1(4) st2(4) ok(2,3) unfolding px e by (auto simp: nth_append)
  then show ?case using st1(1) st2(1-3) unfolding e by (intro exI [of _ st2]) (simp add: add.assoc)
qed
text \<open>The field: rows start at a word, and the pixels behind a row's end stay 0.\<close>

definition row_span :: "nat \<Rightarrow> nat" where
  "row_span w = 8 * ((w + 7) div 8)"

lemma row_span: "8 dvd row_span w" "w \<le> row_span w" "row_span w \<le> w + 7"
proof -
  have "w + 7 = 8 * ((w + 7) div 8) + (w + 7) mod 8" "(w + 7) mod 8 < 8" by simp_all
  then show "w \<le> row_span w" unfolding row_span_def by linarith
qed (simp_all add: row_span_def)

definition rows_at :: "nat list \<Rightarrow> nat \<Rightarrow> (nat \<times> nat) list list \<Rightarrow> nat \<Rightarrow> nat \<Rightarrow> u16 list \<Rightarrow> u16 list \<Rightarrow> bool" where
  "rows_at table w rows N P out0 out \<longleftrightarrow> length out = N \<and>
     (\<forall>i. i < P \<longrightarrow> pixel out i = pixel out0 i) \<and>
     (\<forall>r < length rows. \<forall>x < w. pixel out (P + r * row_span w + x) =
        pixel out0 (P + r * row_span w + x) OR table ! (row_pixels w (rows ! r) ! x))"

lemma fill_rows_exact:
  assumes "\<forall>rs \<in> set rows. row_ok w rs" "0 < w" "w < 65000" "table_ok table"
    "nibbles_here m p k (concat (map encode_row rows))" "even k" "nDecodedPixNum st = 0" "writer_at st N P" "8 dvd P"
    "P + length rows * row_span w \<le> 8 * N"
  shows "\<exists>st'. fill_rows m table w (length rows) (seek p k st) = Some st' \<and> rows_at table w rows N P (pixelOut st) (pixelOut st')"
  using assms(1,5-10)
proof (induction rows arbitrary: k st P)
  case Nil
  then show ?case by (simp add: rows_at_def seek_def writer_at_def)
next
  case (Cons rs rows)
  let ?n = "length (concat (map encode_pxd rs))"
  have first: "nibbles_here m p k (encode_row rs)"
    and rest: "nibbles_here m p (k + length (encode_row rs)) (concat (map encode_row rows))"
    using Cons.prems(2) by (simp_all add: nibbles_here_append)
  have here: "nibbles_here m p k (concat (map encode_pxd rs))"
    using first by (auto simp: nibbles_here_append encode_row_def Let_def split: if_splits)
  have w: "row_ok w rs" "w + nDecodedPixNum st = w" "P + w \<le> 8 * N"
    using Cons.prems row_span(2) [of w] by auto
  obtain st1 where st1: "fill_row m table w (seek p k st) = Some (seek p (k + ?n) st1)" "nDecodedPixNum st1 = w"
    "writer_at st1 N (P + w)"
    "\<forall>i. pixel (pixelOut st1) i = (if P \<le> i \<and> i < P + w then pixel (pixelOut st) i OR table ! (row_pixels w rs ! (i - P))
       else pixel (pixelOut st) i)"
    using fill_row_exact [OF here w(1,2) assms(3,4) Cons.prems(5) w(3)] by blast
  obtain st2 where st2: "end_row w (seek p (k + ?n) st1) = seek p (2 * ((k + ?n + 1) div 2)) st2"
    "nDecodedPixNum st2 = nDecodedPixNum st1 - w" "writer_at st2 N (8 * ((P + w + 7) div 8))" "pixelOut st2 = pixelOut st1"
    by (rule end_row_state [OF st1(3)])
  have k2: "2 * ((k + ?n + 1) div 2) = k + length (encode_row rs)"
    using Cons.prems(3) by (auto simp: encode_row_def Let_def elim!: evenE oddE)
  have P2: "8 * ((P + w + 7) div 8) = P + row_span w"
  proof -
    obtain q where q: "P = 8 * q" using Cons.prems(6) by (elim dvdE)
    then have "P + w + 7 = w + 7 + 8 * q" by simp
    then have "(P + w + 7) div 8 = q + (w + 7) div 8" by (simp only: div_mult_self2)
    then show ?thesis using q by (simp add: row_span_def)
  qed
  have "8 dvd P + row_span w" "P + row_span w + length rows * row_span w \<le> 8 * N"
    using Cons.prems(6,7) row_span(1) [of w] by simp_all
  moreover have "\<forall>rs \<in> set rows. row_ok w rs" "even (k + length (encode_row rs))" "nDecodedPixNum st2 = 0"
    using Cons.prems(1,3) st1(2) st2(2) k2 by (auto simp flip: k2)
  ultimately obtain st' where st': "fill_rows m table w (length rows) (seek p (k + length (encode_row rs)) st2) = Some st'"
    "rows_at table w rows N (P + row_span w) (pixelOut st2) (pixelOut st')"
    using Cons.IH [OF _ rest _ _ st2(3) [unfolded P2]] by blast
  have "rows_at table w (rs # rows) N P (pixelOut st) (pixelOut st')"
    unfolding rows_at_def
  proof (intro conjI allI impI)
    show "length (pixelOut st') = N" using st'(2) by (simp add: rows_at_def)
    show "pixel (pixelOut st') i = pixel (pixelOut st) i" if "i < P" for i
      using that st'(2) st1(4) st2(4) by (simp add: rows_at_def)
    fix r x assume r: "r < length (rs # rows)" and x: "x < w"
    show "pixel (pixelOut st') (P + r * row_span w + x)
        = pixel (pixelOut st) (P + r * row_span w + x) OR table ! (row_pixels w ((rs # rows) ! r) ! x)"
    proof (cases r)
      case 0
      have "P + x < P + row_span w" using x row_span(2) [of w] by simp
      then have "pixel (pixelOut st') (P + x) = pixel (pixelOut st1) (P + x)"
        using st'(2) st2(4) by (simp add: rows_at_def)
      then show ?thesis using 0 x st1(4) by simp
    next
      case (Suc r')
      have far: "\<not> P + row_span w + r' * row_span w + x < P + w" using row_span(2) [of w] by simp
      have "pixel (pixelOut st') (P + row_span w + r' * row_span w + x)
          = pixel (pixelOut st2) (P + row_span w + r' * row_span w + x) OR table ! (row_pixels w (rows ! r') ! x)"
        using st'(2) r x Suc by (simp add: rows_at_def)
      then show ?thesis using far st1(4) st2(4) Suc by (simp add: add.assoc)
    qed
  qed
  then show ?case using st1(1) st2(1) st'(1) unfolding k2 by (intro exI [of _ st']) simp
qed

end
