(* ===== verification/Dvd_Decode.thy ===== *)
theory Dvd_Decode
  imports Dvd_Pixels Colour
begin

text \<open>
  The DVD subtitle decoder of \<open>subtitle/parser/DvdParser.cpp\<close>: the palette of the extra data,
  the assembly of a subtitle packet, its conversion to a bitmap, and the loop that takes
  units from the data source.

  A \<open>char*\<close> into a heap buffer is an offset; a read behind the buffer sees stray bytes, a write
  outside it is a fault. \<open>long\<close> has 64 bits.
\<close>

record DvdParser = Parser +
  mRestLen :: int
  mRestbuf :: "u8 list option"
  mPalette :: "int list"
  mHasPalette :: bool

definition new_dvd :: DvdParser where
  "new_dvd = Parser.extend (start_parser TYPE_SUBTITLE_VOB) (DvdParser.fields 0 None (replicate 16 0) False)"

section \<open>Extra data\<close>

definition is_space :: "u8 \<Rightarrow> bool" where
  "is_space c \<longleftrightarrow> c \<in> {0x20, 0x0c, 0x0a, 0x0d, 0x09, 0x0b}"

definition hex_value :: "u8 \<Rightarrow> int option" where
  "hex_value c =
     (let v = uint c in
      if 0x30 \<le> v \<and> v \<le> 0x39 then Some (v - 0x30)
      else if 0x41 \<le> v \<and> v \<le> 0x46 then Some (v - 0x41 + 10)
      else if 0x61 \<le> v \<and> v \<le> 0x66 then Some (v - 0x61 + 10) else None)"

definition is_hex :: "u8 \<Rightarrow> bool" where
  "is_hex c \<longleftrightarrow> hex_value c \<noteq> None"

text \<open>\<open>strtoul(p, &p, 16)\<close> on a string without its final 0: the value and the rest.\<close>

definition strtoul16 :: "u8 list \<Rightarrow> int \<times> u8 list" where
  "strtoul16 p =
     (let q = dropWhile is_space p;
          neg = (q \<noteq> [] \<and> hd q = 0x2d);
          q = (if q \<noteq> [] \<and> (hd q = 0x2d \<or> hd q = 0x2b) then tl q else q);
          q = (if 2 < length q \<and> q ! 0 = 0x30 \<and> (q ! 1 = 0x78 \<or> q ! 1 = 0x58) \<and> is_hex (q ! 2) then drop 2 q else q);
          v = foldl (\<lambda>v c. 16 * v + the (hex_value c)) 0 (takeWhile is_hex q)
      in if takeWhile is_hex q = [] then (0, p)
         else (if v \<ge> 2 ^ 64 then 2 ^ 64 - 1 else if neg then (- v) mod 2 ^ 64 else v, dropWhile is_hex q))"

fun palette_loop :: "nat \<Rightarrow> u8 list \<Rightarrow> int list" where
  "palette_loop 0 p = []"
| "palette_loop (Suc n) p =
     (case strtoul16 p of (v, p) \<Rightarrow>
        u32_of v # palette_loop n (dropWhile (\<lambda>c. c = 0x2c \<or> is_space c) p))"

definition parsePalette :: "u8 list \<Rightarrow> DvdParser \<Rightarrow> DvdParser" where
  "parsePalette p dp = dp\<lparr>mHasPalette := True, mPalette := palette_loop 16 p\<rparr>"

definition is_newline :: "u8 \<Rightarrow> bool" where
  "is_newline c \<longleftrightarrow> c = 0x0a \<or> c = 0x0d"

definition palette_key :: "u8 list" where
  "palette_key = [0x70, 0x61, 0x6c, 0x65, 0x74, 0x74, 0x65, 0x3a]"

function extradata_lines :: "u8 list \<Rightarrow> DvdParser \<Rightarrow> DvdParser" where
  "extradata_lines data dp =
     (if data = [] then dp
      else extradata_lines (dropWhile is_newline (dropWhile (\<lambda>c. \<not> is_newline c) data))
        (if take 8 data = palette_key then parsePalette (drop 8 data) dp else dp))"
  by pat_completeness auto
termination
proof (relation "measure (\<lambda>(data, dp). length data)")
  fix data :: "u8 list" assume "data \<noteq> []"
  then obtain c cs where "data = c # cs" by (cases data) auto
  then have "length (dropWhile is_newline (dropWhile (\<lambda>c. \<not> is_newline c) data)) \<le> length cs"
    by (auto intro: order_trans [OF length_dropWhile_le])
  then show "((dropWhile is_newline (dropWhile (\<lambda>c. \<not> is_newline c) data), dp'), data, dp)
      \<in> measure (\<lambda>(data, dp). length data)" for dp' dp :: DvdParser
    using \<open>data = c # cs\<close> by simp
qed simp

declare extradata_lines.simps [simp del]

text \<open>A negative size is a huge count for \<open>memcpy\<close>.\<close>

definition parseExtradata :: "env \<Rightarrow> mem \<Rightarrow> nat \<Rightarrow> int \<Rightarrow> DvdParser \<Rightarrow> DvdParser option" where
  "parseExtradata E m p extradataSize dp =
     (if extradataSize = 0 then Some dp
      else
        let n = extradataSize - 5 in
        if \<not> malloc_ok E (ExtraDataBuffer (n + 1)) then Some dp
        else if n < 0 then None
        else Some (extradata_lines (takeWhile (\<lambda>c. c \<noteq> 0) (map (\<lambda>i. m (p + 5 + i)) [0..<nat n])) dp))"

section \<open>Assembling a packet\<close>

definition peek32 :: "env \<Rightarrow> mem \<Rightarrow> nat \<Rightarrow> int" where
  "peek32 E m p = subPeekAsInt32 (cval E) (map (\<lambda>i. m (p + i)) [0..<4])"

definition peek64 :: "env \<Rightarrow> mem \<Rightarrow> nat \<Rightarrow> int" where
  "peek64 E m p = subPeekAsInt64 (cval E) (map (\<lambda>i. m (p + i)) [0..<8])"

text \<open>
  The copying loop over the parts of a packet. The result: the bytes read, whether the packet
  is complete, or that a part had a wrong header, and the buffer.
\<close>

datatype assembly = Wrong_Header | Incomplete | Complete

partial_function (option) vob_parts ::
  "env \<Rightarrow> mem \<Rightarrow> nat \<Rightarrow> int \<Rightarrow> nat \<Rightarrow> int \<Rightarrow> int \<Rightarrow> u8 list \<Rightarrow> (nat \<times> assembly \<times> u8 list) option" where
  "vob_parts E m p len rdOffset wrOffset currentLen data =
     (if len - wrOffset > 0 then
        if currentLen = 0 \<and> peek32 E m (p + rdOffset) \<noteq> AML_PARSER_SYNC_WORD then Some (rdOffset + 4, Wrong_Header, data)
        else
          let (currentLen, rdOffset) =
                (if currentLen = 0 then (u32_of (peek32 E m (p + rdOffset + 8)), rdOffset + 16) else (currentLen, rdOffset))
          in if u32_of (wrOffset + currentLen) \<le> len then do {
               data \<leftarrow> (if currentLen > VOB_SUB_SIZE then None
                 else put_bytes wrOffset (bytes_from m (p + rdOffset) (nat currentLen)) data);
               (if wrOffset + currentLen = len then Some (rdOffset + nat currentLen, Complete, data)
                else vob_parts E m p len (rdOffset + nat currentLen) (wrOffset + currentLen) 0 data) }
             else Some (rdOffset, Incomplete, data)
      else Some (rdOffset, Incomplete, data))"

declare vob_parts.simps [code]

text \<open>A word of the fields in memory; the targets are little-endian.\<close>

definition word_bytes :: "u16 list \<Rightarrow> u8 list" where
  "word_bytes ws = concat (map (\<lambda>w. [ucast w, ucast (drop_bit 8 w)]) ws)"

text \<open>
  The two fields are decoded from the packet and take its place; the flag says whether both
  buffers could be had.
\<close>

definition decode_fields :: "env \<Rightarrow> u8 list \<Rightarrow> AML_SPUVAR \<Rightarrow> (bool \<times> AML_SPUVAR) option" where
  "decode_fields E data s =
     (if \<not> malloc_ok E (FieldBuffer 1) then Some (False, s)
      else do {
        (odds, s) \<leftarrow> spuFillPixel (packet_mem E data) (nat (top_pxd_addr s)) 1 s;
        (if \<not> malloc_ok E (FieldBuffer 2) then Some (False, s)
         else do {
           (evens, s) \<leftarrow> spuFillPixel (packet_mem E data) (nat (bottom_pxd_addr s)) 2 s;
           Some (True, s\<lparr>spu_data := Some (word_bytes odds @ word_bytes evens)\<rparr>) }) })"

definition is_extra :: "mem \<Rightarrow> nat \<Rightarrow> bool" where
  "is_extra m p \<longleftrightarrow> bytes_from m p 5 = [0x45, 0x58, 0x54, 0x52, 0x41]"

text \<open>The result: the return value, what is left of \<open>*bufsize\<close>, the decoder and the unit.\<close>

definition getVobSpu :: "env \<Rightarrow> mem \<Rightarrow> nat \<Rightarrow> int \<Rightarrow> int \<Rightarrow> DvdParser \<Rightarrow> AML_SPUVAR
    \<Rightarrow> (int \<times> int \<times> DvdParser \<times> AML_SPUVAR) option" where
  "getVobSpu E m p bufsize len dp s =
     (if is_extra m p then do {
        dp \<leftarrow> parseExtradata E m p (wrap32 len) dp;
        Some (0, wrap32 (bufsize - wrap32 len), dp, s) }
      else
        let s = s\<lparr>spu_length := u16_of (u16_of (push_bit 8 (cval E (m p))) OR cval E (m (p + 1))),
                  cmd_offset := u16_of (u16_of (push_bit 8 (cval E (m (p + 2)))) OR cval E (m (p + 3))),
                  spu_data := Some (replicate (nat VOB_SUB_SIZE) 0)\<rparr>
        in do {
          (rdOffset, result, data) \<leftarrow> vob_parts E m p (spu_length s) 0 0 len (replicate (nat VOB_SUB_SIZE) 0);
          let s = s\<lparr>spu_data := Some data\<rparr>;
          (if result = Wrong_Header then Some (int rdOffset, wrap32 (bufsize - int rdOffset), dp, s)
           else do {
             s \<leftarrow> (if result = Complete
               then map_option (\<lambda>(_, s). s\<lparr>frame_rdy := 1\<rparr>) (getSpuCmd (packet_mem E data) s) else Some s);
             (if frame_rdy s = 1 then do {
                (ok, s) \<leftarrow> decode_fields E data s;
                Some (if ok then int rdOffset else 0, wrap32 (bufsize - int rdOffset), dp, s) }
              else Some (int rdOffset, wrap32 (bufsize - int rdOffset), dp, s)) }) })"
section \<open>The bitmap\<close>

definition getInterSpuSize :: "AML_SPUVAR \<Rightarrow> int" where
  "getInterSpuSize s = (if spu_width s * spu_height s = 0 then 0 else spu_width s * spu_height s)"

text \<open>The four colours depend on which values are opaque; the palette is not used.\<close>

definition RGBA_Pal :: "int \<Rightarrow> u32 list" where
  "RGBA_Pal alpha =
     (if alpha AND 0xf000 \<noteq> 0 \<and> alpha AND 0x0f00 \<noteq> 0 \<and> alpha AND 0x00f0 \<noteq> 0
      then [0, 0xffffffff, 0xff000000, 0xff000000]
      else if alpha = 0xfe0 then [0, 0xffffffff, 0xff000000, 0]
      else [0, 0xffffffff, 0, 0xff000000])"

record inter =
  xStart :: int
  startHeight :: int
  endHeight :: int
  resultBuf :: "u32 list"

definition put_colour :: "u32 list \<Rightarrow> int \<Rightarrow> int \<Rightarrow> nat \<Rightarrow> inter \<Rightarrow> inter option" where
  "put_colour pal i n k t = do {
     out \<leftarrow> store (resultBuf t) i (pal ! nat (drop_bit (6 - 2 * k) n AND 0x3));
     Some (t\<lparr>resultBuf := out\<rparr>) }"

text \<open>One row from column \<open>j\<close>: a byte has four pixels; the bytes of a word are swapped.\<close>

function inter_row :: "mem \<Rightarrow> nat \<Rightarrow> u32 list \<Rightarrow> int \<Rightarrow> int \<Rightarrow> nat \<Rightarrow> int \<Rightarrow> inter \<Rightarrow> inter option" where
  "inter_row m data pal w i index j t =
     (if j < w then
        let n = byte_at m (data + (if index mod 2 \<noteq> 0 then index - 1 else index + 1));
            t = t\<lparr>startHeight := (if startHeight t < 0 then i else startHeight t), endHeight := i,
                  xStart := (if j < xStart t then j else xStart t)\<rparr>;
            at = wrap32 (i * w) + j
        in do {
          t \<leftarrow> put_colour pal at n 0 t;
          (if j + 1 \<ge> w then Some t else do {
             t \<leftarrow> put_colour pal (at + 1) n 1 t;
             (if j + 2 \<ge> w then Some t else do {
                t \<leftarrow> put_colour pal (at + 2) n 2 t;
                (if j + 3 \<ge> w then Some t else do {
                   t \<leftarrow> put_colour pal (at + 3) n 3 t;
                   inter_row m data pal w i (index + 1) (j + 4) t }) }) }) }
      else Some t)"
  by pat_completeness auto
termination
  by (relation "measure (\<lambda>(m, data, pal, w, i, index, j, t). nat (w - j))") auto

declare inter_row.simps [simp del]

definition row_start :: "int \<Rightarrow> int \<Rightarrow> nat" where
  "row_start w i =
     (let dataByte = push_bit 1 (drop_bit 4 (w * 2 + 15)) in
      nat (if i AND 1 \<noteq> 0 then drop_bit 1 i * dataByte + VOB_SUB_SIZE div 2 else drop_bit 1 i * dataByte))"

definition parseInterSpu :: "mem \<Rightarrow> u32 list \<Rightarrow> AML_SPUVAR \<Rightarrow> (u32 list \<times> AML_SPUVAR) option" where
  "parseInterSpu m buffer s =
     (let w = spu_width s; h = spu_height s in do {
        t \<leftarrow> each (\<lambda>i. inter_row m (row_start w i) (RGBA_Pal (spu_alpha s)) w i 0 0) [0..h - 1]
           \<lparr>xStart = w, startHeight = -1, endHeight = 0, resultBuf = buffer\<rparr>;
        let height = endHeight t - startHeight t + 1;
        Some (resultBuf t, s\<lparr>resize_xstart := xStart t, resize_ystart := startHeight t, resize_width := w,
          resize_height := height, resize_size := wrap32 (height * w)\<rparr>) })"

text \<open>\<open>srcData\<close> as bytes; the second branch copies the resized rows one by one.\<close>

definition fillResizedData :: "u8 list \<Rightarrow> u8 list \<Rightarrow> AML_SPUVAR \<Rightarrow> u8 list option" where
  "fillResizedData dstData srcData s =
     (let memcpy = (\<lambda>at from n dst. if 0 \<le> from \<and> 0 \<le> n \<and> from + n \<le> int (length srcData)
            then put_bytes at (take (nat n) (drop (nat from) srcData)) dst else None)
      in if resize_size s = getInterSpuSize s then memcpy 0 0 (resize_size s * 4) dstData
         else each (\<lambda>k. memcpy (resize_width s * k)
             (4 * (spu_width s * resize_ystart s + spu_width s * k + resize_xstart s)) (resize_width s * 4))
           [0..resize_height s - 1] dstData)"

definition fillResize :: "env \<Rightarrow> AML_SPUVAR \<Rightarrow> AML_SPUVAR option" where
  "fillResize E s =
     (let subSize = getInterSpuSize s in
      if subSize \<le> 0 \<or> \<not> malloc_ok E (ResizeBuffer subSize) then Some s
      else do {
        (internal, s) \<leftarrow> parseInterSpu (packet_mem E (case spu_data s of None \<Rightarrow> [] | Some d \<Rightarrow> d))
          (replicate (nat subSize) 0) s;
        let n = resize_size s * 4;
        let s = s\<lparr>spu_width := u16_of (resize_width s), spu_height := u16_of (resize_height s),
                  buffer_size := u32_of (resize_size s * 4)\<rparr>;
        (if malloc_ok E (SpuData n) then do {
           data \<leftarrow> fillResizedData (map (stray E) [0..<nat n]) (concat (map colour_bytes internal)) s;
           Some (s\<lparr>spu_data := Some data\<rparr>) }
         else None) })"

section \<open>Units of the data source\<close>

text \<open>\<open>mDataSource->read(buf + at, n)\<close>: a negative \<open>n\<close> is a huge count.\<close>

definition read_at :: "'s reader \<Rightarrow> int \<Rightarrow> int \<Rightarrow> u8 list \<Rightarrow> 's \<Rightarrow> (u8 list \<times> 's) option" where
  "read_at rd n at buf s = do {
     (bs, s) \<leftarrow> rd (nat (size_of n)) s;
     buf \<leftarrow> put_bytes at bs buf;
     Some (buf, s) }"

definition internal_image :: "int \<Rightarrow> bool" where
  "internal_image type \<longleftrightarrow> type = 0x17000 \<or> type = 0x1700a"

text \<open>
  What is left behind a decoded packet is kept for the next unit when it starts with a header:
  the decoder and the new \<open>sizeflag\<close>.
\<close>

definition keep_rest :: "env \<Rightarrow> mem \<Rightarrow> nat \<Rightarrow> DvdParser \<Rightarrow> DvdParser \<times> int" where
  "keep_rest E m p dp =
     (if mRestLen dp \<le> 0 then (dp\<lparr>mRestLen := 0\<rparr>, 0)
      else if \<not> malloc_ok E (RestBuffer (mRestLen dp)) then (dp\<lparr>mRestbuf := None\<rparr>, 0)
      else
        let rest = bytes_from m p (nat (mRestLen dp)); r = packet_mem E rest in
        if peek32 E r 0 = AML_PARSER_SYNC_WORD \<and> (cval E (r 4) = 0xaa \<or> cval E (r 4) = 0x77)
        then (dp\<lparr>mRestbuf := Some rest\<rparr>, mRestLen dp)
        else (dp\<lparr>mRestbuf := None, mRestLen := 0\<rparr>, 0))"

text \<open>A unit with an image, at \<open>p\<close>: the return value, the new \<open>sizeflag\<close>, decoder and unit.\<close>

definition internal_unit :: "env \<Rightarrow> mem \<Rightarrow> nat \<Rightarrow> int \<Rightarrow> int \<Rightarrow> int \<Rightarrow> DvdParser \<Rightarrow> AML_SPUVAR
    \<Rightarrow> (int \<times> int \<times> DvdParser \<times> AML_SPUVAR) option" where
  "internal_unit E m piece type currentLen currentPts dp s =
     (let rdOffset = (if type = 0x1700a then 24 else 20);
          dp = (if type = 0x1700a then dp\<lparr>mRestLen := wrap32 (mRestLen dp - 4)\<rparr> else dp);
          s = s\<lparr>subtitle_type := TYPE_SUBTITLE_VOB, buffer_size := VOB_SUB_SIZE\<rparr>
      in if \<not> malloc_ok E (SpuData VOB_SUB_SIZE) then None
         else do {
           (ret, restLen, dp, s) \<leftarrow> getVobSpu E m (piece + rdOffset) (mRestLen dp) currentLen dp (s\<lparr>pts := currentPts\<rparr>);
           (case keep_rest E m (piece + rdOffset + nat ret) (dp\<lparr>mRestLen := restLen\<rparr>) of
              (dp, sizeflag) \<Rightarrow> Some (ret, sizeflag, dp, s)) })"

text \<open>
  There is one unit object: the queue gets references to it, so that \<open>posts\<close> counts how often
  it was added and the queue's entries are what the object is at the end.
\<close>

definition post_times :: "nat \<Rightarrow> AML_SPUVAR \<Rightarrow> DvdParser \<Rightarrow> DvdParser" where
  "post_times n s dp = fold addDecodedItem (replicate n s) dp"

definition display_size :: "int \<times> int \<Rightarrow> AML_SPUVAR \<Rightarrow> AML_SPUVAR" where
  "display_size video s =
     (let s = (if spu_origin_display_w s = 0 \<or> spu_origin_display_h s = 0
            then s\<lparr>spu_origin_display_w := u32_of (fst video), spu_origin_display_h := u32_of (snd video)\<rparr> else s)
      in if spu_origin_display_w s = 0 \<or> spu_origin_display_h s = 0
         then s\<lparr>spu_origin_display_w := 720, spu_origin_display_h := 576\<rparr> else s)"

text \<open>The loop; \<open>off\<close> is \<open>tmpSpuBuf - spuBuffer\<close>.\<close>

partial_function (option) spu_loop ::
  "env \<Rightarrow> 's reader \<Rightarrow> int \<times> int \<Rightarrow> u8 list \<Rightarrow> int \<Rightarrow> int \<Rightarrow> int \<Rightarrow> int \<Rightarrow> nat \<Rightarrow> AML_SPUVAR \<Rightarrow> DvdParser \<Rightarrow> 's
    \<Rightarrow> (int \<times> DvdParser \<times> 's) option" where
  "spu_loop E rd video buf sizeflag off currentType ret posts s dp src =
     (if \<not> sizeflag > 30 then Some (ret, post_times posts s dp, src)
      else
        let piece = off in do {
        buf \<leftarrow> (if mRestLen dp > 0
          then (case mRestbuf dp of
                  None \<Rightarrow> None
                | Some rest \<Rightarrow> if mRestLen dp \<le> int (length rest) then put_bytes piece (take (nat (mRestLen dp)) rest) buf
                    else None)
          else Some buf);
        (buf, sizeflag, off, src) \<leftarrow> (if internal_image currentType \<and> mRestLen dp > 0 then Some (buf, sizeflag, off, src)
          else do {
            (buf, src) \<leftarrow> read_at rd 20 (piece + mRestLen dp) buf src;
            Some (buf, u32_of (sizeflag - 20), off + 20, src) });
        let m = packet_mem E buf;
        (if peek32 E m 0 \<noteq> AML_PARSER_SYNC_WORD then do {
           (_, src) \<leftarrow> read_at rd sizeflag piece buf src;
           Some (-1, post_times posts s dp, src) }
         else
           let currentType = peek32 E m 4 AND 0x00FFFFFF; currentLen = u32_of (peek32 E m 8);
               dp = (if mRestLen dp \<noteq> 0 then dp\<lparr>mRestLen := wrap32 (mRestLen dp - 16)\<rparr> else dp)
           in if currentLen > sizeflag then do {
                (_, src) \<leftarrow> read_at rd sizeflag piece buf src;
                Some (-1, post_times posts s dp, src) }
              else if internal_image currentType then do {
                (buf, src) \<leftarrow> read_at rd (u32_of (sizeflag - mRestLen dp)) (piece + mRestLen dp + 20) buf src;
                (ret, sizeflag, dp, s) \<leftarrow> internal_unit E (packet_mem E buf) (nat piece) currentType currentLen (peek64 E m 12)
                  (dp\<lparr>mRestLen := wrap32 sizeflag\<rparr>) s;
                s \<leftarrow> (if ret < 0 then Some s else fillResize E s);
                (if ret < 0 then Some (ret, post_times posts s dp, src)
                 else if spu_data s \<noteq> None \<and> buffer_size s > 0
                 then spu_loop E rd video buf sizeflag (off + currentLen) currentType ret (posts + 1) (display_size video s) dp src
                 else spu_loop E rd video buf sizeflag (off + currentLen) currentType ret posts s dp src) }
              else do {
                (_, src) \<leftarrow> read_at rd (u32_of (currentLen + 4)) (piece + 20) buf src;
                Some (-1, post_times posts s (dp\<lparr>mRestLen := 0\<rparr>), src) }) })"

declare spu_loop.simps [code]

definition getSpu :: "env \<Rightarrow> 's reader \<Rightarrow> ('s \<Rightarrow> int) \<Rightarrow> int \<times> int \<Rightarrow> AML_SPUVAR \<Rightarrow> DvdParser \<Rightarrow> 's
    \<Rightarrow> (int \<times> DvdParser \<times> 's) option" where
  "getSpu E rd available video s dp src =
     (let dp' = (if mState dp = SUB_INIT then dp\<lparr>mState := SUB_PLAYING\<rparr> else dp) in
      if mState dp = SUB_STOP then Some (0, dp', src)
      else if available src \<le> 0 then Some (-1, dp', src)
      else
        let sz = wrap32 (available src + mRestLen dp') in
        if \<not> malloc_ok E (UnitBuffer sz) then Some (-1, dp', src)
        else spu_loop E rd video (map (stray E) [0..<nat (size_of sz)]) (u32_of sz) 0 0 (-1) 0 s dp' src)"

definition getInterSpu :: "env \<Rightarrow> 's reader \<Rightarrow> ('s \<Rightarrow> int) \<Rightarrow> int \<times> int \<Rightarrow> DvdParser \<Rightarrow> 's
    \<Rightarrow> (int \<times> DvdParser \<times> 's) option" where
  "getInterSpu E rd available video = getSpu E rd available video (new_spu\<lparr>sync_bytes := AML_PARSER_SYNC_WORD\<rparr>)"

text \<open>\<open>parse\<close>: the calls until the thread is asked to exit; \<open>rounds\<close> bounds how many are followed.\<close>

fun dvd_parse :: "nat \<Rightarrow> env \<Rightarrow> 's reader \<Rightarrow> ('s \<Rightarrow> int) \<Rightarrow> int \<times> int \<Rightarrow> DvdParser \<Rightarrow> 's \<Rightarrow> (DvdParser \<times> 's) option" where
  "dvd_parse 0 E rd available video dp src = Some (dp, src)"
| "dvd_parse (Suc rounds) E rd available video dp src =
     (if mThreadExitRequested dp then Some (dp, src)
      else do {
        (_, dp, src) \<leftarrow> getInterSpu E rd available video dp src;
        dvd_parse rounds E rd available video dp src })"

end
