(* ===== verification/Dvd_Image.thy ===== *)
theory Dvd_Image
  imports Dvd_Decode
begin

text \<open>
  From the fields of a DVD subtitle to the bitmap: what \<open>decode_fields\<close> leaves in
  \<open>spu_data\<close>, and what \<open>parseInterSpu\<close> and \<open>fillResize\<close> make of it, for pixel data that
  encodes given rows.
\<close>

section \<open>Pixels in memory\<close>

lemma length_word_bytes [simp]: "length (word_bytes ws) = 2 * length ws"
  by (induction ws) (simp_all add: word_bytes_def)

lemma word_bytes_nth:
  "q < length ws \<Longrightarrow> word_bytes ws ! (2 * q) = ucast (ws ! q)"
  "q < length ws \<Longrightarrow> word_bytes ws ! (2 * q + 1) = ucast (drop_bit 8 (ws ! q))"
proof -
  have "word_bytes ws ! (2 * q) = ucast (ws ! q) \<and> word_bytes ws ! (2 * q + 1) = ucast (drop_bit 8 (ws ! q))"
    if "q < length ws"
    using that
  proof (induction ws arbitrary: q)
    case (Cons w ws)
    then show ?case by (cases q) (simp_all add: word_bytes_def)
  qed simp
  then show "q < length ws \<Longrightarrow> word_bytes ws ! (2 * q) = ucast (ws ! q)"
    "q < length ws \<Longrightarrow> word_bytes ws ! (2 * q + 1) = ucast (drop_bit 8 (ws ! q))" by blast+
qed

lemma two_bits:
  fixes w :: u16
  assumes "k < 4"
  shows "nat (drop_bit (6 - 2 * k) (uint (ucast (drop_bit 8 w) :: u8)) AND 3) = unat (drop_bit (14 - 2 * k) w AND 3)"
    "nat (drop_bit (6 - 2 * k) (uint (ucast w :: u8)) AND 3) = unat (drop_bit (14 - 2 * (4 + k)) w AND 3)"
proof -
  have three: "(3 :: int) = mask 2" "(3 :: u16) = mask 2" by (simp_all add: mask_eq_exp_minus_1)
  have "drop_bit (6 - 2 * k) (uint (ucast (drop_bit 8 w) :: u8)) AND 3 = uint (drop_bit (14 - 2 * k) w AND 3)"
    unfolding three using assms by (intro bit_eqI) (auto simp: bit_simps)
  then show "nat (drop_bit (6 - 2 * k) (uint (ucast (drop_bit 8 w) :: u8)) AND 3) = unat (drop_bit (14 - 2 * k) w AND 3)"
    by simp
  have "drop_bit (6 - 2 * k) (uint (ucast w :: u8)) AND 3 = uint (drop_bit (14 - 2 * (4 + k)) w AND 3)"
    unfolding three using assms by (intro bit_eqI) (auto simp: bit_simps)
  then show "nat (drop_bit (6 - 2 * k) (uint (ucast w :: u8)) AND 3) = unat (drop_bit (14 - 2 * (4 + k)) w AND 3)"
    by simp
qed

text \<open>The pixel that \<open>inter_row\<close> sees in column \<open>x\<close> of the row at \<open>data\<close>.\<close>

definition seen_pixel :: "mem \<Rightarrow> nat \<Rightarrow> nat \<Rightarrow> nat" where
  "seen_pixel m data x =
     (let g = x div 4 in
      nat (drop_bit (6 - 2 * (x mod 4)) (byte_at m (data + (if g mod 2 \<noteq> 0 then g - 1 else g + 1))) AND 3))"

lemma seen_field_pixel:
  assumes "\<forall>i < 2 * length ws. m (base + i) = word_bytes ws ! i" "8 * q + x < 8 * length ws"
  shows "seen_pixel m (base + 2 * q) x = pixel ws (8 * q + x)"
proof -
  obtain g k where x: "x = 4 * g + k" "k < 4" by (rule quarters)
  then have gk: "x div 4 = g" "x mod 4 = k" by simp_all
  have eight: "(8 * a + b) div 8 = a" "(8 * a + b) mod 8 = b" if "b < 8" for a b :: nat using that by simp_all
  consider (even) t where "g = 2 * t" | (odd) t where "g = 2 * t + 1" by (meson oddE evenE)
  then show ?thesis
  proof cases
    case even
    then have px: "8 * q + x = 8 * (q + t) + k" using x by simp
    then have t: "q + t < length ws" using assms(2) by simp
    have "(8 * (q + t) + k) div 8 = q + t" "(8 * (q + t) + k) mod 8 = k" by (rule eight, use x(2) in simp)+
    then have rhs: "pixel ws (8 * q + x) = unat (drop_bit (14 - 2 * k) (ws ! (q + t)) AND 3)"
      unfolding px pixel_def by simp
    have "m (base + (2 * (q + t) + 1)) = ucast (drop_bit 8 (ws ! (q + t)))"
    proof -
      have "2 * (q + t) + 1 < 2 * length ws" using t by simp
      then have "m (base + (2 * (q + t) + 1)) = word_bytes ws ! (2 * (q + t) + 1)" using assms(1) by blast
      then show ?thesis unfolding word_bytes_nth(2) [OF t] .
    qed
    then have "byte_at m (base + 2 * q + (g + 1)) = uint (ucast (drop_bit 8 (ws ! (q + t))) :: u8)"
      using even by (simp add: byte_at_def algebra_simps)
    then show ?thesis unfolding rhs seen_pixel_def gk Let_def using even two_bits(1) [OF x(2)] by simp
  next
    case odd
    then have px: "8 * q + x = 8 * (q + t) + (4 + k)" using x by simp
    then have t: "q + t < length ws" using assms(2) by simp
    have "(8 * (q + t) + (4 + k)) div 8 = q + t" "(8 * (q + t) + (4 + k)) mod 8 = 4 + k" by (rule eight, use x(2) in simp)+
    then have rhs: "pixel ws (8 * q + x) = unat (drop_bit (14 - 2 * (4 + k)) (ws ! (q + t)) AND 3)"
      unfolding px pixel_def by simp
    have "m (base + 2 * (q + t)) = ucast (ws ! (q + t))"
    proof -
      have "2 * (q + t) < 2 * length ws" using t by simp
      then have "m (base + 2 * (q + t)) = word_bytes ws ! (2 * (q + t))" using assms(1) by blast
      then show ?thesis unfolding word_bytes_nth(1) [OF t] .
    qed
    then have "byte_at m (base + 2 * q + (g - 1)) = uint (ucast (ws ! (q + t)) :: u8)"
      using odd by (simp add: byte_at_def algebra_simps)
    then show ?thesis unfolding rhs seen_pixel_def gk Let_def using odd two_bits(2) [OF x(2)] by simp
  qed
qed
section \<open>Painting\<close>

lemma put_colour_store:
  "0 \<le> i \<Longrightarrow> i < int (length (resultBuf t)) \<Longrightarrow>
     put_colour pal i n k t = Some (t\<lparr>resultBuf := (resultBuf t)[nat i := pal ! nat (drop_bit (6 - 2 * k) n AND 3)]\<rparr>)"
  by (simp add: put_colour_def store_def)

definition row_painted :: "mem \<Rightarrow> nat \<Rightarrow> u32 list \<Rightarrow> nat \<Rightarrow> nat \<Rightarrow> nat \<Rightarrow> u32 list \<Rightarrow> u32 list \<Rightarrow> bool" where
  "row_painted m data pal w P j out0 out \<longleftrightarrow> length out = length out0 \<and>
     (\<forall>y < length out. out ! y = (if P + j \<le> y \<and> y < P + w then pal ! seen_pixel m data (y - P) else out0 ! y))"

lemma row_painted_step:
  assumes "j < w" "P + j < length out0"
    "row_painted m data pal w P (j + 1) (out0[P + j := pal ! seen_pixel m data j]) out"
  shows "row_painted m data pal w P j out0 out"
  using assms by (auto simp: row_painted_def nth_list_update)

lemma row_painted_end: "w \<le> j \<Longrightarrow> row_painted m data pal w P j out out"
  by (auto simp: row_painted_def)

lemma seen_group:
  "k < 4 \<Longrightarrow> nat (drop_bit (6 - 2 * k) (byte_at m (data + (if g mod 2 \<noteq> 0 then g - 1 else g + 1))) AND 3)
     = seen_pixel m data (4 * g + k)"
  by (simp add: seen_pixel_def Let_def)

lemma inter_row_exact:
  assumes "P + w \<le> length (resultBuf t)" "wrap32 (i * int w) = int P" "0 \<le> i"
  shows "\<exists>t'. inter_row m data pal (int w) i g (int (4 * g)) t = Some t' \<and>
    row_painted m data pal w P (4 * g) (resultBuf t) (resultBuf t') \<and>
    (if 4 * g < w then startHeight t' = (if startHeight t < 0 then i else startHeight t) \<and> endHeight t' = i \<and>
       xStart t' = min (xStart t) (int (4 * g)) else t' = t)"
  using assms(1)
proof (induction "w - 4 * g" arbitrary: g t rule: less_induct)
  case less
  show ?case
  proof (cases "4 * g < w")
    case False
    then have "inter_row m data pal (int w) i g (int (4 * g)) t = Some t" by (subst inter_row.simps) simp
    with False show ?thesis by (intro exI [of _ t]) (simp add: row_painted_end)
  next
    case True
    define n where "n = byte_at m (data + (if g mod 2 \<noteq> 0 then g - 1 else g + 1))"
    define t0 where "t0 = t\<lparr>startHeight := (if startHeight t < 0 then i else startHeight t), endHeight := i,
        xStart := (if int (4 * g) < xStart t then int (4 * g) else xStart t)\<rparr>"
    define out where "out = (\<lambda>k. fold (\<lambda>k out. out[P + 4 * g + k := pal ! seen_pixel m data (4 * g + k)]) [0..<k] (resultBuf t))"
    have len: "length (out k) = length (resultBuf t)" for k by (induction k) (simp_all add: out_def)
    have out_Suc: "out (Suc k) = (out k)[P + 4 * g + k := pal ! seen_pixel m data (4 * g + k)]" for k
      by (simp add: out_def)
    have put: "put_colour pal (int P + int (4 * g) + int k) n k (t0\<lparr>resultBuf := out k\<rparr>) = Some (t0\<lparr>resultBuf := out (k + 1)\<rparr>)"
      if "4 * g + k < w" "k < 4" for k
    proof -
      have at: "int P + int (4 * g) + int k = int (P + 4 * g + k)" by simp
      have "put_colour pal (int (P + 4 * g + k)) n k (t0\<lparr>resultBuf := out k\<rparr>)
          = Some (t0\<lparr>resultBuf := (out k)[P + 4 * g + k := pal ! seen_pixel m data (4 * g + k)]\<rparr>)"
        using put_colour_store [of "int (P + 4 * g + k)" "t0\<lparr>resultBuf := out k\<rparr>" pal n k] that less.prems
        unfolding n_def seen_group [OF that(2)] nat_int by (simp add: len)
      then show ?thesis unfolding at by (simp add: out_Suc)
    qed
    have painted: "row_painted m data pal w P (4 * g) (resultBuf t) out'"
      if "row_painted m data pal w P (4 * g + k) (out k) out'" "4 * g + k \<le> w" "k \<le> 4" for k out'
      using that
    proof (induction k)
      case (Suc k)
      have "row_painted m data pal w P (4 * g + k) (out k) out'"
      proof (rule row_painted_step)
        show "4 * g + k < w" "P + (4 * g + k) < length (out k)" using Suc.prems less.prems by (simp_all add: len)
        show "row_painted m data pal w P (4 * g + k + 1) ((out k)[P + (4 * g + k) := pal ! seen_pixel m data (4 * g + k)]) out'"
          using Suc.prems(1) unfolding out_Suc by (simp add: add.assoc)
      qed
      with Suc show ?case by simp
    qed (simp add: out_def)
    have done_row: "\<exists>t'. Some (t0\<lparr>resultBuf := out k\<rparr>) = Some t' \<and> row_painted m data pal w P (4 * g) (resultBuf t) (resultBuf t') \<and>
        (if 4 * g < w then startHeight t' = (if startHeight t < 0 then i else startHeight t) \<and> endHeight t' = i \<and>
          xStart t' = min (xStart t) (int (4 * g)) else t' = t)" if "4 * g + k = w" "k \<le> 4" for k
      using painted [of k "out k"] that True by (simp add: row_painted_end t0_def min_def)
    have start: "t0 = t0\<lparr>resultBuf := out 0\<rparr>" by (simp add: t0_def out_def)
    have p0: "put_colour pal (int P + int (4 * g)) n 0 t0 = Some (t0\<lparr>resultBuf := out 1\<rparr>)"
      using put [of 0] True by (simp flip: start)
    have p1: "put_colour pal (int P + int (4 * g) + 1) n 1 (t0\<lparr>resultBuf := out 1\<rparr>) = Some (t0\<lparr>resultBuf := out 2\<rparr>)" if "4 * g + 1 < w"
      using put [of 1] that by (simp add: numeral_2_eq_2)
    have p2: "put_colour pal (int P + int (4 * g) + 2) n 2 (t0\<lparr>resultBuf := out 2\<rparr>) = Some (t0\<lparr>resultBuf := out 3\<rparr>)" if "4 * g + 2 < w"
      using put [of 2] that by (simp add: numeral_2_eq_2 numeral_3_eq_3)
    have p3: "put_colour pal (int P + int (4 * g) + 3) n 3 (t0\<lparr>resultBuf := out 3\<rparr>) = Some (t0\<lparr>resultBuf := out 4\<rparr>)" if "4 * g + 3 < w"
      using put [of 3] that by (simp add: eval_nat_numeral)
    have run: "inter_row m data pal (int w) i g (int (4 * g)) t = do {
        t \<leftarrow> put_colour pal (int P + int (4 * g)) n 0 t0;
        (if int (4 * g) + 1 \<ge> int w then Some t else do {
           t \<leftarrow> put_colour pal (int P + int (4 * g) + 1) n 1 t;
           (if int (4 * g) + 2 \<ge> int w then Some t else do {
              t \<leftarrow> put_colour pal (int P + int (4 * g) + 2) n 2 t;
              (if int (4 * g) + 3 \<ge> int w then Some t else do {
                 t \<leftarrow> put_colour pal (int P + int (4 * g) + 3) n 3 t;
                 inter_row m data pal (int w) i (g + 1) (int (4 * g) + 4) t }) }) }) }"
    proof -
      have c: "(int (4 * g) < int w) = True" using True by simp
      show ?thesis by (subst inter_row.simps) (simp only: c if_True Let_def assms(2) t0_def n_def)
    qed
    consider "w = 4 * g + 1" | "w = 4 * g + 2" | "w = 4 * g + 3" | "4 * g + 4 \<le> w" using True by linarith
    then show ?thesis
    proof cases
      case 1
      have "inter_row m data pal (int w) i g (int (4 * g)) t = Some (t0\<lparr>resultBuf := out 1\<rparr>)"
        unfolding run p0 using 1 by simp
      with done_row [of 1] 1 show ?thesis by simp
    next
      case 2
      have "inter_row m data pal (int w) i g (int (4 * g)) t = Some (t0\<lparr>resultBuf := out 2\<rparr>)"
        unfolding run p0 using 2 p1 by simp
      with done_row [of 2] 2 show ?thesis by simp
    next
      case 3
      have "inter_row m data pal (int w) i g (int (4 * g)) t = Some (t0\<lparr>resultBuf := out 3\<rparr>)"
        unfolding run p0 using 3 p1 p2 by simp
      with done_row [of 3] 3 show ?thesis by simp
    next
      case 4
      have eq: "inter_row m data pal (int w) i g (int (4 * g)) t
          = inter_row m data pal (int w) i (g + 1) (int (4 * (g + 1))) (t0\<lparr>resultBuf := out 4\<rparr>)"
        unfolding run p0 using 4 p1 p2 p3 by (simp add: add.commute)
      have "w - 4 * (g + 1) < w - 4 * g" using True by simp
      moreover have "P + w \<le> length (resultBuf (t0\<lparr>resultBuf := out 4\<rparr>))" using less.prems by (simp add: len)
      ultimately obtain t' where t': "inter_row m data pal (int w) i (g + 1) (int (4 * (g + 1))) (t0\<lparr>resultBuf := out 4\<rparr>) = Some t'"
        "row_painted m data pal w P (4 * (g + 1)) (out 4) (resultBuf t')"
        "if 4 * (g + 1) < w then startHeight t' = (if startHeight t0 < 0 then i else startHeight t0) \<and> endHeight t' = i \<and>
           xStart t' = min (xStart t0) (int (4 * (g + 1))) else t' = t0\<lparr>resultBuf := out 4\<rparr>"
        using less.hyps [of "g + 1" "t0\<lparr>resultBuf := out 4\<rparr>"] by auto
      have "row_painted m data pal w P (4 * g) (resultBuf t) (resultBuf t')"
        using painted [of 4 "resultBuf t'"] t'(2) 4 by (simp add: add.commute)
      then show ?thesis using eq t'(1,3) True assms(3) by (auto simp: t0_def min_def split: if_splits)
    qed
  qed
qed
section \<open>The whole bitmap\<close>

text \<open>The bitmap of \<open>w\<close> by \<open>h\<close> pixels, row by row.\<close>

definition bitmap_words :: "u32 list \<Rightarrow> nat \<Rightarrow> nat \<Rightarrow> (nat \<Rightarrow> nat \<Rightarrow> nat) \<Rightarrow> u32 list" where
  "bitmap_words pal w h px = map (\<lambda>y. pal ! px (y div w) (y mod w)) [0..<w * h]"

definition rows_painted :: "u32 list \<Rightarrow> nat \<Rightarrow> (nat \<Rightarrow> nat \<Rightarrow> nat) \<Rightarrow> u32 list \<Rightarrow> int \<Rightarrow> inter \<Rightarrow> bool" where
  "rows_painted pal w px out0 i t \<longleftrightarrow> length (resultBuf t) = length out0 \<and>
     (\<forall>y < length out0. int y < i * int w \<longrightarrow> resultBuf t ! y = pal ! px (y div w) (y mod w)) \<and>
     (if i = 0 then startHeight t = -1 \<and> endHeight t = 0 \<and> xStart t = int w
      else startHeight t = 0 \<and> endHeight t = i - 1 \<and> xStart t = 0)"

lemma parse_rows:
  assumes "length out0 = w * h" "0 < w" "w * h < 2 ^ 31"
  shows "yields (rows_painted pal w (\<lambda>i. seen_pixel m (row_start (int w) (int i))) out0 (int h))
    (each (\<lambda>i. inter_row m (row_start (int w) i) pal (int w) i 0 0) [0..int h - 1]
       \<lparr>xStart = int w, startHeight = -1, endHeight = 0, resultBuf = out0\<rparr>)"
proof (rule each_upto_yields)
  show "rows_painted pal w (\<lambda>i. seen_pixel m (row_start (int w) (int i))) out0 0
      \<lparr>xStart = int w, startHeight = -1, endHeight = 0, resultBuf = out0\<rparr>"
    by (simp add: rows_painted_def)
  fix i :: int and t assume i: "0 \<le> i" "i < int h"
    and t: "rows_painted pal w (\<lambda>i. seen_pixel m (row_start (int w) (int i))) out0 i t"
  obtain r where r: "i = int r" "r < h" using i by (metis nonneg_int_cases of_nat_less_iff)
  have fit: "r * w + w \<le> w * h"
    using r(2) mult_le_mono1 [of "r + 1" h w] by (simp add: mult.commute)
  then have fit': "r * w + w \<le> length (resultBuf t)" using t assms(1) by (simp add: rows_painted_def)
  have "wrap32 (i * int w) = int (r * w)"
    using fit assms(3) r(1) by (subst wrap32_id) (simp_all flip: of_nat_mult)
  from inter_row_exact [OF fit' this i(1), of m "row_start (int w) i" pal 0] assms(2)
  obtain t' where t': "inter_row m (row_start (int w) i) pal (int w) i 0 0 t = Some t'"
    "row_painted m (row_start (int w) i) pal w (r * w) 0 (resultBuf t) (resultBuf t')"
    "startHeight t' = (if startHeight t < 0 then i else startHeight t)" "endHeight t' = i" "xStart t' = min (xStart t) 0"
    by auto
  have "resultBuf t' ! y = pal ! seen_pixel m (row_start (int w) (int (y div w))) (y mod w)"
    if y: "y < length out0" "int y < (i + 1) * int w" for y
  proof (cases "y < r * w")
    case True
    then have "resultBuf t' ! y = resultBuf t ! y"
      using t'(2) t y(1) by (simp add: row_painted_def rows_painted_def)
    moreover have "int y < i * int w" using True r(1) by (simp flip: of_nat_mult)
    ultimately show ?thesis using t y(1) by (simp add: rows_painted_def)
  next
    case False
    then obtain x where x: "y = r * w + x" by (metis le_add_diff_inverse not_less)
    have "y < r * w + w" using y(2) r(1) by (simp add: algebra_simps flip: of_nat_mult of_nat_add)
    then have xw: "x < w" using x by simp
    then have "y div w = r" "y mod w = x" using x assms(2) by simp_all
    moreover have "resultBuf t' ! y = pal ! seen_pixel m (row_start (int w) i) x"
      using t'(2) t y(1) x xw by (simp add: row_painted_def rows_painted_def)
    ultimately show ?thesis using r(1) by simp
  qed
  then show "yields (rows_painted pal w (\<lambda>i. seen_pixel m (row_start (int w) (int i))) out0 (i + 1))
      (inter_row m (row_start (int w) i) pal (int w) i 0 0 t)"
    using t t' i(1) by (auto simp: rows_painted_def row_painted_def split: if_splits)
qed simp

lemma parseInterSpu_exact:
  assumes "spu_width s = int w" "spu_height s = int h" "0 < w" "0 < h" "w * h < 2 ^ 31" "length out0 = w * h"
  shows "parseInterSpu m out0 s = Some (bitmap_words (RGBA_Pal (spu_alpha s)) w h (\<lambda>i. seen_pixel m (row_start (int w) (int i))),
    s\<lparr>resize_xstart := 0, resize_ystart := 0, resize_width := int w, resize_height := int h, resize_size := int (w * h)\<rparr>)"
proof -
  obtain t where t: "each (\<lambda>i. inter_row m (row_start (int w) i) (RGBA_Pal (spu_alpha s)) (int w) i 0 0) [0..int h - 1]
       \<lparr>xStart = int w, startHeight = -1, endHeight = 0, resultBuf = out0\<rparr> = Some t"
    "rows_painted (RGBA_Pal (spu_alpha s)) w (\<lambda>i. seen_pixel m (row_start (int w) (int i))) out0 (int h) t"
    using parse_rows [OF assms(6,3,5), of "RGBA_Pal (spu_alpha s)" m] by (auto elim: yieldsE)
  have "resultBuf t = bitmap_words (RGBA_Pal (spu_alpha s)) w h (\<lambda>i. seen_pixel m (row_start (int w) (int i)))"
  proof (rule nth_equalityI)
    fix y assume "y < length (resultBuf t)"
    then have "y < w * h" using t(2) assms(6) by (simp add: rows_painted_def)
    moreover from this have "int y < int h * int w" by (simp add: mult.commute flip: of_nat_mult)
    ultimately show "resultBuf t ! y = bitmap_words (RGBA_Pal (spu_alpha s)) w h (\<lambda>i. seen_pixel m (row_start (int w) (int i))) ! y"
      using t(2) assms(6) by (simp add: rows_painted_def bitmap_words_def)
  qed (use t(2) assms(6) in \<open>simp add: rows_painted_def bitmap_words_def\<close>)
  moreover have "wrap32 (int h * int w) = int (w * h)"
    using assms(5) by (subst wrap32_id) (simp_all add: mult.commute flip: of_nat_mult)
  moreover have "startHeight t = 0" "endHeight t = int h - 1" "xStart t = 0"
    using t(2) assms(4) by (simp_all add: rows_painted_def)
  ultimately show ?thesis using t(1) assms(1,2) by (simp add: parseInterSpu_def Let_def)
qed
lemma length_colour_bytes: "length (concat (map colour_bytes ws)) = 4 * length ws"
  by (induction ws) (simp_all add: colour_bytes_def)

lemma put_all: "length bs = length buf \<Longrightarrow> put_bytes 0 bs buf = Some bs"
  by (simp add: put_bytes_def)

lemma fillResize_exact:
  assumes "spu_width s = int w" "spu_height s = int h" "0 < w" "0 < h" "w < 65536" "h < 65536" "N < 2 ^ 29" "N = w * h"
    "malloc_ok E (ResizeBuffer (int N))" "malloc_ok E (SpuData (int N * 4))" "spu_data s = Some d"
  shows "fillResize E s = Some (s\<lparr>resize_xstart := 0, resize_ystart := 0, resize_width := int w, resize_height := int h,
    resize_size := int N, buffer_size := 4 * int N,
    spu_data := Some (concat (map colour_bytes (bitmap_words (RGBA_Pal (spu_alpha s)) w h
      (\<lambda>i. seen_pixel (packet_mem E d) (row_start (int w) (int i))))))\<rparr>)"
proof -
  let ?out = "bitmap_words (RGBA_Pal (spu_alpha s)) w h (\<lambda>i. seen_pixel (packet_mem E d) (row_start (int w) (int i)))"
  let ?s = "s\<lparr>resize_xstart := 0, resize_ystart := 0, resize_width := int w, resize_height := int h, resize_size := int N\<rparr>"
  have size: "getInterSpuSize s = int N" using assms(1-4,8) by (simp add: getInterSpuSize_def)
  have parse: "parseInterSpu (packet_mem E d) (replicate N 0) s = Some (?out, ?s)"
    unfolding assms(8) using assms by (intro parseInterSpu_exact) simp_all
  let ?s2 = "?s\<lparr>spu_width := u16_of (int w), spu_height := u16_of (int h), buffer_size := u32_of (int N * 4)\<rparr>"
  have len: "length (concat (map colour_bytes ?out)) = 4 * N"
    unfolding length_colour_bytes by (simp add: bitmap_words_def assms(8))
  have "getInterSpuSize ?s2 = int N" using assms(3-6,8) by (simp add: getInterSpuSize_def)
  then have "fillResizedData (map (stray E) [0..<nat (int N * 4)]) (concat (map colour_bytes ?out)) ?s2
      = Some (concat (map colour_bytes ?out))"
    using len by (simp add: fillResizedData_def Let_def put_all nat_mult_distrib)
  moreover have "?s2 = ?s\<lparr>buffer_size := 4 * int N\<rparr>"
  proof -
    have "u32_of (int N * 4) = 4 * int N" using assms(7) by simp
    then show ?thesis using assms(1,2,5,6) by (intro AML_SPUVAR.equality) simp_all
  qed
  moreover have "0 < int N" using assms(3,4,8) by simp
  ultimately show ?thesis
    using parse assms(9-11) unfolding fillResize_def Let_def size by simp
qed

lemma row_start_eq: "row_start (int w) (int i)
    = (if odd i then nat (VOB_SUB_SIZE div 2) else 0) + 2 * (i div 2 * (row_span w div 8))"
proof -
  have "(int w * 2 + 15) div 16 = (int w + 7) div 8"
  proof -
    have "int w * 2 + 15 = 2 * (int w + 7) + 1" by simp
    then have "(int w * 2 + 15) div 16 = (2 * (int w + 7) + 1) div 2 div 8" by (simp only: zdiv_zmult2_eq [of 8 _ 2, simplified, symmetric])
    then show ?thesis by simp
  qed
  then have "push_bit 1 (drop_bit 4 (int w * 2 + 15)) = int (2 * (row_span w div 8))"
    by (simp add: drop_bit_eq_div push_bit_eq_mult row_span_def zdiv_int)
  moreover have "int i AND 1 \<noteq> 0 \<longleftrightarrow> odd i" by (simp add: and_one_eq mod2_eq_if)
  moreover have "drop_bit 1 (int i) = int (i div 2)" by (simp add: drop_bit_eq_div zdiv_int)
  ultimately show ?thesis
    by (simp add: row_start_def Let_def nat_add_distrib vob_limits flip: of_nat_mult)
qed
section \<open>Encoded fields\<close>

text \<open>The rows of one field, encoded from \<open>p\<close> on.\<close>

definition field_here :: "mem \<Rightarrow> nat \<Rightarrow> nat \<Rightarrow> nat \<Rightarrow> (nat \<times> nat) list list \<Rightarrow> bool" where
  "field_here m p w k rows \<longleftrightarrow> length rows = k \<and> (\<forall>rs \<in> set rows. row_ok w rs) \<and>
     nibbles_here m p 0 (concat (map encode_row rows))"

lemma spuFillPixel_exact:
  assumes "field_here m p w k rows" "spu_width s = int w" "spu_height s = int (2 * k)" "0 < w" "w \<le> 1920" "k \<le> 640"
    "pixel_data (spu_alpha s) = Some table" "table_ok table"
  shows "\<exists>out. spuFillPixel m p n s = Some (out, if n = 2 then s\<lparr>spu_alpha := swapped_alpha (spu_alpha s)\<rparr> else s) \<and>
    length out = field_words \<and>
    (\<forall>r < k. \<forall>x < w. pixel out (r * row_span w + x) = table ! (row_pixels w (rows ! r) ! x))"
proof -
  have rows: "length rows = k" "\<forall>rs \<in> set rows. row_ok w rs" "nibbles_here m p 0 (concat (map encode_row rows))"
    using assms(1) by (simp_all add: field_here_def)
  have "row_span w \<le> 1920" using assms(5) by (auto simp: row_span_def)
  then have fit: "k * row_span w \<le> 8 * field_words"
    using mult_le_mono [OF assms(6)] by (fastforce simp: field_words_eq)
  from fill_rows_exact [OF rows(2) assms(4) _ assms(8) rows(3), of "new_field p" field_words 0] obtain st
    where st: "fill_rows m table w k (seek p 0 (new_field p)) = Some st"
      "rows_at table w rows field_words 0 (pixelOut (new_field p)) (pixelOut st)"
    using assms(5) new_field_state [of p] fit rows(1) by auto
  have zero: "pixel (pixelOut (new_field p)) (r * row_span w + x) = 0" if "r < k" "x < w" for r x
  proof -
    have "r * row_span w + x < (r + 1) * row_span w" using that(2) row_span(2) [of w] by simp
    also have "\<dots> \<le> k * row_span w" using that(1) by (intro mult_le_mono1) simp
    finally have "(r * row_span w + x) div 8 < field_words" using fit by simp
    then show ?thesis by (simp add: pixel_def new_field_def)
  qed
  have "spuFillPixel m p n s = Some (pixelOut st, if n = 2 then s\<lparr>spu_alpha := swapped_alpha (spu_alpha s)\<rparr> else s)"
  proof -
    have "nat (spu_height s) div 2 = k" unfolding assms(3) by (simp only: nat_int)
    then show ?thesis using st(1) assms(2,7) unfolding new_field_state(1) [of p, symmetric] by (simp add: spuFillPixel_def)
  qed
  then show ?thesis using st(2) zero rows(1) by (simp add: rows_at_def)
qed

text \<open>What the viewer sees in row \<open>i\<close> and column \<open>x\<close>: the fields interleaved, the values exchanged.\<close>

definition shown_pixel :: "nat list \<Rightarrow> nat \<Rightarrow> (nat \<times> nat) list list \<Rightarrow> (nat \<times> nat) list list \<Rightarrow> nat \<Rightarrow> nat \<Rightarrow> nat" where
  "shown_pixel table w odds evens i x = table ! (row_pixels w ((if even i then odds else evens) ! (i div 2)) ! x)"

lemma bitmap_words_cong:
  "0 < w \<Longrightarrow> (\<And>i x. i < h \<Longrightarrow> x < w \<Longrightarrow> px i x = px' i x) \<Longrightarrow> bitmap_words pal w h px = bitmap_words pal w h px'"
  by (auto simp: bitmap_words_def less_mult_imp_div_less mult.commute)

lemma fields_seen:
  assumes "length odds = field_words" "length evens = field_words" "w \<le> 1920" "i < 2 * k" "k \<le> 640" "x < w"
  shows "seen_pixel (packet_mem E (word_bytes odds @ word_bytes evens)) (row_start (int w) (int i)) x
    = pixel (if even i then odds else evens) (i div 2 * row_span w + x)"
proof -
  let ?m = "packet_mem E (word_bytes odds @ word_bytes evens)"
  have base: "nat (VOB_SUB_SIZE div 2) = 2 * field_words" by (simp add: field_words_eq vob_limits)
  have q: "8 * (i div 2 * (row_span w div 8)) = i div 2 * row_span w" using row_span(1) [of w] by auto
  have "row_span w \<le> 1920" using assms(3) by (auto simp: row_span_def)
  have "i div 2 * row_span w + x < (i div 2 + 1) * row_span w" using assms(6) row_span(2) [of w] by simp
  also have "\<dots> \<le> 640 * 1920" using assms(4,5) \<open>row_span w \<le> 1920\<close> by (intro mult_le_mono) auto
  finally have fit: "8 * (i div 2 * (row_span w div 8)) + x < 8 * field_words" unfolding q by (simp add: field_words_eq)
  show ?thesis
  proof (cases "even i")
    case True
    have "\<forall>j < 2 * length odds. ?m (0 + j) = word_bytes odds ! j"
      using assms(1) by (simp add: packet_mem_def nth_append)
    from seen_field_pixel [OF this] fit assms(1) True show ?thesis by (simp add: row_start_eq q)
  next
    case False
    have "\<forall>j < 2 * length evens. ?m (2 * field_words + j) = word_bytes evens ! j"
      using assms(1,2) by (simp add: packet_mem_def nth_append)
    from seen_field_pixel [OF this] fit assms(2) False show ?thesis by (simp add: row_start_eq q base)
  qed
qed
section \<open>Decoding and showing\<close>

text \<open>What the presentation reads of a unit beside its times and its picture.\<close>

definition shown_as :: "AML_SPUVAR \<Rightarrow> bool \<times> bool \<times> bool \<times> int" where
  "shown_as s = (isExtSub s, isImmediatePresent s, isKeepShowing s, objectSegmentId s)"

lemma decode_and_resize:
  assumes "field_here (packet_mem E data) (nat (top_pxd_addr s)) w k odds"
    "field_here (packet_mem E data) (nat (bottom_pxd_addr s)) w k evens"
    "spu_width s = int w" "spu_height s = int (2 * k)" "0 < w" "w \<le> 1920" "0 < k" "k \<le> 640"
    "pixel_data (spu_alpha s) = Some table" "table_ok table" "\<forall>r. malloc_ok E r"
  shows "yields (\<lambda>(ok, s1). ok \<and> yields (\<lambda>s2.
      spu_data s2 = Some (concat (map colour_bytes
        (bitmap_words (RGBA_Pal (swapped_alpha (spu_alpha s))) w (2 * k) (shown_pixel table w odds evens)))) \<and>
      buffer_size s2 = 8 * int (w * k) \<and> spu_width s2 = int w \<and> spu_height s2 = int (2 * k) \<and>
      spu_start_x s2 = spu_start_x s \<and> spu_start_y s2 = spu_start_y s \<and> pts s2 = pts s \<and> m_delay s2 = m_delay s \<and>
      subtitle_type s2 = subtitle_type s \<and> spu_origin_display_w s2 = spu_origin_display_w s \<and>
      spu_origin_display_h s2 = spu_origin_display_h s \<and> shown_as s2 = shown_as s) (fillResize E s1))
    (decode_fields E data s)"
proof -
  obtain out1 where out1: "spuFillPixel (packet_mem E data) (nat (top_pxd_addr s)) 1 s = Some (out1, s)"
    "length out1 = field_words" "\<forall>r < k. \<forall>x < w. pixel out1 (r * row_span w + x) = table ! (row_pixels w (odds ! r) ! x)"
    using spuFillPixel_exact [OF assms(1,3-6,8-10), of 1] by auto
  let ?s = "s\<lparr>spu_alpha := swapped_alpha (spu_alpha s)\<rparr>"
  obtain out2 where out2: "spuFillPixel (packet_mem E data) (nat (bottom_pxd_addr s)) 2 s = Some (out2, ?s)"
    "length out2 = field_words" "\<forall>r < k. \<forall>x < w. pixel out2 (r * row_span w + x) = table ! (row_pixels w (evens ! r) ! x)"
    using spuFillPixel_exact [OF assms(2-6,8-10), of 2] by auto
  let ?d = "word_bytes out1 @ word_bytes out2"
  let ?s1 = "?s\<lparr>spu_data := Some ?d\<rparr>"
  have dec: "decode_fields E data s = Some (True, ?s1)"
    using out1(1) out2(1) assms(11) by (simp add: decode_fields_def)
  let ?px = "\<lambda>i. seen_pixel (packet_mem E ?d) (row_start (int w) (int i))"
  have fit: "w * (2 * k) < 2 ^ 29"
    using mult_le_mono [of w 1920 "2 * k" 1280] assms(6,8) by simp
  have "fillResize E ?s1 = Some (?s1\<lparr>resize_xstart := 0, resize_ystart := 0, resize_width := int w, resize_height := int (2 * k),
    resize_size := int (w * (2 * k)), buffer_size := 4 * int (w * (2 * k)),
    spu_data := Some (concat (map colour_bytes (bitmap_words (RGBA_Pal (spu_alpha ?s1)) w (2 * k) ?px)))\<rparr>)"
    by (rule fillResize_exact [OF _ _ _ _ _ _ fit]) (use assms in simp_all)
  moreover have "bitmap_words pal w (2 * k) ?px = bitmap_words pal w (2 * k) (shown_pixel table w odds evens)" for pal
  proof (rule bitmap_words_cong [OF assms(5)])
    fix i x assume ix: "i < 2 * k" "x < w"
    have "seen_pixel (packet_mem E ?d) (row_start (int w) (int i)) x
        = pixel (if even i then out1 else out2) (i div 2 * row_span w + x)"
      by (rule fields_seen [OF out1(2) out2(2) assms(6) ix(1) assms(8) ix(2)])
    moreover have "i div 2 < k" using ix(1) by (simp add: less_mult_imp_div_less mult.commute)
    ultimately show "?px i x = shown_pixel table w odds evens i x"
      using out1(3) out2(3) ix(2) by (simp add: shown_pixel_def)
  qed
  ultimately show ?thesis using assms(3,4) unfolding dec by (simp add: shown_as_def)
qed

end
