(* ===== verification/Dvd_Unit.thy ===== *)
theory Dvd_Unit
  imports Dvd_Image
begin

text \<open>
  A whole DVD subtitle: a packet whose pixel data encodes given rows and whose control
  sequences encode given commands, taken from a data source, decoded and queued.
\<close>

section \<open>Packets\<close>

text \<open>The rows of a field, encoded at byte \<open>p\<close> and inside the packet.\<close>

definition field_in :: "u8 list \<Rightarrow> nat \<Rightarrow> nat \<Rightarrow> nat \<Rightarrow> (nat \<times> nat) list list \<Rightarrow> bool" where
  "field_in pkt p w k rows \<longleftrightarrow> field_here (mem_of pkt) p w k rows \<and>
     2 * p + length (concat (map encode_row rows)) \<le> 2 * length pkt"

text \<open>
  The packet: its length, the offset of its commands, the commands, and the later sequences up
  to its end.
\<close>

definition packet_layout :: "u8 list \<Rightarrow> int \<Rightarrow> command list \<Rightarrow> sequence list \<Rightarrow> bool" where
  "packet_layout pkt offset cs qs \<longleftrightarrow>
     (let body = concat (map encode_command cs) @ [0xff] @ concat (map encode_sequence qs) in
      10 < length pkt \<and> length pkt < 65536 \<and> 0 \<le> offset \<and>
      take 4 pkt = [word_of_int (int (length pkt) div 256), word_of_int (int (length pkt) mod 256),
        word_of_int (offset div 256), word_of_int (offset mod 256)] \<and>
      take 5 pkt \<noteq> [0x45, 0x58, 0x54, 0x52, 0x41] \<and>
      drop (nat offset + 4) pkt = body \<and> (\<forall>c \<in> set cs. command_ok c) \<and> (\<forall>q \<in> set qs. sequence_ok q) \<and>
      (qs \<noteq> [] \<longrightarrow> 6 \<le> length (concat (map encode_sequence qs))) \<and>
      (tl qs \<noteq> [] \<longrightarrow> 6 < length (encode_sequence (last qs))))"

definition zero_data :: "u8 list" where
  "zero_data = replicate (nat VOB_SUB_SIZE) 0"

text \<open>The packet in the buffer, with zeros behind it.\<close>

definition in_buffer :: "u8 list \<Rightarrow> u8 list" where
  "in_buffer pkt = pkt @ drop (length pkt) zero_data"

lemma packet_mem_in_buffer: "i < length pkt \<Longrightarrow> packet_mem E (in_buffer pkt) i = pkt ! i"
  by (simp add: packet_mem_def in_buffer_def nth_append)

lemma bytes_here_in_buffer:
  assumes "drop p pkt = xs"
  shows "bytes_here (packet_mem E (in_buffer pkt)) p xs"
  unfolding bytes_here_def
proof (intro allI impI)
  fix i assume "i < length xs"
  then have "p + i < length pkt" "xs ! i = pkt ! (p + i)" using assms by auto
  then show "packet_mem E (in_buffer pkt) (p + i) = xs ! i" by (simp add: packet_mem_in_buffer)
qed

lemma field_in_buffer:
  assumes "field_in pkt p w k rows"
  shows "field_here (packet_mem E (in_buffer pkt)) p w k rows"
proof -
  have "nibble (packet_mem E (in_buffer pkt)) p i = nibble (mem_of pkt) p i"
    if "i < length (concat (map encode_row rows))" for i
  proof -
    obtain h where h: "i div 2 = h" "2 * h \<le> i" by simp
    have "2 * p + length (concat (map encode_row rows)) \<le> 2 * length pkt" using assms by (simp only: field_in_def)
    then have "2 * (p + i div 2) < 2 * length pkt" using that h(2) unfolding h(1) by simp
    then have "p + i div 2 < length pkt" by simp
    then show ?thesis by (simp add: nibble_def byte_at_def packet_mem_in_buffer mem_of_def)
  qed
  then show ?thesis using assms by (simp add: field_in_def field_here_def nibbles_here_def)
qed

section \<open>Assembly of a packet in one part\<close>

lemma vob_parts_one:
  assumes "bytes_here m p pkt" "0 < length pkt" "length pkt < 65536"
  shows "vob_parts E m p (int (length pkt)) 0 0 (int (length pkt)) zero_data = Some (length pkt, Complete, in_buffer pkt)"
proof -
  have "length zero_data = 614400" by (simp add: zero_data_def vob_limits)
  then have "put_bytes 0 pkt zero_data = Some (in_buffer pkt)"
    using assms(3) by (simp add: put_bytes_def in_buffer_def)
  then show ?thesis
    using assms bytes_from_here [OF assms(1)] by (subst vob_parts.simps) (simp add: vob_limits)
qed
section \<open>Commands of a packet\<close>

definition set_delay :: "sequence list \<Rightarrow> AML_SPUVAR \<Rightarrow> AML_SPUVAR" where
  "set_delay qs s =
     (if qs = [] then s
      else s\<lparr>m_delay := (if chain_delay qs > 0 then chain_delay qs * 1024 + pts s else chain_delay qs)\<rparr>)"

lemma packet_commands:
  assumes "packet_layout pkt offset cs qs" "cmd_offset s = offset" "spu_length s = int (length pkt)"
  shows "getSpuCmd (packet_mem E (in_buffer pkt)) s = Some (0, set_delay qs (fold apply_command cs s))"
proof -
  let ?m = "packet_mem E (in_buffer pkt)"
  let ?n = "length (concat (map encode_command cs))" and ?q = "length (concat (map encode_sequence qs))"
  have lay: "0 \<le> offset" "drop (nat offset + 4) pkt = concat (map encode_command cs) @ [0xff] @ concat (map encode_sequence qs)"
    "\<forall>c \<in> set cs. command_ok c" "\<forall>q \<in> set qs. sequence_ok q" "tl qs \<noteq> [] \<longrightarrow> 6 < length (encode_sequence (last qs))"
    "qs \<noteq> [] \<longrightarrow> 6 \<le> length (concat (map encode_sequence qs))"
    using assms(1) by (simp_all add: packet_layout_def Let_def)
  have "bytes_here ?m (nat offset + 4) ((concat (map encode_command cs) @ [0xff]) @ concat (map encode_sequence qs))"
    using bytes_here_in_buffer [OF lay(2), of E] by simp
  then have "bytes_here ?m (nat offset + 4) (concat (map encode_command cs) @ [0xff]) \<and>
      bytes_here ?m (nat offset + 4 + length (concat (map encode_command cs) @ [0xff])) (concat (map encode_sequence qs))"
    by (simp only: bytes_here_append [of _ _ "concat (map encode_command cs) @ [0xff]"])
  then have here: "bytes_here ?m (nat offset + 4) (concat (map encode_command cs) @ [0xff])"
    "bytes_here ?m (nat offset + 4 + (?n + 1)) (concat (map encode_sequence qs))"
    by simp_all
  have "length (drop (nat offset + 4) pkt) = ?n + 1 + ?q" unfolding lay(2) by simp
  then have len: "length pkt = nat offset + 4 + (?n + 1 + ?q)" by simp
  define u where "u = fold apply_command cs s"
  have "getSpuCmd ?m s = do {
      s' \<leftarrow> end_commands ?m (nat (spu_length s)) (nat (cmd_offset s) + 5 + ?n) u;
      Some (0, s') }"
    unfolding u_def
  proof (rule getSpuCmd_commands)
    show "cmd_offset s + 4 + int ?n < spu_length s" unfolding assms(2,3) len using lay(1) by simp
  qed (use here(1) lay(1,3) assms(2) in simp_all)
  moreover have "end_commands ?m (nat (spu_length s)) (nat (cmd_offset s) + 5 + ?n) u = Some (set_delay qs u)"
  proof (cases "qs = []")
    case True
    then show ?thesis using assms(2,3) len by (simp add: end_commands_def set_delay_def)
  next
    case False
    have e: "nat offset + 4 + (?n + 1) = nat offset + 5 + ?n" by simp
    have split: "?q = length (concat (map encode_sequence (butlast qs))) + length (encode_sequence (last qs))"
    proof -
      obtain ys y where "qs = ys @ [y]" using False by (metis rev_exhaust)
      then show ?thesis by simp
    qed
    have "doDCSQC ?m (length pkt - 6) (nat offset + 5 + ?n) = Some (chain_delay qs)"
      using here(2) False lay(4,5) len split unfolding e by (intro doDCSQC_chain) auto
    moreover have "int (nat offset + 5 + ?n) \<le> int (length pkt) - 6" using False lay(6) unfolding len by simp
    ultimately show ?thesis unfolding end_commands_def set_delay_def assms(2,3) nat_int using False by simp
  qed
  ultimately show ?thesis unfolding u_def by simp
qed
lemma header_word:
  assumes "0 \<le> v" "v < 65536"
  shows "u16_of (u16_of (push_bit 8 (uint (word_of_int (v div 256) :: u8))) OR uint (word_of_int (v mod 256) :: u8)) = v"
proof -
  have d: "0 \<le> v div 256" "v div 256 < 256" using assms by simp_all
  then have hi: "u16_of (push_bit 8 (uint (word_of_int (v div 256) :: u8))) = push_bit 8 (v div 256)"
    unfolding byte_of_range [OF d] by (simp add: push_bit_eq_mult)
  have "push_bit 8 (v div 256) OR v mod 256 = v" using or_low [of "v mod 256" 8 "v div 256"] by simp
  then show ?thesis unfolding hi mod_byte using assms by simp
qed

lemma getVobSpu_packet:
  assumes "bytes_here m p pkt" "packet_layout pkt offset cs qs" "cval E = uint"
    "u = set_delay qs (fold apply_command cs
       (s\<lparr>spu_length := int (length pkt), cmd_offset := offset, spu_data := Some (in_buffer pkt)\<rparr>))"
  shows "getVobSpu E m p bufsize (int (length pkt)) dp s = do {
    (ok, s') \<leftarrow> decode_fields E (in_buffer pkt) (u\<lparr>frame_rdy := 1\<rparr>);
    Some (if ok then int (length pkt) else 0, wrap32 (bufsize - int (length pkt)), dp, s') }"
proof -
  have lay: "10 < length pkt" "length pkt < 65536" "0 \<le> offset"
    "take 4 pkt = [word_of_int (int (length pkt) div 256), word_of_int (int (length pkt) mod 256),
       word_of_int (offset div 256), word_of_int (offset mod 256)]"
    "take 5 pkt \<noteq> [0x45, 0x58, 0x54, 0x52, 0x41]" "drop (nat offset + 4) pkt \<noteq> []"
    using assms(2) by (simp_all add: packet_layout_def Let_def)
  have m: "m (p + i) = pkt ! i" if "i < length pkt" for i using assms(1) that by (simp add: bytes_here_def)
  have nth: "pkt ! i = take 4 pkt ! i" if "i < 4" for i using that by simp
  have m': "m p = pkt ! 0" using m [of 0] lay(1) by (simp, cases pkt) simp_all
  have bytes: "m p = word_of_int (int (length pkt) div 256)" "m (p + 1) = word_of_int (int (length pkt) mod 256)"
    "m (p + 2) = word_of_int (offset div 256)" "m (p + 3) = word_of_int (offset mod 256)"
    using m' m [of 1] m [of 2] m [of 3] nth [of 0] nth [of 1] nth [of 2] nth [of 3] lay(1) unfolding lay(4)
    by simp_all
  have extra: "\<not> is_extra m p"
  proof -
    have "bytes_from m p 5 = take 5 pkt"
      using m lay(1) by (intro nth_equalityI) (simp_all add: bytes_from_def)
    then show ?thesis using lay(5) by (simp add: is_extra_def)
  qed
  have "offset < 65536" using lay(2,3,6) by simp
  then have words: "u16_of (u16_of (push_bit 8 (cval E (m p))) OR cval E (m (p + 1))) = int (length pkt)"
    "u16_of (u16_of (push_bit 8 (cval E (m (p + 2)))) OR cval E (m (p + 3))) = offset"
    unfolding bytes assms(3) using lay(2,3) by (intro header_word; simp)+
  have parts: "vob_parts E m p (int (length pkt)) 0 0 (int (length pkt)) (replicate (nat VOB_SUB_SIZE) 0)
      = Some (length pkt, Complete, in_buffer pkt)"
    using vob_parts_one [OF assms(1), of E] lay(1,2) by (cases pkt) (simp_all add: zero_data_def)
  let ?s = "s\<lparr>spu_length := int (length pkt), cmd_offset := offset, spu_data := Some (in_buffer pkt)\<rparr>"
  have cmds: "getSpuCmd (packet_mem E (in_buffer pkt)) ?s = Some (0, u)"
    unfolding assms(4) by (rule packet_commands [OF assms(2)]) simp_all
  show ?thesis
    unfolding getVobSpu_def Let_def words using cmds parts by (simp add: extra zero_data_def)
qed
section \<open>A unit of the player\<close>

fun to_be :: "nat \<Rightarrow> int \<Rightarrow> u8 list" where
  "to_be 0 v = []"
| "to_be (Suc n) v = to_be n (v div 256) @ [word_of_int v]"

lemma length_to_be [simp]: "length (to_be n v) = n"
  by (induction n arbitrary: v) auto

lemma be_value_snoc: "be_value (bs @ [b]) = be_value bs * 256 + uint b"
  by (simp add: be_value_def)

lemma be_value_to_be: "be_value (to_be n v) = v mod 256 ^ n"
proof (induction n arbitrary: v)
  case 0
  then show ?case by (simp add: be_value_def)
next
  case (Suc n)
  have "v mod 256 ^ Suc n = 256 * (v div 256 mod 256 ^ n) + v mod 256"
    using zmod_zmult2_eq [of "256 ^ n" v 256] by simp
  then show ?case using Suc.IH [of "v div 256"] by (simp add: be_value_snoc uint_word_of_int)
qed

lemma peek32_to_be:
  assumes "bytes_from m p 4 = to_be 4 v" "cval E = uint"
  shows "peek32 E m p = wrap32 v"
proof -
  have "peek32 E m p = signed_take_bit 31 (v mod 2 ^ 32)"
    using assms peek_signed_eq [of 32 "to_be 4 v"]
    by (simp add: peek32_def subPeekAsInt32_def be_value_to_be flip: bytes_from_def)
  also have "\<dots> = wrap32 v" unfolding wrap32_def by (simp add: signed_take_bit_eq_iff_take_bit_eq take_bit_eq_mod)
  finally show ?thesis .
qed

lemma peek64_to_be:
  assumes "bytes_from m p 8 = to_be 8 v" "cval E = uint"
  shows "peek64 E m p = signed_take_bit 63 v"
proof -
  have "peek64 E m p = signed_take_bit 63 (v mod 2 ^ 64)"
    using assms peek_signed_eq [of 64 "to_be 8 v"]
    by (simp add: peek64_def subPeekAsInt64_def be_value_to_be flip: bytes_from_def)
  also have "\<dots> = signed_take_bit 63 v" by (simp add: signed_take_bit_eq_iff_take_bit_eq take_bit_eq_mod)
  finally show ?thesis .
qed

text \<open>The header that the player puts before a packet: sync word, type, length, time stamp.\<close>

definition unit_header :: "int \<Rightarrow> int \<Rightarrow> u8 list" where
  "unit_header len stamp = to_be 4 AML_PARSER_SYNC_WORD @ to_be 4 0xaa017000 @ to_be 4 len @ to_be 8 stamp"

lemma length_unit_header [simp]: "length (unit_header len stamp) = 20"
  by (simp add: unit_header_def)

lemma unit_header_fields:
  assumes "\<And>i. i < length xs \<Longrightarrow> m i = xs ! i" "xs = unit_header len stamp @ rest" "cval E = uint"
    "0 \<le> len" "len < 65536" "0 \<le> stamp" "stamp < 2 ^ 63"
  shows "peek32 E m 0 = AML_PARSER_SYNC_WORD" "peek32 E m 4 AND 0x00FFFFFF = 0x17000" "peek32 E m 8 = len"
    "peek64 E m 12 = stamp"
proof -
  have hdr: "bytes_from m p n = take n (drop p xs)" if "p + n \<le> 20" for p n
    using that by (intro bytes_from_take assms(1)) (simp_all add: assms(2))
  have sync: "wrap32 AML_PARSER_SYNC_WORD = AML_PARSER_SYNC_WORD" by (simp add: AML_PARSER_SYNC_WORD_def)
  show "peek32 E m 0 = AML_PARSER_SYNC_WORD"
    by (subst peek32_to_be [OF _ assms(3), of _ _ AML_PARSER_SYNC_WORD])
      (simp_all add: hdr assms(2) unit_header_def sync)
  have "peek32 E m 4 = wrap32 0xaa017000"
    by (rule peek32_to_be [OF _ assms(3)]) (simp add: hdr assms(2) unit_header_def)
  then show "peek32 E m 4 AND 0x00FFFFFF = 0x17000" by (simp add: wrap32_def signed_take_bit_eq_take_bit_shift take_bit_eq_mod)
  have "peek32 E m 8 = wrap32 len"
    by (rule peek32_to_be [OF _ assms(3)]) (simp add: hdr assms(2) unit_header_def)
  then show "peek32 E m 8 = len" using assms(4,5) by simp
  have "peek64 E m 12 = signed_take_bit 63 stamp"
    by (rule peek64_to_be [OF _ assms(3)]) (simp add: hdr assms(2) unit_header_def)
  then show "peek64 E m 12 = stamp" using assms(6,7) by (simp add: signed_take_bit_int_eq_self)
qed
section \<open>From the data source to the queue\<close>

text \<open>The unit as the commands of its packet find it.\<close>

definition unit_before :: "int \<Rightarrow> int \<Rightarrow> u8 list \<Rightarrow> AML_SPUVAR" where
  "unit_before stamp offset pkt = new_spu\<lparr>sync_bytes := AML_PARSER_SYNC_WORD, subtitle_type := TYPE_SUBTITLE_VOB,
     buffer_size := VOB_SUB_SIZE, pts := stamp, spu_length := int (length pkt), cmd_offset := offset,
     spu_data := Some (in_buffer pkt)\<rparr>"

text \<open>The unit shows rows of \<open>w\<close> pixels, \<open>k\<close> in each field, at the place and time its commands name.\<close>

definition shows_image :: "AML_SPUVAR \<Rightarrow> AML_SPUVAR \<Rightarrow> nat \<Rightarrow> nat \<Rightarrow> nat list \<Rightarrow> (nat \<times> nat) list list \<Rightarrow> (nat \<times> nat) list list \<Rightarrow> bool" where
  "shows_image item u w k table odds evens \<longleftrightarrow>
     spu_data item = Some (concat (map colour_bytes
       (bitmap_words (RGBA_Pal (swapped_alpha (spu_alpha u))) w (2 * k) (shown_pixel table w odds evens)))) \<and>
     buffer_size item = 8 * int (w * k) \<and> spu_width item = int w \<and> spu_height item = int (2 * k) \<and>
     spu_start_x item = spu_start_x u \<and> spu_start_y item = spu_start_y u \<and> pts item = pts u \<and>
     m_delay item = m_delay u \<and> subtitle_type item = subtitle_type u \<and> shown_as item = shown_as u"

lemma shows_image_display_size:
  "shows_image (display_size video s) u w k table odds evens = shows_image s u w k table odds evens"
  by (simp add: shows_image_def display_size_def shown_as_def Let_def)

lemma spu_loop_ends [simp]: "spu_loop E rd video buf 0 off type ret posts s dp src = Some (ret, post_times posts s dp, src)"
  by (subst spu_loop.simps) simp

lemma internal_unit_packet:
  assumes "bytes_here m (piece + 20) pkt" "packet_layout pkt offset cs qs" "cval E = uint" "\<forall>r. malloc_ok E r"
    "mRestLen dp = int (length pkt)" "len = int (length pkt)" "s = new_spu\<lparr>sync_bytes := AML_PARSER_SYNC_WORD\<rparr>"
    "u = set_delay qs (fold apply_command cs (unit_before stamp offset pkt))"
    "field_in pkt (nat (top_pxd_addr u)) w k odds" "field_in pkt (nat (bottom_pxd_addr u)) w k evens"
    "spu_width u = int w" "spu_height u = int (2 * k)" "0 < w" "w \<le> 1920" "0 < k" "k \<le> 640"
    "pixel_data (spu_alpha u) = Some table" "table_ok table"
  shows "yields (\<lambda>(ret, sizeflag, dp', s1). ret = len \<and> sizeflag = 0 \<and> dp' = dp\<lparr>mRestLen := 0\<rparr> \<and>
      yields (\<lambda>s2. shows_image s2 u w k table odds evens) (fillResize E s1))
    (internal_unit E m piece 0x17000 len stamp dp s)"
proof -
  let ?s = "s\<lparr>subtitle_type := TYPE_SUBTITLE_VOB, buffer_size := VOB_SUB_SIZE, pts := stamp\<rparr>"
  have u: "u = set_delay qs (fold apply_command cs
      (?s\<lparr>spu_length := int (length pkt), cmd_offset := offset, spu_data := Some (in_buffer pkt)\<rparr>))"
    using assms(8) unfolding unit_before_def assms(7) by simp
  have get: "getVobSpu E m (piece + 20) (int (length pkt)) (int (length pkt)) dp ?s = do {
      (ok, s') \<leftarrow> decode_fields E (in_buffer pkt) (u\<lparr>frame_rdy := 1\<rparr>);
      Some (if ok then int (length pkt) else 0, wrap32 (int (length pkt) - int (length pkt)), dp, s') }"
    by (rule getVobSpu_packet [OF assms(1-3) u])
  let ?u = "u\<lparr>frame_rdy := 1\<rparr>"
  have "yields (\<lambda>(ok, s1). ok \<and> yields (\<lambda>s2.
      spu_data s2 = Some (concat (map colour_bytes
        (bitmap_words (RGBA_Pal (swapped_alpha (spu_alpha ?u))) w (2 * k) (shown_pixel table w odds evens)))) \<and>
      buffer_size s2 = 8 * int (w * k) \<and> spu_width s2 = int w \<and> spu_height s2 = int (2 * k) \<and>
      spu_start_x s2 = spu_start_x ?u \<and> spu_start_y s2 = spu_start_y ?u \<and> pts s2 = pts ?u \<and> m_delay s2 = m_delay ?u \<and>
      subtitle_type s2 = subtitle_type ?u \<and> spu_origin_display_w s2 = spu_origin_display_w ?u \<and>
      spu_origin_display_h s2 = spu_origin_display_h ?u \<and> shown_as s2 = shown_as ?u) (fillResize E s1))
    (decode_fields E (in_buffer pkt) ?u)"
    by (rule decode_and_resize) (use assms field_in_buffer in simp_all)
  then have dec: "yields (\<lambda>(ok, s1). ok \<and> yields (\<lambda>s2. shows_image s2 u w k table odds evens) (fillResize E s1))
      (decode_fields E (in_buffer pkt) ?u)"
    by (rule yields_mono) (auto simp: shows_image_def shown_as_def elim!: yields_mono)
  from dec obtain s1 where s1: "decode_fields E (in_buffer pkt) ?u = Some (True, s1)"
    "yields (\<lambda>s2. shows_image s2 u w k table odds evens) (fillResize E s1)"
    by (auto elim: yieldsE)
  have "getVobSpu E m (piece + 20) (mRestLen dp) len dp ?s = Some (len, 0, dp, s1)"
    using get s1(1) assms(5,6) by simp
  then have "internal_unit E m piece 0x17000 len stamp dp s = Some (len, 0, dp\<lparr>mRestLen := 0\<rparr>, s1)"
    using assms(4) by (simp add: internal_unit_def keep_rest_def)
  then show ?thesis using s1(2) by simp
qed

lemma spu_data_shown: "shows_image s u w k table odds evens \<Longrightarrow> 0 < w \<Longrightarrow> 0 < k \<Longrightarrow> spu_data s \<noteq> None \<and> buffer_size s > 0"
  by (simp add: shows_image_def)

context byte_source begin

lemma getInterSpu_unit:
  assumes "live src" "pending src = unit_header len stamp @ pkt @ rest" "len = int (length pkt)" "available src = 20 + len"
    "mRestLen dp = 0" "mState dp \<noteq> SUB_STOP" "0 \<le> stamp" "stamp < 2 ^ 63"
    "packet_layout pkt offset cs qs" "cval E = uint" "\<forall>r. malloc_ok E r"
    "u = set_delay qs (fold apply_command cs (unit_before stamp offset pkt))"
    "field_in pkt (nat (top_pxd_addr u)) w k odds" "field_in pkt (nat (bottom_pxd_addr u)) w k evens"
    "spu_width u = int w" "spu_height u = int (2 * k)" "0 < w" "w \<le> 1920" "0 < k" "k \<le> 640"
    "pixel_data (spu_alpha u) = Some table" "table_ok table"
  shows "yields (\<lambda>(ret, dp', src'). ret = len \<and> pending src' = rest \<and> live src' \<and>
      (\<exists>item. dp' = addDecodedItem item (dp\<lparr>mState := (if mState dp = SUB_INIT then SUB_PLAYING else mState dp)\<rparr>) \<and>
        shows_image item u w k table odds evens))
    (getInterSpu E rd available video dp src)"
proof -
  let ?dp = "dp\<lparr>mState := (if mState dp = SUB_INIT then SUB_PLAYING else mState dp)\<rparr>"
  let ?buf = "map (stray E) [0..<20 + length pkt]"
  let ?s = "new_spu\<lparr>sync_bytes := AML_PARSER_SYNC_WORD\<rparr>"
  have lay: "10 < length pkt" "length pkt < 65536" using assms(9) by (simp_all add: packet_layout_def Let_def)
  have dp: "(if mState dp = SUB_INIT then dp\<lparr>mState := SUB_PLAYING\<rparr> else dp) = ?dp" by simp
  have start: "getInterSpu E rd available video dp src
      = spu_loop E rd video ?buf (20 + len) 0 0 (-1) 0 ?s ?dp src"
    using assms(3-6,11) lay by (simp add: getInterSpu_def getSpu_def Let_def add.commute nat_add_distrib)
  obtain src1 where src1: "rd 20 src = Some (unit_header len stamp, src1)" "pending src1 = pkt @ rest" "live src1"
    using rd_exact [OF assms(1,2)] by auto
  obtain src2 where src2: "rd (length pkt) src1 = Some (pkt, src2)" "pending src2 = rest" "live src2"
    using rd_exact [OF src1(3,2)] lay(2) by auto
  let ?buf1 = "unit_header len stamp @ drop 20 ?buf" and ?buf2 = "unit_header len stamp @ pkt"
  have read1: "read_at rd 20 0 ?buf src = Some (?buf1, src1)"
    using src1(1) by (simp add: read_at_def put_bytes_def)
  have read2: "read_at rd len 20 ?buf1 src1 = Some (?buf2, src2)"
    using src2(1) lay(2) assms(3) by (simp add: read_at_def put_bytes_def)
  have len: "0 \<le> len" "len < 65536" using assms(3) lay(2) by simp_all
  have m1: "packet_mem E ?buf1 i = ?buf1 ! i" if "i < length ?buf1" for i using that by (simp add: packet_mem_def)
  have m2: "packet_mem E ?buf2 i = ?buf2 ! i" if "i < length ?buf2" for i using that by (simp add: packet_mem_def)
  note hdr1 = unit_header_fields [OF m1 refl assms(10) len assms(7,8)]
  note hdr2 = unit_header_fields [OF m2 refl assms(10) len assms(7,8)]
  have here: "bytes_here (packet_mem E ?buf2) (0 + 20) pkt"
    by (simp add: bytes_here_def packet_mem_def nth_append)
  have "yields (\<lambda>(ret, sizeflag, dp', s1). ret = len \<and> sizeflag = 0 \<and> dp' = ?dp\<lparr>mRestLen := len\<rparr>\<lparr>mRestLen := 0\<rparr> \<and>
      yields (\<lambda>s2. shows_image s2 u w k table odds evens) (fillResize E s1))
    (internal_unit E (packet_mem E ?buf2) 0 0x17000 len stamp (?dp\<lparr>mRestLen := len\<rparr>) ?s)"
    by (rule internal_unit_packet [OF here assms(9-11) _ assms(3) refl assms(12-22)]) (simp add: assms(3))
  then obtain s1 where iu: "internal_unit E (packet_mem E ?buf2) 0 0x17000 len stamp (?dp\<lparr>mRestLen := len\<rparr>) ?s
      = Some (len, 0, ?dp\<lparr>mRestLen := 0\<rparr>, s1)" "yields (\<lambda>s2. shows_image s2 u w k table odds evens) (fillResize E s1)"
    by (auto elim!: yieldsE)
  from iu(2) obtain s2 where s2: "fillResize E s1 = Some s2" "shows_image s2 u w k table odds evens"
    by (auto elim: yieldsE)
  have dp0: "?dp\<lparr>mRestLen := 0\<rparr> = ?dp" using assms(5) by simp
  have shown: "spu_data s2 \<noteq> None" "buffer_size s2 > 0"
    using spu_data_shown [OF s2(2) assms(17,19)] by simp_all
  have "spu_loop E rd video ?buf (20 + len) 0 0 (-1) 0 ?s ?dp src
      = Some (len, post_times 1 (display_size video s2) ?dp, src2)"
    using len lay(1) assms(3,5) read1 read2 hdr1 hdr2(4) iu(1) s2(1) shown
    by (subst spu_loop.simps) (simp add: internal_image_def Let_def dp0)
  then show ?thesis unfolding start using src2(2,3) s2(2)
    by (auto simp: post_times_def shows_image_display_size)
qed

end

end
