(* ===== verification/Dvd_Properties.thy ===== *)
theory Dvd_Properties
  imports Dvd_Unit
begin

text \<open>
  The properties of the DVD decoder, with the concrete packet that witnesses them.
\<close>

section \<open>Concrete data\<close>

definition dvd_env :: env where
  "dvd_env = \<lparr>malloc_ok = (\<lambda>_. True), stray = (\<lambda>_. 0xaa), cval = uint, asserts = True\<rparr>"

text \<open>A packet of two rows of four pixels, shown at (16, 32), and a second sequence that ends it.\<close>

definition dvd_packet :: "u8 list" where
  "dvd_packet = [0, 36, 0, 6, 0x11, 0x12, 0, 0, 0, 30,
     1, 3, 0x32, 0x10, 4, 0, 0x0f, 5, 1, 0, 19, 2, 0, 33, 6, 0, 4, 0, 5, 0xff,
     0, 10, 0, 30, 2, 0xff]"

definition dvd_commands :: "command list" where
  "dvd_commands = [Start, Color 0x3210, Contrast 0x0f, Area 16 19 32 33, Addresses 4 5]"

definition dvd_sequences :: "sequence list" where
  "dvd_sequences = [(10, 30, [Stop])]"

definition dvd_source :: Source where
  "dvd_source = \<lparr>mSegments = [new_item (unit_header 36 9000 @ dvd_packet)], mAvailableDataSize = 56,
     mEnabled = True, mCurrentItem = None, mStarted = True\<rparr>"

lemma dvd_packet_length: "length dvd_packet = 36"
  by (simp add: dvd_packet_def)

lemma dvd_packet_layout: "packet_layout dvd_packet 6 dvd_commands dvd_sequences"
  by (simp add: packet_layout_def Let_def dvd_packet_def dvd_commands_def dvd_sequences_def)

lemma dvd_packet_fields:
  "field_in dvd_packet 4 4 1 [[(4, 1)]]" "field_in dvd_packet 5 4 1 [[(4, 2)]]"
  by code_simp+

lemma dvd_unit_state:
  "set_delay dvd_sequences (fold apply_command dvd_commands (unit_before 9000 6 dvd_packet))
    = (unit_before 9000 6 dvd_packet)\<lparr>display_pending := 1, spu_color := 0x3210, spu_alpha := 0x0f, spu_start_x := 16,
        spu_start_y := 32, spu_width := 4, spu_height := 2, top_pxd_addr := 4, bottom_pxd_addr := 5, m_delay := 19240\<rparr>"
  by (simp add: dvd_sequences_def dvd_commands_def set_delay_def unit_before_def)

lemma dvd_table: "pixel_data 0x0f = Some [1, 0, 2, 3]" "table_ok [1, 0, 2, 3]"
  by code_simp+

lemma dvd_source_state: "source_live dvd_source" "source_pending dvd_source = unit_header 36 9000 @ dvd_packet @ []"
  by (simp_all add: dvd_source_def source_live_def source_pending_def new_item_def item_ok_def item_rest_def dvd_packet_length)

section \<open>Units of the player\<close>

text \<open>
  C35. A unit on a device source, a header and a packet whose pixel data encodes the rows of
  two fields and whose control sequences encode commands, is consumed exactly; it is queued once
  as the bitmap in which the fields alternate, with the colours that the contrast selects, at the
  place the commands name and with the time stamp of the header and the delay of the sequences.
\<close>

theorem dvd_unit_shown:
  assumes "source_live src" "source_pending src = unit_header len stamp @ pkt @ rest" "len = int (length pkt)"
    "mAvailableDataSize src = 20 + len" "mRestLen dp = 0" "mState dp \<noteq> SUB_STOP" "0 \<le> stamp" "stamp < 2 ^ 63"
    "packet_layout pkt offset cs qs" "cval E = uint" "\<forall>r. malloc_ok E r"
    "u = set_delay qs (fold apply_command cs (unit_before stamp offset pkt))"
    "field_in pkt (nat (top_pxd_addr u)) w k odds" "field_in pkt (nat (bottom_pxd_addr u)) w k evens"
    "spu_width u = int w" "spu_height u = int (2 * k)" "0 < w" "w \<le> 1920" "0 < k" "k \<le> 640"
    "pixel_data (spu_alpha u) = Some table" "table_ok table"
  shows "yields (\<lambda>(ret, dp', src'). ret = len \<and> source_pending src' = rest \<and> source_live src' \<and>
      (\<exists>item. dp' = addDecodedItem item (dp\<lparr>mState := (if mState dp = SUB_INIT then SUB_PLAYING else mState dp)\<rparr>) \<and>
        shows_image item u w k table odds evens))
    (getInterSpu E device_read mAvailableDataSize video dp src)"
  by (rule device.getInterSpu_unit [where available = mAvailableDataSize, OF assms])

theorem dvd_unit_shown_witness:
  "yields (\<lambda>(ret, dp', src'). ret = 36 \<and> source_pending src' = [] \<and> source_live src' \<and>
      (\<exists>item. dp' = addDecodedItem item (new_dvd\<lparr>mState := SUB_PLAYING\<rparr>) \<and>
        shows_image item ((unit_before 9000 6 dvd_packet)\<lparr>display_pending := 1, spu_color := 0x3210, spu_alpha := 0x0f,
          spu_start_x := 16, spu_start_y := 32, spu_width := 4, spu_height := 2, top_pxd_addr := 4,
          bottom_pxd_addr := 5, m_delay := 19240\<rparr>) 4 1 [1, 0, 2, 3] [[(4, 1)]] [[(4, 2)]]))
    (getInterSpu dvd_env device_read mAvailableDataSize (0, 0) new_dvd dvd_source)"
proof -
  have dp: "mRestLen new_dvd = 0" "mState new_dvd = SUB_INIT" "SUB_INIT \<noteq> SUB_STOP"
    by (simp_all add: new_dvd_def start_parser_def Parser.defs DvdParser.defs SUB_INIT_def SUB_STOP_def)
  show ?thesis
    using dvd_unit_shown [OF dvd_source_state _ _ dp(1) _ _ _ dvd_packet_layout _ _ dvd_unit_state [symmetric],
      of dvd_env 4 1 "[[(4, 1)]]" "[[(4, 2)]]" "[1, 0, 2, 3]" "(0, 0)"] dp dvd_packet_fields dvd_table
    by (simp add: dvd_env_def dvd_packet_length dvd_source_def)
qed

text \<open>
  C36. Whatever the packet holds, the decoder of a field stays within its buffer, as long as one
  colour value is transparent and the area leaves room for a last run; it fills exactly the
  buffer's words and changes at most the contrast of the unit.
\<close>

theorem dvd_fields_safe:
  assumes "count_opaque (spu_alpha s) < 4" "spu_width s < 65000"
    "nat (spu_height s) div 2 * (nat (spu_width s) + 7) + 254 \<le> 8 * field_words"
  shows "yields (\<lambda>(out, s'). length out = field_words \<and>
    s' = (if n = 2 then s\<lparr>spu_alpha := swapped_alpha (spu_alpha s)\<rparr> else s)) (spuFillPixel m p n s)"
  by (rule spuFillPixel_yields [OF assms])

theorem dvd_fields_safe_witness:
  "yields (\<lambda>(out, s'). length out = field_words \<and>
      s' = new_spu\<lparr>spu_width := 1920, spu_height := 1080, spu_alpha := 0xf0\<rparr>)
    (spuFillPixel (\<lambda>_. 0xff) 7 1 (new_spu\<lparr>spu_width := 1920, spu_height := 1080, spu_alpha := 0xf0\<rparr>))"
proof -
  let ?s = "new_spu\<lparr>spu_width := 1920, spu_height := 1080, spu_alpha := 0xf0\<rparr>"
  have "count_opaque (spu_alpha ?s) < 4" by (subst count_opaque.simps) simp
  with dvd_fields_safe [of ?s 1 "\<lambda>_. 0xff" 7] show ?thesis by (simp add: field_words_eq)
qed

text \<open>
  A contrast word that makes all four values opaque overruns the table of pixel values,
  whatever the picture.
\<close>

theorem dvd_opaque_contrast_overrun:
  assumes "4 \<le> count_opaque (spu_alpha s)"
  shows "spuFillPixel m p n s = None"
  using pixel_data_overrun [OF assms] by (simp add: spuFillPixel_def)

theorem dvd_opaque_contrast_overrun_witness:
  "spuFillPixel (\<lambda>_. 0) 4 1 (new_spu\<lparr>spu_alpha := 0xffff\<rparr>) = None"
proof -
  have "count_opaque 0xffff = 4" by code_simp
  with dvd_opaque_contrast_overrun [of "new_spu\<lparr>spu_alpha := 0xffff\<rparr>" "\<lambda>_. 0" 4 1] show ?thesis by simp
qed

section \<open>Control sequences\<close>



section \<open>Extra data\<close>

text \<open>
  Extra data that is shorter than its five-byte tag is copied with a negative size.
\<close>

theorem dvd_short_extradata_faults:
  assumes "0 < len" "len < 5" "is_extra m p" "malloc_ok E (ExtraDataBuffer (len - 4))"
  shows "getVobSpu E m p bufsize len dp s = None"
  using assms by (simp add: getVobSpu_def parseExtradata_def)

theorem dvd_short_extradata_faults_witness:
  "getVobSpu dvd_env (mem_of [0x45, 0x58, 0x54, 0x52, 0x41]) 0 40 4 new_dvd new_spu = None"
proof -
  have "is_extra (mem_of [0x45, 0x58, 0x54, 0x52, 0x41]) 0" by code_simp
  with dvd_short_extradata_faults [of 4 "mem_of [0x45, 0x58, 0x54, 0x52, 0x41]" 0 dvd_env] show ?thesis
    by (simp add: dvd_env_def)
qed

end
