(* ===== verification/Ring_Buffer.thy ===== *)
theory Ring_Buffer
  imports Packet_Sync
begin

text \<open>
  The byte ring of \<open>utils/ringbuffer.c\<close>, which the IPC receivers fill from their channel and
  empty package by package: the operations as written, and the byte queue of bounded capacity
  that they implement. The handle is a live ring; its magic number and its name are left out.
\<close>

record ringbuffer =
  rb_buffer :: "u8 list"
  rb_size :: int
  read_pos :: int
  write_pos :: int
  read_avail :: int
  write_avail :: int

section \<open>Operations\<close>

definition ringbuffer_create :: "env \<Rightarrow> int \<Rightarrow> ringbuffer option" where
  "ringbuffer_create E n =
     (if n \<le> 0 \<or> \<not> malloc_ok E RingNode \<or> \<not> malloc_ok E (RingData n) then None
      else Some \<lparr>rb_buffer = map (stray E) [0..<nat n], rb_size = n, read_pos = 0, write_pos = 0,
        read_avail = 0, write_avail = n\<rparr>)"

definition ringbuffer_cleanreset :: "ringbuffer \<Rightarrow> ringbuffer" where
  "ringbuffer_cleanreset r = r\<lparr>read_pos := 0, write_pos := 0, read_avail := 0, write_avail := rb_size r\<rparr>"

text \<open>The two copies of \<open>read\<close> and \<open>peek\<close>: up to the end of the buffer, and from its start.\<close>

definition copy_out :: "int \<Rightarrow> int \<Rightarrow> ringbuffer \<Rightarrow> u8 list option" where
  "copy_out count over r =
     (if over > 0 then do {
        a \<leftarrow> get_bytes (read_pos r) (count - over) (rb_buffer r);
        b \<leftarrow> get_bytes 0 over (rb_buffer r);
        Some (a @ b) }
      else get_bytes (read_pos r) count (rb_buffer r))"

definition ringbuffer_peek :: "env \<Rightarrow> ringbuffer \<Rightarrow> int \<Rightarrow> (int \<times> u8 list) option" where
  "ringbuffer_peek E r count = do {
     _ \<leftarrow> assert_that E (count < rb_size r);
     (if count \<le> 0 then Some (0, [])
      else
        let count = (if count < read_avail r then count else read_avail r);
            over = wrap32 (read_pos r + count - rb_size r)
        in do { bs \<leftarrow> copy_out count over r; Some (count, bs) }) }"

definition ringbuffer_read :: "env \<Rightarrow> ringbuffer \<Rightarrow> int \<Rightarrow> (int \<times> u8 list \<times> ringbuffer) option" where
  "ringbuffer_read E r count = do {
     _ \<leftarrow> assert_that E (count < rb_size r);
     (if count \<le> 0 then Some (0, [], r)
      else
        let count = (if count < read_avail r then count else read_avail r);
            over = wrap32 (read_pos r + count - rb_size r)
        in do {
          bs \<leftarrow> copy_out count over r;
          Some (count, bs, r\<lparr>read_pos := (if over > 0 then over else read_pos r + count),
            write_avail := write_avail r + count, read_avail := read_avail r - count\<rparr>) }) }"

definition ringbuffer_write :: "ringbuffer \<Rightarrow> u8 list \<Rightarrow> (int \<times> ringbuffer) option" where
  "ringbuffer_write r src =
     (let count = int (length src) in
      if count \<le> 0 then Some (0, r)
      else
        let count = (if count < write_avail r then count else write_avail r);
            over = wrap32 (write_pos r + count - rb_size r)
        in do {
          buf \<leftarrow> (if over > 0 then do {
              a \<leftarrow> get_bytes 0 (count - over) src;
              b \<leftarrow> get_bytes (count - over) over src;
              buf \<leftarrow> put_bytes (write_pos r) a (rb_buffer r);
              put_bytes 0 b buf }
            else do { a \<leftarrow> get_bytes 0 count src; put_bytes (write_pos r) a (rb_buffer r) });
          Some (count, r\<lparr>rb_buffer := buf, write_pos := (if over > 0 then over else write_pos r + count),
            write_avail := write_avail r - count, read_avail := read_avail r + count\<rparr>) })"
section \<open>The queue that the ring implements\<close>

definition ring_inv :: "ringbuffer \<Rightarrow> bool" where
  "ring_inv r \<longleftrightarrow> 0 < rb_size r \<and> rb_size r < 2 ^ 31 \<and> int (length (rb_buffer r)) = rb_size r \<and>
     0 \<le> read_pos r \<and> read_pos r \<le> rb_size r \<and> 0 \<le> write_pos r \<and> write_pos r \<le> rb_size r \<and>
     0 \<le> read_avail r \<and> 0 \<le> write_avail r \<and> read_avail r + write_avail r = rb_size r \<and>
     (read_pos r + read_avail r) mod rb_size r = write_pos r mod rb_size r"

text \<open>The bytes from a position on, around the end of the buffer.\<close>

definition ring_at :: "u8 list \<Rightarrow> int \<Rightarrow> nat \<Rightarrow> u8" where
  "ring_at buf p i = buf ! nat ((p + int i) mod int (length buf))"

definition ring_contents :: "ringbuffer \<Rightarrow> u8 list" where
  "ring_contents r = map (ring_at (rb_buffer r) (read_pos r)) [0..<nat (read_avail r)]"

lemma length_ring_contents: "ring_inv r \<Longrightarrow> int (length (ring_contents r)) = read_avail r"
  by (simp add: ring_contents_def ring_inv_def)

lemma mod_once: "0 \<le> x \<Longrightarrow> x < 2 * n \<Longrightarrow> x mod n = (if x < n then x else x - n)" for x n :: int
  using mod_pos_pos_trivial [of "x - n" n] mod_add_self2 [of "x - n" n] by (auto simp: mod_pos_pos_trivial)

lemma ring_at_cong:
  "(p + int i) mod int (length buf) = (q + int j) mod int (length buf) \<Longrightarrow> ring_at buf p i = ring_at buf q j"
  by (simp add: ring_at_def)

lemma copy_out_ring:
  assumes "int (length (rb_buffer r)) = rb_size r" "0 \<le> read_pos r" "read_pos r \<le> rb_size r" "0 \<le> count" "count \<le> rb_size r"
    "0 < rb_size r"
  shows "copy_out count (read_pos r + count - rb_size r) r = Some (map (ring_at (rb_buffer r) (read_pos r)) [0..<nat count])"
proof -
  let ?b = "rb_buffer r" and ?p = "read_pos r" and ?n = "rb_size r"
  have at: "ring_at ?b ?p i = ?b ! nat (if ?p + int i < ?n then ?p + int i else ?p + int i - ?n)" if "int i < count" for i
    using assms that mod_once [of "?p + int i" ?n] by (simp add: ring_at_def)
  show ?thesis
  proof (cases "?p + count - ?n > 0")
    case True
    have "take (nat (?n - ?p)) (drop (nat ?p) ?b) @ take (nat (?p + count - ?n)) ?b
        = map (ring_at ?b ?p) [0..<nat count]"
    proof (rule nth_equalityI)
      show "length (take (nat (?n - ?p)) (drop (nat ?p) ?b) @ take (nat (?p + count - ?n)) ?b)
          = length (map (ring_at ?b ?p) [0..<nat count])"
        using assms True by simp
    next
      fix i assume "i < length (take (nat (?n - ?p)) (drop (nat ?p) ?b) @ take (nat (?p + count - ?n)) ?b)"
      then have i: "int i < count" using assms True by simp
      then show "(take (nat (?n - ?p)) (drop (nat ?p) ?b) @ take (nat (?p + count - ?n)) ?b) ! i
          = map (ring_at ?b ?p) [0..<nat count] ! i"
        using assms True at [OF i]
        by (cases "?p + int i < ?n") (auto simp: nth_append nat_add_distrib nat_diff_distrib intro!: arg_cong [of _ _ "(!) ?b"])
    qed
    then show ?thesis using True assms by (simp add: copy_out_def get_bytes_def algebra_simps)
  next
    case False
    have "take (nat count) (drop (nat ?p) ?b) = map (ring_at ?b ?p) [0..<nat count]"
    proof (rule nth_equalityI)
      show "length (take (nat count) (drop (nat ?p) ?b)) = length (map (ring_at ?b ?p) [0..<nat count])"
        using assms False by simp
    next
      fix i assume "i < length (take (nat count) (drop (nat ?p) ?b))"
      then have i: "int i < count" by (simp add: zless_nat_eq_int_zless)
      then show "take (nat count) (drop (nat ?p) ?b) ! i = map (ring_at ?b ?p) [0..<nat count] ! i"
        using assms False at [OF i] by (auto simp: nat_add_distrib)
    qed
    then show ?thesis using False assms by (simp add: copy_out_def get_bytes_def)
  qed
qed

lemma wrapped_over: "ring_inv r \<Longrightarrow> 0 \<le> p \<Longrightarrow> p \<le> rb_size r \<Longrightarrow> 0 \<le> count \<Longrightarrow> count \<le> rb_size r \<Longrightarrow>
    wrap32 (p + count - rb_size r) = p + count - rb_size r"
  by (rule wrap32_id) (auto simp: ring_inv_def)

text \<open>Reading takes bytes from the front of the queue; peeking leaves them.\<close>

lemma take_contents: "count \<le> read_avail r \<Longrightarrow> 0 \<le> count \<Longrightarrow> take (nat count) (ring_contents r)
    = map (ring_at (rb_buffer r) (read_pos r)) [0..<nat count]"
  by (simp add: ring_contents_def take_map min_def)

lemma ringbuffer_peek_queue:
  assumes "ring_inv r" "count < rb_size r" "0 \<le> count"
  shows "ringbuffer_peek E r count = Some (min count (read_avail r), take (nat count) (ring_contents r))"
proof -
  let ?c = "if count < read_avail r then count else read_avail r"
  have c: "0 \<le> ?c" "?c \<le> rb_size r" "?c \<le> read_avail r" using assms by (auto simp: ring_inv_def)
  have "copy_out ?c (read_pos r + ?c - rb_size r) r = Some (take (nat ?c) (ring_contents r))"
    using assms(1) c by (simp only: take_contents) (rule copy_out_ring, auto simp: ring_inv_def)
  moreover have "take (nat ?c) (ring_contents r) = take (nat count) (ring_contents r)"
    using length_ring_contents [OF assms(1)] by auto
  moreover have "wrap32 (read_pos r + ?c - rb_size r) = read_pos r + ?c - rb_size r"
    using assms(1) c by (intro wrapped_over) (auto simp: ring_inv_def)
  moreover have "take 0 (ring_contents r) = []" by simp
  ultimately show ?thesis
    using assms by (auto simp: ringbuffer_peek_def Let_def min_def ring_inv_def)
qed
lemma ring_contents_shift:
  assumes "ring_inv r" "0 \<le> count" "count \<le> read_avail r"
    "(read_pos r + count) mod rb_size r = p mod rb_size r"
  shows "map (ring_at (rb_buffer r) p) [0..<nat (read_avail r - count)] = drop (nat count) (ring_contents r)"
proof (rule nth_equalityI)
  show "length (map (ring_at (rb_buffer r) p) [0..<nat (read_avail r - count)]) = length (drop (nat count) (ring_contents r))"
    using assms by (simp add: ring_contents_def)
next
  fix i assume "i < length (map (ring_at (rb_buffer r) p) [0..<nat (read_avail r - count)])"
  then have i: "i < nat (read_avail r - count)" by simp
  then have k: "nat count + i < nat (read_avail r)" using assms(2,3) by linarith
  have "(p + int i) mod rb_size r = (read_pos r + int (nat count + i)) mod rb_size r"
    using mod_add_cong [OF assms(4) refl, of "int i"] assms(2) by (simp add: add.assoc)
  then have "ring_at (rb_buffer r) p i = ring_at (rb_buffer r) (read_pos r) (nat count + i)"
    using assms(1) by (intro ring_at_cong) (simp add: ring_inv_def)
  then show "map (ring_at (rb_buffer r) p) [0..<nat (read_avail r - count)] ! i = drop (nat count) (ring_contents r) ! i"
    using i k by (simp add: ring_contents_def)
qed

lemma ringbuffer_read_queue:
  assumes "ring_inv r" "count < rb_size r" "0 \<le> count"
  shows "yields (\<lambda>(n, bs, r'). ring_inv r' \<and> rb_size r' = rb_size r \<and> n = min count (read_avail r) \<and>
      bs = take (nat count) (ring_contents r) \<and> ring_contents r' = drop (nat count) (ring_contents r))
    (ringbuffer_read E r count)"
proof -
  define c where "c = (if count < read_avail r then count else read_avail r)"
  define p where "p = (if read_pos r + c - rb_size r > 0 then read_pos r + c - rb_size r else read_pos r + c)"
  let ?r = "r\<lparr>read_pos := p, write_avail := write_avail r + c, read_avail := read_avail r - c\<rparr>"
  have c: "0 \<le> c" "c \<le> rb_size r" "c \<le> read_avail r" using assms by (auto simp: ring_inv_def c_def)
  have bs: "copy_out c (read_pos r + c - rb_size r) r = Some (take (nat c) (ring_contents r))"
    using assms(1) c by (simp only: take_contents) (rule copy_out_ring, auto simp: ring_inv_def)
  have len: "int (length (ring_contents r)) = read_avail r" by (rule length_ring_contents [OF assms(1)])
  have same: "take (nat c) (ring_contents r) = take (nat count) (ring_contents r)"
    "drop (nat c) (ring_contents r) = drop (nat count) (ring_contents r)"
    using len by (auto simp: c_def)
  have wrap: "wrap32 (read_pos r + c - rb_size r) = read_pos r + c - rb_size r"
    using assms(1) c by (intro wrapped_over) (auto simp: ring_inv_def)
  have pos: "(read_pos r + c) mod rb_size r = p mod rb_size r"
    using mod_add_self2 [of "read_pos r + c - rb_size r" "rb_size r"] by (auto simp: p_def)
  have rest: "ring_contents ?r = drop (nat count) (ring_contents r)"
    using ring_contents_shift [OF assms(1) c(1,3) pos] unfolding same
    by (simp add: ring_contents_def [of ?r])
  have inv: "ring_inv ?r"
  proof -
    have "(p + (read_avail r - c)) mod rb_size r = (read_pos r + c + (read_avail r - c)) mod rb_size r"
      by (rule mod_add_cong [OF pos [symmetric] refl])
    also have "read_pos r + c + (read_avail r - c) = read_pos r + read_avail r" by simp
    finally have "(p + (read_avail r - c)) mod rb_size r = write_pos r mod rb_size r"
      using assms(1) by (simp add: ring_inv_def)
    moreover have "0 \<le> p" "p \<le> rb_size r" using assms(1) c by (auto simp: ring_inv_def p_def)
    ultimately show ?thesis using assms(1) c by (simp add: ring_inv_def)
  qed
  show ?thesis
  proof (cases "count = 0")
    case True
    then show ?thesis using assms by (simp add: ringbuffer_read_def ring_inv_def)
  next
    case False
    then have "ringbuffer_read E r count = Some (c, take (nat count) (ring_contents r), ?r)"
      using assms(2,3) bs wrap same(1) unfolding ringbuffer_read_def c_def [symmetric]
      by (simp add: Let_def p_def)
    then show ?thesis using inv rest by (simp add: c_def min_def)
  qed
qed
text \<open>Writing around the end of the buffer, position by position.\<close>

definition ring_write :: "int \<Rightarrow> u8 list \<Rightarrow> u8 list \<Rightarrow> u8 list option" where
  "ring_write p a buf =
     (let over = p + int (length a) - int (length buf) in
      if over > 0 then do { buf \<leftarrow> put_bytes p (take (length a - nat over) a) buf; put_bytes 0 (drop (length a - nat over) a) buf }
      else put_bytes p a buf)"

lemma nth_put_bytes:
  "put_bytes at bs buf = Some buf' \<Longrightarrow> j < length buf \<Longrightarrow>
     buf' ! j = (if at \<le> int j \<and> int j < at + int (length bs) then bs ! (j - nat at) else buf ! j)"
  by (auto simp: put_bytes_def nth_append min_def split: if_splits)

lemma ring_write_at:
  assumes "0 \<le> p" "p \<le> int (length buf)" "length a \<le> length buf" "0 < length buf"
  shows "yields (\<lambda>buf'. length buf' = length buf \<and>
    (\<forall>i < length buf. ring_at buf' p i = (if i < length a then a ! i else ring_at buf p i))) (ring_write p a buf)"
proof -
  let ?n = "int (length buf)" and ?over = "p + int (length a) - int (length buf)"
  have pos: "(p + int i) mod ?n = (if p + int i < ?n then p + int i else p + int i - ?n)" if "i < length buf" for i
    using assms that by (intro mod_once) auto
  show ?thesis
  proof (cases "?over > 0")
    case True
    define k where "k = length a - nat ?over"
    have k: "p + int k = ?n" "k \<le> length a" using True assms by (simp_all add: k_def)
    have fit: "p + int (length (take k a)) \<le> int (length buf)" using k by simp
    obtain buf1 where b1: "put_bytes p (take k a) buf = Some buf1" using assms(1) fit unfolding put_bytes_def by auto
    have l1: "length buf1 = length buf" by (rule length_put_bytes [OF b1])
    obtain buf2 where b2: "put_bytes 0 (drop k a) buf1 = Some buf2" using assms(3) l1 by (cases "put_bytes 0 (drop k a) buf1") (auto simp: put_bytes_def split: if_splits)
    have l2: "length buf2 = length buf" using length_put_bytes [OF b2] l1 by simp
    have "ring_at buf2 p i = (if i < length a then a ! i else ring_at buf p i)" if i: "i < length buf" for i
    proof (cases "p + int i < ?n")
      case True
      then have j: "nat (p + int i) < length buf" using assms(1) by simp
      have ik: "i < k" using True k by simp
      have "\<not> int (nat (p + int i)) < int (length (drop k a))" using True assms k by simp
      then have "buf2 ! nat (p + int i) = buf1 ! nat (p + int i)"
        using nth_put_bytes [OF b2, of "nat (p + int i)"] j l1 by simp
      also have "\<dots> = a ! i"
        using nth_put_bytes [OF b1 j] True k ik assms(1) by (simp add: nat_add_distrib)
      finally show ?thesis using True i ik k(2) pos [OF i] l2 by (simp add: ring_at_def)
    next
      case False
      define j where "j = nat (p + int i - ?n)"
      have j: "j < length buf" "int j = p + int i - ?n" using False i assms by (auto simp: j_def)
      have ik: "i = k + j" using j(2) k(1) by linarith
      have b: "buf2 ! j = (if j < length a - k then a ! (k + j) else buf1 ! j)"
        using nth_put_bytes [OF b2, of j] j(1) l1 by auto
      have "buf1 ! j = buf ! j" using nth_put_bytes [OF b1 j(1)] j(2) i by simp
      moreover have "ring_at buf2 p i = buf2 ! j" "ring_at buf p i = buf ! j"
        using False pos [OF i] l2 by (simp_all add: ring_at_def j_def)
      moreover have "(i < length a) = (j < length a - k)" using ik by auto
      ultimately show ?thesis using b ik by simp
    qed
    then show ?thesis using True b1 b2 l2 by (simp add: ring_write_def k_def)
  next
    case False
    obtain buf1 where b1: "put_bytes p a buf = Some buf1" using assms False by (simp add: put_bytes_def)
    have l1: "length buf1 = length buf" by (rule length_put_bytes [OF b1])
    have "ring_at buf1 p i = (if i < length a then a ! i else ring_at buf p i)" if i: "i < length buf" for i
    proof -
      define j where "j = nat (if p + int i < ?n then p + int i else p + int i - ?n)"
      have j: "j < length buf" "int j = (if p + int i < ?n then p + int i else p + int i - ?n)" using i assms by (auto simp: j_def)
      have "buf1 ! j = (if p \<le> int j \<and> int j < p + int (length a) then a ! (j - nat p) else buf ! j)"
        by (rule nth_put_bytes [OF b1 j(1)])
      moreover have "(p \<le> int j \<and> int j < p + int (length a)) = (i < length a)" using j(2) i False assms by auto
      moreover have "i < length a \<Longrightarrow> j - nat p = i" using j(2) i False assms by (auto split: if_splits)
      ultimately show ?thesis using pos [OF i] l1 by (simp add: ring_at_def j_def [symmetric])
    qed
    then show ?thesis using False b1 l1 by (simp add: ring_write_def)
  qed
qed

lemma ringbuffer_write_eq:
  assumes "ring_inv r" "c = min (int (length src)) (write_avail r)" "src \<noteq> []"
  shows "ringbuffer_write r src = do {
    buf \<leftarrow> ring_write (write_pos r) (take (nat c) src) (rb_buffer r);
    Some (c, r\<lparr>rb_buffer := buf,
      write_pos := (if write_pos r + c - rb_size r > 0 then write_pos r + c - rb_size r else write_pos r + c),
      write_avail := write_avail r - c, read_avail := read_avail r + c\<rparr>) }"
proof -
  have c: "0 \<le> c" "c \<le> rb_size r" "c \<le> int (length src)" "length (take (nat c) src) = nat c"
    using assms by (auto simp: ring_inv_def min_def)
  have e: "(if int (length src) < write_avail r then int (length src) else write_avail r) = c"
    using assms(2) by (simp add: min_def)
  have wrap: "wrap32 (write_pos r + c - rb_size r) = write_pos r + c - rb_size r"
    using assms(1) c by (intro wrapped_over) (auto simp: ring_inv_def)
  have size: "int (length (rb_buffer r)) = rb_size r" using assms(1) by (simp add: ring_inv_def)
  let ?over = "write_pos r + c - rb_size r"
  have parts: "get_bytes 0 (c - ov) src = Some (take (nat c - nat ov) src)"
      "get_bytes (c - ov) ov src = Some (drop (nat c - nat ov) (take (nat c) src))" if "0 < ov" "ov \<le> c" for ov
  proof -
    have n: "nat (c - ov) = nat c - nat ov" "nat c - (nat c - nat ov) = nat ov" using that by simp_all
    show "get_bytes 0 (c - ov) src = Some (take (nat c - nat ov) src)"
      using c that unfolding get_bytes_def n by simp
    show "get_bytes (c - ov) ov src = Some (drop (nat c - nat ov) (take (nat c) src))"
      using c that unfolding get_bytes_def n drop_take by simp
  qed
  have "?over \<le> c" using assms(1) by (simp add: ring_inv_def)
  then have "?over > 0 \<Longrightarrow> get_bytes 0 (c - ?over) src = Some (take (nat c - nat ?over) src)"
      "?over > 0 \<Longrightarrow> get_bytes (c - ?over) ?over src = Some (drop (nat c - nat ?over) (take (nat c) src))"
    using parts [of ?over] by blast+
  moreover have "take (nat c - nat ?over) (take (nat c) src) = take (nat c - nat ?over) src" by simp
  moreover have "get_bytes 0 c src = Some (take (nat c) src)" using c by (simp add: get_bytes_def)
  ultimately show ?thesis
    using assms(3) c(1,4) unfolding ringbuffer_write_def e Let_def wrap ring_write_def size by auto
qed
lemma ringbuffer_write_queue:
  assumes "ring_inv r"
  shows "yields (\<lambda>(n, r'). ring_inv r' \<and> rb_size r' = rb_size r \<and> n = min (int (length src)) (write_avail r) \<and>
      ring_contents r' = ring_contents r @ take (nat n) src) (ringbuffer_write r src)"
proof (cases "src = []")
  case True
  then show ?thesis using assms by (auto simp: ringbuffer_write_def ring_inv_def min_def)
next
  case False
  define c where "c = min (int (length src)) (write_avail r)"
  define p where "p = (if write_pos r + c - rb_size r > 0 then write_pos r + c - rb_size r else write_pos r + c)"
  let ?a = "take (nat c) src" and ?n = "rb_size r"
  have n: "int (length (rb_buffer r)) = ?n" "0 < ?n" "0 < length (rb_buffer r)" using assms by (auto simp: ring_inv_def)
  have c: "0 \<le> c" "c \<le> write_avail r" "length ?a = nat c" "nat c \<le> length (rb_buffer r)"
    using assms n(1) by (auto simp: ring_inv_def c_def min_def)
  obtain buf where buf: "ring_write (write_pos r) ?a (rb_buffer r) = Some buf" "length buf = length (rb_buffer r)"
    "\<forall>i < length (rb_buffer r). ring_at buf (write_pos r) i = (if i < nat c then ?a ! i else ring_at (rb_buffer r) (write_pos r) i)"
  proof -
    have "yields (\<lambda>buf'. length buf' = length (rb_buffer r) \<and> (\<forall>i < length (rb_buffer r). ring_at buf' (write_pos r) i =
        (if i < length ?a then ?a ! i else ring_at (rb_buffer r) (write_pos r) i))) (ring_write (write_pos r) ?a (rb_buffer r))"
      by (rule ring_write_at) (use assms c n in \<open>simp_all add: ring_inv_def\<close>)
    then show ?thesis using that unfolding c(3) by (elim yieldsE) blast
  qed
  let ?r = "r\<lparr>rb_buffer := buf, write_pos := p, write_avail := write_avail r - c, read_avail := read_avail r + c\<rparr>"
  have run: "ringbuffer_write r src = Some (c, ?r)"
    using ringbuffer_write_eq [OF assms c_def False] buf(1) by (simp add: p_def)
  have pos: "(write_pos r + c) mod ?n = p mod ?n"
    using mod_add_self2 [of "write_pos r + c - ?n" ?n] by (auto simp: p_def)
  have ends: "(read_pos r + read_avail r) mod ?n = write_pos r mod ?n" using assms by (simp add: ring_inv_def)
  have inv: "ring_inv ?r"
  proof -
    have "(read_pos r + (read_avail r + c)) mod ?n = (write_pos r + c) mod ?n"
      using mod_add_cong [OF ends refl, of c] by (simp add: add.assoc)
    moreover have "0 \<le> p" "p \<le> ?n" using assms c(1,2) by (auto simp: ring_inv_def p_def)
    ultimately show ?thesis using assms c(1,2) buf(2) n(1) pos by (simp add: ring_inv_def)
  qed
  have "ring_contents ?r = ring_contents r @ ?a"
  proof (rule nth_equalityI)
    show "length (ring_contents ?r) = length (ring_contents r @ ?a)"
      using c(1,3) assms by (simp add: ring_contents_def nat_add_distrib ring_inv_def)
  next
    fix i assume "i < length (ring_contents ?r)"
    then have i: "i < nat (read_avail r + c)" by (simp add: ring_contents_def)
    have avail: "0 \<le> read_avail r" "read_avail r + write_avail r = ?n" using assms by (simp_all add: ring_inv_def)
    have lhs: "ring_contents ?r ! i = ring_at buf (read_pos r) i" using i by (simp add: ring_contents_def)
    show "ring_contents ?r ! i = (ring_contents r @ ?a) ! i"
    proof (cases "i < nat (read_avail r)")
      case True
      define j where "j = i + nat (write_avail r)"
      have j: "j < length (rb_buffer r)" "\<not> j < nat c" "int j = int i + write_avail r"
        using True c(1,2) n(1) avail by (auto simp: j_def)
      have e: "(read_pos r + int i) mod ?n = (write_pos r + int j) mod ?n"
      proof -
        have "(write_pos r + int j) mod ?n = (read_pos r + read_avail r + int j) mod ?n"
          by (rule mod_add_cong [OF ends [symmetric] refl])
        also have "read_pos r + read_avail r + int j = (read_pos r + int i) + ?n" using j(3) avail(2) by simp
        finally show ?thesis by simp
      qed
      have "ring_at buf (read_pos r) i = ring_at buf (write_pos r) j" using e buf(2) n(1) by (intro ring_at_cong) simp
      also have "\<dots> = ring_at (rb_buffer r) (write_pos r) j" using buf(3) j(1,2) by simp
      also have "\<dots> = ring_at (rb_buffer r) (read_pos r) i" using e n(1) by (intro ring_at_cong) simp
      finally show ?thesis using True lhs by (simp add: ring_contents_def nth_append)
    next
      case False
      define j where "j = i - nat (read_avail r)"
      have j: "j < nat c" "int i = read_avail r + int j" using False i c(1) avail by (auto simp: j_def)
      have "(read_pos r + int i) mod ?n = (write_pos r + int j) mod ?n"
        using mod_add_cong [OF ends refl, of "int j"] j(2) by (simp add: add.assoc)
      then have "ring_at buf (read_pos r) i = ring_at buf (write_pos r) j" using buf(2) n(1) by (intro ring_at_cong) simp
      also have "\<dots> = ?a ! j" using buf(3) j(1) c(4) by simp
      finally show ?thesis using False lhs by (simp add: ring_contents_def nth_append j_def)
    qed
  qed
  then show ?thesis using inv run by (simp add: c_def)
qed
section \<open>The interface\<close>

datatype channel_op = Write "u8 list" | Read int

text \<open>A run: the bytes that were accepted, the bytes that were delivered, and the channel.\<close>

fun run_ops :: "('r \<Rightarrow> u8 list \<Rightarrow> (int \<times> 'r) option) \<Rightarrow> ('r \<Rightarrow> int \<Rightarrow> (int \<times> u8 list \<times> 'r) option)
    \<Rightarrow> channel_op list \<Rightarrow> 'r \<Rightarrow> (u8 list \<times> u8 list \<times> 'r) option" where
  "run_ops wr rd [] r = Some ([], [], r)"
| "run_ops wr rd (Write bs # ops) r = do {
     (n, r) \<leftarrow> wr r bs;
     (acc, del, r) \<leftarrow> run_ops wr rd ops r;
     Some (take (nat n) bs @ acc, del, r) }"
| "run_ops wr rd (Read n # ops) r = do {
     (_, bs, r) \<leftarrow> rd r n;
     (acc, del, r) \<leftarrow> run_ops wr rd ops r;
     Some (acc, bs @ del, r) }"

fun op_ok :: "int \<Rightarrow> channel_op \<Rightarrow> bool" where
  "op_ok capacity (Write bs) \<longleftrightarrow> True"
| "op_ok capacity (Read n) \<longleftrightarrow> n < capacity"

locale byte_fifo =
  fixes contents :: "'r \<Rightarrow> u8 list" and capacity :: "'r \<Rightarrow> int" and ok :: "'r \<Rightarrow> bool"
    and wr :: "'r \<Rightarrow> u8 list \<Rightarrow> (int \<times> 'r) option" and rd :: "'r \<Rightarrow> int \<Rightarrow> (int \<times> u8 list \<times> 'r) option"
  assumes wr_appends: "ok r \<Longrightarrow> yields (\<lambda>(n, r'). ok r' \<and> capacity r' = capacity r \<and>
      n = min (int (length bs)) (capacity r - int (length (contents r))) \<and>
      contents r' = contents r @ take (nat n) bs) (wr r bs)"
    and rd_takes: "ok r \<Longrightarrow> n < capacity r \<Longrightarrow> yields (\<lambda>(k, bs, r'). ok r' \<and> capacity r' = capacity r \<and>
      bs = take (nat n) (contents r) \<and> contents r' = drop (nat n) (contents r)) (rd r n)"
    and ok_fits: "ok r \<Longrightarrow> int (length (contents r)) \<le> capacity r"
begin

lemma run_fifo:
  assumes "ok r" "\<forall>p \<in> set ops. op_ok (capacity r) p"
  shows "yields (\<lambda>(acc, del, r'). ok r' \<and> capacity r' = capacity r \<and> contents r @ acc = del @ contents r') (run_ops wr rd ops r)"
  using assms
proof (induction ops arbitrary: r)
  case (Cons p ops)
  show ?case
  proof (cases p)
    case (Write bs)
    obtain n r1 where w: "wr r bs = Some (n, r1)" "ok r1" "capacity r1 = capacity r"
      "contents r1 = contents r @ take (nat n) bs"
      using wr_appends [OF Cons.prems(1), of bs] by (auto elim: yieldsE)
    show ?thesis using Cons.IH [OF w(2)] Cons.prems(2) w by (auto simp: Write elim!: yieldsE)
  next
    case (Read n)
    then have "n < capacity r" using Cons.prems(2) by simp
    then obtain k bs r1 where w: "rd r n = Some (k, bs, r1)" "ok r1" "capacity r1 = capacity r"
      "bs = take (nat n) (contents r)" "contents r1 = drop (nat n) (contents r)"
      using rd_takes [OF Cons.prems(1), of n] by (auto elim: yieldsE)
    have "take (nat n) (contents r) @ contents r1 = contents r" using w(5) by simp
    then show ?thesis using Cons.IH [OF w(2)] Cons.prems(2) w(1,3,4)
      by (auto simp: Read elim!: yieldsE) (metis append.assoc)
  qed
qed simp

text \<open>What has been accepted and not yet delivered is what the channel holds: nothing is lost.\<close>

lemma run_lossless:
  assumes "ok r" "contents r = []" "\<forall>p \<in> set ops. op_ok (capacity r) p"
  shows "yields (\<lambda>(acc, del, r'). acc = del @ contents r' \<and> int (length acc) - int (length del) \<le> capacity r)
    (run_ops wr rd ops r)"
proof -
  have "yields (\<lambda>(acc, del, r'). ok r' \<and> capacity r' = capacity r \<and> acc = del @ contents r') (run_ops wr rd ops r)"
    using run_fifo [OF assms(1,3)] assms(2) by simp
  then show ?thesis by (rule yields_mono) (use ok_fits in \<open>auto, fastforce\<close>)
qed

end

lemma ringbuffer_read_nothing: "ring_inv r \<Longrightarrow> n < 0 \<Longrightarrow> ringbuffer_read E r n = Some (0, [], r)"
  by (simp add: ringbuffer_read_def ring_inv_def)

interpretation ring: byte_fifo ring_contents rb_size ring_inv ringbuffer_write "ringbuffer_read E" for E
proof
  show "yields (\<lambda>(n, r'). ring_inv r' \<and> rb_size r' = rb_size r \<and>
      n = min (int (length bs)) (rb_size r - int (length (ring_contents r))) \<and>
      ring_contents r' = ring_contents r @ take (nat n) bs) (ringbuffer_write r bs)" if "ring_inv r" for r bs
  proof -
    have "rb_size r - int (length (ring_contents r)) = write_avail r"
      using that length_ring_contents [OF that] by (simp add: ring_inv_def)
    then show ?thesis using ringbuffer_write_queue [OF that, of bs] by simp
  qed
  show "yields (\<lambda>(k, bs, r'). ring_inv r' \<and> rb_size r' = rb_size r \<and> bs = take (nat n) (ring_contents r) \<and>
      ring_contents r' = drop (nat n) (ring_contents r)) (ringbuffer_read E r n)" if "ring_inv r" "n < rb_size r" for r n
  proof (cases "0 \<le> n")
    case True
    show ?thesis by (rule yields_mono [OF ringbuffer_read_queue [OF that True]]) auto
  next
    case False
    then show ?thesis using ringbuffer_read_nothing [OF that(1), of n] that(1) by simp
  qed
  show "int (length (ring_contents r)) \<le> rb_size r" if "ring_inv r" for r
    using that length_ring_contents [OF that] by (simp add: ring_inv_def)
qed

lemma ringbuffer_create_queue:
  "0 < n \<Longrightarrow> n < 2 ^ 31 \<Longrightarrow> \<forall>r. malloc_ok E r \<Longrightarrow>
     yields (\<lambda>r. ring_inv r \<and> rb_size r = n \<and> ring_contents r = []) (ringbuffer_create E n)"
  by (simp add: ringbuffer_create_def ring_inv_def ring_contents_def)

lemma ringbuffer_cleanreset_queue:
  "ring_inv r \<Longrightarrow> ring_inv (ringbuffer_cleanreset r) \<and> ring_contents (ringbuffer_cleanreset r) = []"
  by (simp add: ringbuffer_cleanreset_def ring_inv_def ring_contents_def)

end
