(* ===== verification/Ipc.thy ===== *)
theory Ipc
  imports Ring_Buffer Data_Source
begin

text \<open>
  The channels that carry subtitle data from the players: the package header of
  \<open>ipc/IpcDataTypes.h\<close>, the loop of \<open>ipc/FmqReceiver.cpp\<close> that cuts the bytes of a fast message
  queue into packages, the one of \<open>ipc/SocketServer.cpp\<close> that does so for a socket, and the
  sources \<open>io/ExternalDataSource.cpp\<close> and \<open>io/SocketSource.cpp\<close> that take the packages.

  A listener is a function on the payload (the type word and the data), its length and the
  listener's state; its result is the return value and the new state.
\<close>

type_synonym 's listener = "u8 list \<Rightarrow> int \<Rightarrow> 's \<Rightarrow> (int \<times> 's) option"

section \<open>Packages\<close>

definition START_FLAG :: int where "START_FLAG = 0xF0D0C0B1"
definition MAGIC_FLAG :: int where "MAGIC_FLAG = 0xCFFFFFFB"

definition eTypeSubtitleTotal :: int where "eTypeSubtitleTotal = 0x53544F54"
definition eTypeSubtitleStartPts :: int where "eTypeSubtitleStartPts = 0x53505453"
definition eTypeSubtitleRenderTime :: int where "eTypeSubtitleRenderTime = 0x53524454"
definition eTypeSubtitleType :: int where "eTypeSubtitleType = 0x53545950"
definition eTypeSubtitleTypeString :: int where "eTypeSubtitleTypeString = 0x54505352"
definition eTypeSubtitleLangString :: int where "eTypeSubtitleLangString = 0x4C475352"
definition eTypeSubtitleData :: int where "eTypeSubtitleData = 0x504C4454"
definition eTypeSubtitleResetServ :: int where "eTypeSubtitleResetServ = 0x43545244"
definition eTypeSubtitleExitServ :: int where "eTypeSubtitleExitServ = 0x43444558"

lemmas package_types = eTypeSubtitleTotal_def eTypeSubtitleStartPts_def eTypeSubtitleRenderTime_def
  eTypeSubtitleType_def eTypeSubtitleTypeString_def eTypeSubtitleLangString_def eTypeSubtitleData_def
  eTypeSubtitleResetServ_def eTypeSubtitleExitServ_def

text \<open>\<open>sizeof(IpcPackageHeader)\<close>: five words.\<close>

definition header_size :: int where "header_size = 20"

record IpcPackageHeader =
  dataSize :: int
  pkgType :: int

text \<open>The four bytes at \<open>k\<close>, little-endian; plain \<open>char\<close> is what \<open>cv\<close> says.\<close>

definition peekAsSocketWord :: "(u8 \<Rightarrow> int) \<Rightarrow> u8 list \<Rightarrow> nat \<Rightarrow> int" where
  "peekAsSocketWord cv buffer k =
     u32_of (((cv (buffer ! k) OR push_bit 8 (cv (buffer ! (k + 1)))) OR push_bit 16 (cv (buffer ! (k + 2))))
       OR push_bit 24 (cv (buffer ! (k + 3))))"

text \<open>The bytes of an \<open>int\<close> in memory.\<close>

definition le_bytes :: "int \<Rightarrow> u8 list" where
  "le_bytes v = map (\<lambda>k. word_of_int (drop_bit k v)) [0, 8, 16, 24]"

text \<open>
  A payload: the type word, and as many bytes of the ring as the header says. A negative size
  leaves less room than the type word takes.
\<close>

definition take_payload :: "env \<Rightarrow> IpcPackageHeader \<Rightarrow> ringbuffer \<Rightarrow> (u8 list \<times> ringbuffer) option" where
  "take_payload E h r = do {
     payloads \<leftarrow> put_bytes 0 (le_bytes (pkgType h)) (map (stray E) [0..<nat (size_of (wrap32 (dataSize h + 4)))]);
     (_, bs, r) \<leftarrow> ringbuffer_read E r (dataSize h);
     payloads \<leftarrow> put_bytes 4 bs payloads;
     Some (payloads, r) }"

section \<open>The fast message queue\<close>

text \<open>
  The inner loop. The size of a package is compared as a \<open>size_t\<close>, so that a negative
  \<open>dataSize\<close> counts as what is left of the header.
\<close>

partial_function (option) consume_packages ::
  "env \<Rightarrow> 's listener \<Rightarrow> bool \<Rightarrow> ringbuffer \<Rightarrow> 's \<Rightarrow> (ringbuffer \<times> 's) option" where
  "consume_packages E onData clients r s =
     (if read_avail r > header_size then do {
        (_, buffer) \<leftarrow> ringbuffer_peek E r header_size;
        (if peekAsSocketWord (cval E) buffer 0 \<noteq> START_FLAG \<and> peekAsSocketWord (cval E) buffer 8 \<noteq> MAGIC_FLAG
         then do {
           (_, _, r) \<leftarrow> ringbuffer_read E r 4;
           consume_packages E onData clients r s }
         else
           let h = \<lparr>dataSize = wrap32 (peekAsSocketWord (cval E) buffer 12),
                    pkgType = wrap32 (peekAsSocketWord (cval E) buffer 16)\<rparr>
           in if read_avail r < size_of (header_size + dataSize h) then Some (r, s)
              else do {
                (_, _, r) \<leftarrow> ringbuffer_read E r header_size;
                (if \<not> malloc_ok E (Payload (wrap32 (dataSize h + 4))) then consume_packages E onData clients r s
                 else do {
                   (payloads, r) \<leftarrow> take_payload E h r;
                   (_, s) \<leftarrow> (if clients then onData payloads (wrap32 (dataSize h + 4)) s else Some (0, s));
                   consume_packages E onData clients r s }) }) }
      else Some (r, s))"

declare consume_packages.simps [code]

text \<open>One turn of the outer loop with what the queue delivers; without a client it waits.\<close>

definition fmq_round :: "env \<Rightarrow> 's listener \<Rightarrow> bool \<Rightarrow> u8 list \<Rightarrow> ringbuffer \<Rightarrow> 's \<Rightarrow> (ringbuffer \<times> 's) option" where
  "fmq_round E onData clients available r s =
     (if \<not> clients then Some (r, s)
      else if available \<noteq> [] \<and> \<not> malloc_ok E (PacketBuffer (int (length available))) then Some (r, s)
      else do {
        (_, r) \<leftarrow> ringbuffer_write r available;
        consume_packages E onData clients r s })"

fun fmq_rounds :: "env \<Rightarrow> 's listener \<Rightarrow> u8 list list \<Rightarrow> ringbuffer \<Rightarrow> 's \<Rightarrow> (ringbuffer \<times> 's) option" where
  "fmq_rounds E onData [] r s = Some (r, s)"
| "fmq_rounds E onData (c # cs) r s = do {
     (r, s) \<leftarrow> fmq_round E onData True c r s;
     fmq_rounds E onData cs r s }"

text \<open>\<open>readLoop\<close>: the ring is created, and the rounds run until the receiver is stopped.\<close>

definition readLoop :: "env \<Rightarrow> 's listener \<Rightarrow> u8 list list \<Rightarrow> 's \<Rightarrow> (bool \<times> 's) option" where
  "readLoop E onData chunks s =
     (case ringbuffer_create E (1024 * 1024) of
        None \<Rightarrow> Some (False, s)
      | Some r \<Rightarrow> do { (r, s) \<leftarrow> fmq_rounds E onData chunks r s; Some (True, s) })"

section \<open>The socket\<close>

record connection =
  bufferHandle :: ringbuffer
  pendingByData :: bool
  curHeader :: IpcPackageHeader

datatype turn = Continue connection | Close int

definition word_XEDC :: int where "word_XEDC = 0x58454443"

text \<open>The header, when enough bytes are there: \<open>None\<close> in the inner option is \<open>continue\<close>.\<close>

definition socket_header :: "env \<Rightarrow> connection \<Rightarrow> (turn + connection) option" where
  "socket_header E c =
     (if pendingByData c then Some (Inr c)
      else if read_avail (bufferHandle c) < header_size then Some (Inl (Continue c))
      else do {
        (_, buffer, r) \<leftarrow> ringbuffer_read E (bufferHandle c) 4;
        (if peekAsSocketWord (cval E) buffer 0 \<noteq> START_FLAG then Some (Inl (Continue (c\<lparr>bufferHandle := r\<rparr>)))
         else do {
           (_, buffer, r) \<leftarrow> ringbuffer_read E r (header_size - 4);
           let h = \<lparr>dataSize = wrap32 (peekAsSocketWord (cval E) buffer 8),
                    pkgType = wrap32 (peekAsSocketWord (cval E) buffer 12)\<rparr>;
           (if pkgType h = eTypeSubtitleExitServ \<or> pkgType h = word_XEDC then Some (Inl (Close (-1)))
            else Some (Inr (c\<lparr>bufferHandle := r, pendingByData := True, curHeader := h\<rparr>))) }) })"

text \<open>The turn with the bytes of one \<open>recv\<close>: at most one package is handed on.\<close>

definition socket_turn :: "env \<Rightarrow> 's listener \<Rightarrow> u8 list \<Rightarrow> connection \<Rightarrow> 's \<Rightarrow> (turn \<times> 's) option" where
  "socket_turn E onData recvBuf c s = do {
     (_, r) \<leftarrow> ringbuffer_write (bufferHandle c) recvBuf;
     t \<leftarrow> socket_header E (c\<lparr>bufferHandle := r\<rparr>);
     (case t of
        Inl t \<Rightarrow> Some (t, s)
      | Inr c \<Rightarrow>
          if read_avail (bufferHandle c) \<ge> dataSize (curHeader c) then
            if \<not> malloc_ok E (Payload (wrap32 (dataSize (curHeader c) + 4))) then Some (Continue c, s)
            else do {
              (payloads, r) \<leftarrow> take_payload E (curHeader c) (bufferHandle c);
              (ret, s) \<leftarrow> onData payloads (wrap32 (dataSize (curHeader c) + 4)) s;
              Some (if ret < 0 then Close (-1) else Continue (c\<lparr>bufferHandle := r, pendingByData := False\<rparr>), s) }
          else Some (Continue c, s)) }"
section \<open>Encoded packages\<close>

type_synonym package = "int \<times> int \<times> u8 list"

fun encode_package :: "package \<Rightarrow> u8 list" where
  "encode_package (session, type, data) =
     le_bytes START_FLAG @ le_bytes session @ le_bytes MAGIC_FLAG @ le_bytes (int (length data)) @ le_bytes type @ data"

fun payload :: "package \<Rightarrow> u8 list" where
  "payload (session, type, data) = le_bytes type @ data"

text \<open>A package has data, fits in the ring with its header, and has a type that is an \<open>int\<close>.\<close>

fun package_ok :: "int \<Rightarrow> package \<Rightarrow> bool" where
  "package_ok n (session, type, data) \<longleftrightarrow> data \<noteq> [] \<and> header_size + int (length data) \<le> n \<and>
     - (2 ^ 31) \<le> type \<and> type < 2 ^ 31"

fun deliver :: "'s listener \<Rightarrow> package list \<Rightarrow> 's \<Rightarrow> 's option" where
  "deliver onData [] s = Some s"
| "deliver onData (p # ps) s = do {
     (_, s) \<leftarrow> onData (payload p) (int (length (payload p))) s;
     deliver onData ps s }"

lemma length_le_bytes [simp]: "length (le_bytes v) = 4"
  by (simp add: le_bytes_def)

lemma peek_le_bytes:
  assumes "drop k buffer = le_bytes v @ rest"
  shows "peekAsSocketWord uint buffer k = v mod 2 ^ 32"
proof -
  have at: "buffer ! (k + i) = le_bytes v ! i" if "i < 4" for i
  proof -
    have "buffer ! (k + i) = drop k buffer ! i" using assms that
      by (metis add.commute append_is_Nil_conv drop_eq_Nil le_add2 length_0_conv length_le_bytes linear nth_drop zero_neq_numeral)
    then show ?thesis using that by (simp add: assms nth_append)
  qed
  have b: "uint (buffer ! k) = take_bit 8 v" "uint (buffer ! (k + 1)) = take_bit 8 (drop_bit 8 v)"
    "uint (buffer ! (k + 2)) = take_bit 8 (drop_bit 16 v)" "uint (buffer ! (k + 3)) = take_bit 8 (drop_bit 24 v)"
    using at [of 0] at [of 1] at [of 2] at [of 3] by (simp_all add: le_bytes_def uint_word_of_int take_bit_eq_mod)
  have "take_bit 32 (((take_bit 8 v OR push_bit 8 (take_bit 8 (drop_bit 8 v))) OR push_bit 16 (take_bit 8 (drop_bit 16 v)))
       OR push_bit 24 (take_bit 8 (drop_bit 24 v))) = take_bit 32 v"
  proof (rule bit_eqI)
    fix n :: nat
    consider "n < 8" | "8 \<le> n" "n < 16" | "16 \<le> n" "n < 24" | "24 \<le> n" "n < 32" | "32 \<le> n" by linarith
    then show "bit (take_bit 32 (((take_bit 8 v OR push_bit 8 (take_bit 8 (drop_bit 8 v))) OR push_bit 16 (take_bit 8 (drop_bit 16 v)))
       OR push_bit 24 (take_bit 8 (drop_bit 24 v)))) n = bit (take_bit 32 v) n"
      by cases (simp_all add: bit_simps, auto)
  qed
  then show ?thesis unfolding peekAsSocketWord_def b u32_of_def by (simp only: take_bit_eq_mod)
qed

lemma length_encode_package: "length (encode_package (session, type, data)) = 20 + length data"
  by simp

lemma package_header:
  assumes "take 20 buffer = take 20 (encode_package (session, type, data))" "20 \<le> length buffer"
  shows "peekAsSocketWord uint buffer 0 = START_FLAG"
    "peekAsSocketWord uint buffer 12 = int (length data) mod 2 ^ 32"
    "peekAsSocketWord uint buffer 16 = type mod 2 ^ 32"
proof -
  obtain rest where b: "buffer = le_bytes START_FLAG @ le_bytes session @ le_bytes MAGIC_FLAG @
      le_bytes (int (length data)) @ le_bytes type @ rest"
  proof
    show "buffer = le_bytes START_FLAG @ le_bytes session @ le_bytes MAGIC_FLAG @
        le_bytes (int (length data)) @ le_bytes type @ drop 20 buffer"
      using append_take_drop_id [of 20 buffer] unfolding assms(1) by simp
  qed
  show "peekAsSocketWord uint buffer 0 = START_FLAG"
    by (subst peek_le_bytes [of _ _ START_FLAG]) (simp_all add: b START_FLAG_def)
  show "peekAsSocketWord uint buffer 12 = int (length data) mod 2 ^ 32"
    by (rule peek_le_bytes) (simp add: b)
  show "peekAsSocketWord uint buffer 16 = type mod 2 ^ 32"
    by (rule peek_le_bytes) (simp add: b)
qed
section \<open>Packages are delivered\<close>

lemma wrap32_mod: "wrap32 (x mod 2 ^ 32) = wrap32 x"
  by (simp add: wrap32_eq_iff)

lemma take_payload_yields:
  assumes "ring_inv r" "ring_contents r = data @ rest" "header_size + int (length data) \<le> rb_size r"
    "h = \<lparr>dataSize = int (length data), pkgType = type\<rparr>"
  shows "yields (\<lambda>(pl, r'). pl = le_bytes type @ data \<and> ring_inv r' \<and> rb_size r' = rb_size r \<and> ring_contents r' = rest)
    (take_payload E h r)"
proof -
  have n: "int (length data) < rb_size r" "rb_size r < 2 ^ 31" "int (length data) + 4 < 2 ^ 31"
    using assms(1,3) by (simp_all add: header_size_def ring_inv_def)
  let ?buf = "map (stray E) [0..<length data + 4]"
  have w: "wrap32 (int (length data) + 4) = int (length data) + 4"
    using n(3) by (intro wrap32_id) simp_all
  have size: "nat (size_of (wrap32 (int (length data) + 4))) = length data + 4"
    unfolding w using n(3) by (simp add: nat_add_distrib)
  obtain r' where r': "ringbuffer_read E r (int (length data)) = Some (int (length data), data, r')"
    "ring_inv r'" "rb_size r' = rb_size r" "ring_contents r' = rest"
  proof -
    have "min (int (length data)) (read_avail r) = int (length data)"
      using length_ring_contents [OF assms(1)] by (simp add: assms(2))
    then show ?thesis
      using ringbuffer_read_queue [OF assms(1) n(1), of E] that by (auto simp: assms(2) elim!: yieldsE)
  qed
  have p1: "put_bytes 0 (le_bytes type) ?buf = Some (le_bytes type @ drop 4 ?buf)"
    by (simp add: put_bytes_def)
  have p2: "put_bytes 4 data (le_bytes type @ drop 4 ?buf) = Some (le_bytes type @ data)"
    by (simp add: put_bytes_def)
  show ?thesis using r' p1 p2 unfolding take_payload_def assms(4) by (simp add: size)
qed

lemma header_in_ring:
  assumes "ring_inv r" "ring_contents r = xs" "20 \<le> length xs" "20 < rb_size r"
  shows "ringbuffer_peek E r header_size = Some (20, take 20 xs)"
proof -
  have "min header_size (read_avail r) = 20"
    using length_ring_contents [OF assms(1)] assms(2,3) by (simp add: header_size_def)
  then show ?thesis using ringbuffer_peek_queue [OF assms(1), of header_size E] assms(2,4) by (simp add: header_size_def)
qed

lemma consume_package:
  assumes "ring_inv r" "ring_contents r = encode_package p @ rest" "package_ok (rb_size r) p" "cval E = uint"
    "\<forall>q. malloc_ok E q"
  obtains r1 where "consume_packages E onData True r s
      = do { (_, s) \<leftarrow> onData (payload p) (int (length (payload p))) s; consume_packages E onData True r1 s }"
    "ring_inv r1" "rb_size r1 = rb_size r" "ring_contents r1 = rest"
proof -
  obtain session type data where p: "p = (session, type, data)" by (cases p) auto
  have ok: "data \<noteq> []" "header_size + int (length data) \<le> rb_size r" "- (2 ^ 31) \<le> type" "type < 2 ^ 31"
    using assms(3) by (simp_all add: p)
  have "20 < rb_size r" using ok(1,2) by (cases data) (simp_all add: header_size_def)
  moreover have "rb_size r < 2 ^ 31" using assms(1) by (simp add: ring_inv_def)
  ultimately have size: "20 < rb_size r" "rb_size r < 2 ^ 31" by simp_all
  have avail: "read_avail r = 20 + int (length data) + int (length rest)"
    using length_ring_contents [OF assms(1)] by (simp add: assms(2) p)
  have peek: "ringbuffer_peek E r header_size = Some (20, take 20 (encode_package p))"
    using header_in_ring [OF assms(1,2) _ size(1), of E] by (simp add: p)
  note hdr = package_header [of "take 20 (encode_package p)" session type data]
  have hdr: "peekAsSocketWord uint (take 20 (encode_package p)) 0 = START_FLAG"
    "wrap32 (peekAsSocketWord uint (take 20 (encode_package p)) 12) = int (length data)"
    "wrap32 (peekAsSocketWord uint (take 20 (encode_package p)) 16) = type"
  proof -
    have pre: "take 20 (take 20 (encode_package p)) = take 20 (encode_package (session, type, data))"
      "20 \<le> length (take 20 (encode_package p))" by (simp_all add: p)
    have len: "int (length data) < 2 ^ 31" using ok(2) size(2) by (simp add: header_size_def)
    show "peekAsSocketWord uint (take 20 (encode_package p)) 0 = START_FLAG" by (rule hdr(1) [OF pre])
    show "wrap32 (peekAsSocketWord uint (take 20 (encode_package p)) 12) = int (length data)"
      unfolding hdr(2) [OF pre] wrap32_mod using len by simp
    show "wrap32 (peekAsSocketWord uint (take 20 (encode_package p)) 16) = type"
      unfolding hdr(3) [OF pre] wrap32_mod using ok(3,4) by simp
  qed
  obtain n bs r0 where r0: "ringbuffer_read E r header_size = Some (n, bs, r0)" "ring_inv r0" "rb_size r0 = rb_size r"
    "ring_contents r0 = data @ rest"
    using ringbuffer_read_queue [OF assms(1), of header_size E] size(1)
    by (auto simp: header_size_def assms(2) p elim!: yieldsE)
  let ?h = "\<lparr>dataSize = int (length data), pkgType = type\<rparr>"
  obtain r1 where r1: "take_payload E ?h r0 = Some (payload p, r1)" "ring_inv r1" "rb_size r1 = rb_size r" "ring_contents r1 = rest"
    using take_payload_yields [OF r0(2,4) _ refl, of type E] ok(2) r0(3) by (auto simp: p elim!: yieldsE)
  have len: "wrap32 (int (length data) + 4) = int (length (payload p))"
    using ok(2) size(2) by (simp add: p header_size_def)
  have so: "size_of (header_size + int (length data)) = 20 + int (length data)"
    using ok(2) size(2) by (simp add: header_size_def)
  have gt: "read_avail r > header_size" using ok(1) unfolding avail header_size_def by (cases data) simp_all
  have "consume_packages E onData True r s
      = do { (_, s) \<leftarrow> onData (payload p) (int (length (payload p))) s; consume_packages E onData True r1 s }"
    using gt peek hdr r0(1) r1(1) assms(4,5) avail
    by (subst consume_packages.simps) (simp add: Let_def len so)
  then show ?thesis using r1(2-4) by (rule that)
qed
text \<open>What stays in the ring is a proper part of the next package.\<close>

definition settled :: "u8 list \<Rightarrow> package list \<Rightarrow> bool" where
  "settled xs ps \<longleftrightarrow> (case ps of [] \<Rightarrow> xs = [] | p # _ \<Rightarrow> length xs < length (encode_package p))"

lemma consume_incomplete:
  assumes "ring_inv r" "ring_contents r = take k (encode_package p)" "k < length (encode_package p)"
    "package_ok (rb_size r) p" "cval E = uint"
  shows "consume_packages E onData c r s = Some (r, s)"
proof -
  obtain session type data where p: "p = (session, type, data)" by (cases p) auto
  have ok: "data \<noteq> []" "header_size + int (length data) \<le> rb_size r" using assms(4) by (simp_all add: p)
  have k: "k < 20 + length data" using assms(3) by (simp add: p)
  have avail: "read_avail r = int k"
    using length_ring_contents [OF assms(1)] assms(3) by (simp add: assms(2))
  have size: "rb_size r < 2 ^ 31" using assms(1) by (simp add: ring_inv_def)
  show ?thesis
  proof (cases "k \<le> 20")
    case True
    then show ?thesis using avail by (subst consume_packages.simps) (simp add: header_size_def)
  next
    case False
    have "20 < rb_size r" using ok by (cases data) (simp_all add: header_size_def)
    then have peek: "ringbuffer_peek E r header_size = Some (20, take 20 (take k (encode_package p)))"
      using header_in_ring [OF assms(1,2), of E] False k by (simp add: p)
    have pre: "take 20 (take 20 (take k (encode_package p))) = take 20 (encode_package (session, type, data))"
      "20 \<le> length (take 20 (take k (encode_package p)))" using False k by (simp_all add: p min_def)
    have "wrap32 (peekAsSocketWord uint (take 20 (take k (encode_package p))) 12) = int (length data)"
      unfolding package_header(2) [OF pre] wrap32_mod using ok(2) size by (simp add: header_size_def)
    moreover have "size_of (header_size + int (length data)) = 20 + int (length data)"
      using ok(2) size by (simp add: header_size_def)
    ultimately show ?thesis
      using False avail peek package_header(1) [OF pre] assms(5) k
      by (subst consume_packages.simps) (simp add: Let_def header_size_def)
  qed
qed

lemma consume_packages_list:
  assumes "ring_inv r" "ring_contents r = concat (map encode_package qs) @ rest" "settled rest ps"
    "rest @ later = concat (map encode_package ps)" "\<forall>p \<in> set qs \<union> set ps. package_ok (rb_size r) p"
    "cval E = uint" "\<forall>q. malloc_ok E q" "deliver onData qs s = Some s'"
  shows "yields (\<lambda>(r', t). t = s' \<and> ring_inv r' \<and> rb_size r' = rb_size r \<and> ring_contents r' = rest)
    (consume_packages E onData True r s)"
  using assms(1,2,5,8)
proof (induction qs arbitrary: r s)
  case Nil
  show ?case
  proof (cases ps)
    case Nil
    then have "read_avail r = 0" using assms(3) length_ring_contents [OF Nil.prems(1)] Nil.prems(2) by (simp add: settled_def)
    then have "consume_packages E onData True r s = Some (r, s)"
      by (subst consume_packages.simps) (simp add: header_size_def)
    then show ?thesis using Nil.prems by simp
  next
    case (Cons p ps')
    then have len: "length rest < length (encode_package p)" using assms(3) by (simp add: settled_def)
    moreover have "rest = take (length rest) (encode_package p)"
      using assms(4) len by (simp only: Cons list.map concat.simps) (auto simp: append_eq_append_conv_if dest: less_imp_le)
    ultimately have "consume_packages E onData True r s = Some (r, s)"
      using Nil.prems Cons assms(6) by (intro consume_incomplete [where k = "length rest" and p = p]) auto
    then show ?thesis using Nil.prems by simp
  qed
next
  case (Cons q qs)
  have c: "ring_contents r = encode_package q @ (concat (map encode_package qs) @ rest)" "package_ok (rb_size r) q"
    using Cons.prems(2,3) by auto
  obtain r1 where r1: "consume_packages E onData True r s
      = do { (_, s) \<leftarrow> onData (payload q) (int (length (payload q))) s; consume_packages E onData True r1 s }"
    "ring_inv r1" "rb_size r1 = rb_size r" "ring_contents r1 = concat (map encode_package qs) @ rest"
    by (rule consume_package [where onData = onData and s = s, OF Cons.prems(1) c assms(6,7)])
  obtain v s1 where s1: "onData (payload q) (int (length (payload q))) s = Some (v, s1)" "deliver onData qs s1 = Some s'"
    using Cons.prems(4) by (auto split: bind_splits)
  have "\<forall>p \<in> set qs \<union> set ps. package_ok (rb_size r1) p" using Cons.prems(3) r1(3) by simp
  from Cons.IH [OF r1(2,4) this s1(2)] show ?case using s1(1) r1(1,3) by simp
qed

lemma split_stream:
  assumes "xs @ ys = concat (map encode_package ps)"
  obtains qs ps' rest where "ps = qs @ ps'" "xs = concat (map encode_package qs) @ rest" "settled rest ps'"
    "rest @ ys = concat (map encode_package ps')"
  using assms
proof (induction ps arbitrary: xs thesis)
  case Nil
  show ?case by (rule Nil.prems(1) [of "[]" "[]" "[]"]) (use Nil.prems(2) in \<open>simp_all add: settled_def\<close>)
next
  case (Cons p ps)
  show ?case
  proof (cases "length xs < length (encode_package p)")
    case True
    show ?thesis by (rule Cons.prems(1) [of "[]" "p # ps" xs]) (use True Cons.prems(2) in \<open>simp_all add: settled_def\<close>)
  next
    case False
    define zs where "zs = drop (length (encode_package p)) xs"
    have "take (length (encode_package p)) xs = encode_package p"
      using arg_cong [OF Cons.prems(2), of "take (length (encode_package p))"] False by simp
    then have zs: "xs = encode_package p @ zs"
      using append_take_drop_id [of "length (encode_package p)" xs] by (simp add: zs_def)
    then have "zs @ ys = concat (map encode_package ps)" using Cons.prems(2) by simp
    from Cons.IH [OF _ this] obtain qs ps' rest where "ps = qs @ ps'" "zs = concat (map encode_package qs) @ rest"
      "settled rest ps'" "rest @ ys = concat (map encode_package ps')" by metis
    then show ?thesis by (intro Cons.prems(1) [of "p # qs" ps' rest]) (simp_all add: zs)
  qed
qed
lemma deliver_append: "deliver L (ps @ qs) s = do { s \<leftarrow> deliver L ps s; deliver L qs s }"
proof (induction ps arbitrary: s)
  case (Cons p ps)
  then show ?case by (cases "L (payload p) (int (length (payload p))) s") auto
qed simp

lemma fmq_rounds_deliver:
  assumes "ring_inv r" "settled (ring_contents r) ps"
    "ring_contents r @ concat chunks = concat (map encode_package ps)" "\<forall>p \<in> set ps. package_ok (rb_size r) p"
    "\<forall>p \<in> set ps. \<forall>c \<in> set chunks. int (length (encode_package p)) + int (length c) \<le> rb_size r"
    "cval E = uint" "\<forall>q. malloc_ok E q" "deliver onData ps s = Some s'"
  shows "yields (\<lambda>(r', t). t = s' \<and> ring_inv r' \<and> rb_size r' = rb_size r \<and> ring_contents r' = []) (fmq_rounds E onData chunks r s)"
  using assms(1-5,8)
proof (induction chunks arbitrary: r ps s)
  case Nil
  then have "ps = []" by (cases ps) (auto simp: settled_def)
  then show ?case using Nil.prems by (simp add: settled_def)
next
  case (Cons c cs)
  have room: "int (length c) \<le> write_avail r" if ne: "ps \<noteq> []"
  proof -
    obtain p where p: "p \<in> set ps" "length (ring_contents r) < length (encode_package p)"
      using Cons.prems(2) ne by (cases ps) (auto simp: settled_def)
    have "int (length (encode_package p)) + int (length c) \<le> rb_size r" using Cons.prems(5) p(1) by simp
    then show ?thesis using p(2) length_ring_contents [OF Cons.prems(1)] Cons.prems(1) by (simp add: ring_inv_def)
  qed
  have "int (length c) \<le> write_avail r"
  proof (cases "ps = []")
    case True
    then have "c = []" using Cons.prems(3) by simp
    then show ?thesis using Cons.prems(1) by (simp add: ring_inv_def)
  qed (rule room)
  then have n: "min (int (length c)) (write_avail r) = int (length c)" by simp
  obtain r1 where r1: "ringbuffer_write r c = Some (int (length c), r1)" "ring_inv r1" "rb_size r1 = rb_size r"
    "ring_contents r1 = ring_contents r @ c"
    using ringbuffer_write_queue [OF Cons.prems(1), of c] unfolding n by (auto elim!: yieldsE)
  have "(ring_contents r @ c) @ concat cs = concat (map encode_package ps)" using Cons.prems(3) by simp
  from split_stream [OF this] obtain qs ps' rest where split: "ps = qs @ ps'"
    "ring_contents r @ c = concat (map encode_package qs) @ rest" "settled rest ps'"
    "rest @ concat cs = concat (map encode_package ps')" by metis
  obtain s1 where s1: "deliver onData qs s = Some s1" "deliver onData ps' s1 = Some s'"
    using Cons.prems(6) by (auto simp: split(1) deliver_append split: bind_splits)
  have "yields (\<lambda>(r', t). t = s1 \<and> ring_inv r' \<and> rb_size r' = rb_size r1 \<and> ring_contents r' = rest)
      (consume_packages E onData True r1 s)"
    by (rule consume_packages_list [OF r1(2) _ split(3,4) _ assms(6,7) s1(1)])
      (use r1(3,4) split(1,2) Cons.prems(4) in auto)
  then obtain r2 where r2: "consume_packages E onData True r1 s = Some (r2, s1)" "ring_inv r2" "rb_size r2 = rb_size r"
    "ring_contents r2 = rest" using r1(3) by (auto elim: yieldsE)
  have round: "fmq_round E onData True c r s = Some (r2, s1)"
    using r1(1) r2(1) assms(7) by (simp add: fmq_round_def)
  have "yields (\<lambda>(r', t). t = s' \<and> ring_inv r' \<and> rb_size r' = rb_size r2 \<and> ring_contents r' = []) (fmq_rounds E onData cs r2 s1)"
    by (rule Cons.IH) (use r2 split Cons.prems(4,5) s1(2) in auto)
  then show ?case using round r2(3) by simp
qed

lemma readLoop_delivers:
  assumes "concat chunks = concat (map encode_package ps)"
    "\<forall>p \<in> set ps. package_ok (1024 * 1024) p"
    "\<forall>p \<in> set ps. \<forall>c \<in> set chunks. int (length (encode_package p)) + int (length c) \<le> 1024 * 1024"
    "cval E = uint" "\<forall>q. malloc_ok E q" "deliver onData ps s = Some s'"
  shows "readLoop E onData chunks s = Some (True, s')"
proof -
  obtain r where r: "ringbuffer_create E (1024 * 1024) = Some r" "ring_inv r" "rb_size r = 1024 * 1024" "ring_contents r = []"
    using ringbuffer_create_queue [of "1024 * 1024" E] assms(5) by (auto elim!: yieldsE)
  have "encode_package p \<noteq> []" for p by (cases p) (simp add: le_bytes_def)
  then have "settled (ring_contents r) ps" using r(4) by (simp add: settled_def split: list.split)
  then have "yields (\<lambda>(r', t). t = s' \<and> ring_inv r' \<and> rb_size r' = rb_size r \<and> ring_contents r' = []) (fmq_rounds E onData chunks r s)"
    using r assms by (intro fmq_rounds_deliver) simp_all
  then show ?thesis using r(1) by (auto simp: readLoop_def elim!: yieldsE)
qed

section \<open>A header that blocks the receiver\<close>

text \<open>
  A header that announces more than the ring can hold is never consumed: the ring fills, later
  bytes are dropped, and nothing is delivered any more.
\<close>

definition blocked :: "env \<Rightarrow> ringbuffer \<Rightarrow> bool" where
  "blocked E r \<longleftrightarrow> ring_inv r \<and> 20 < read_avail r \<and> 20 < rb_size r \<and>
     peekAsSocketWord (cval E) (take 20 (ring_contents r)) 0 = START_FLAG \<and>
     rb_size r < size_of (header_size + wrap32 (peekAsSocketWord (cval E) (take 20 (ring_contents r)) 12))"

lemma blocked_round:
  assumes "blocked E r"
  shows "yields (\<lambda>(r', t). t = s \<and> blocked E r') (fmq_round E onData c chunk r s)"
proof -
  have inv: "ring_inv r" "20 < read_avail r" "20 < rb_size r" using assms by (simp_all add: blocked_def)
  obtain n r1 where r1: "ringbuffer_write r chunk = Some (n, r1)" "ring_inv r1" "rb_size r1 = rb_size r"
    "ring_contents r1 = ring_contents r @ take (nat n) chunk"
    using ringbuffer_write_queue [OF inv(1), of chunk] by (auto elim!: yieldsE)
  have len: "20 \<le> length (ring_contents r)" using inv(2) length_ring_contents [OF inv(1)] by simp
  then have pre: "take 20 (ring_contents r1) = take 20 (ring_contents r)" by (simp add: r1(4))
  have more_avail: "20 < read_avail r1" "read_avail r1 \<le> rb_size r1"
    using length_ring_contents [OF r1(2)] length_ring_contents [OF inv(1)] inv(2) r1(2) by (simp_all add: r1(4) ring_inv_def)
  have b: "blocked E r1" using assms r1(2,3) more_avail by (simp add: blocked_def pre)
  have "ringbuffer_peek E r1 header_size = Some (20, take 20 (ring_contents r1))"
    using r1(3) inv(3) len by (intro header_in_ring [OF r1(2) refl]) (simp_all add: r1(4))
  moreover have "read_avail r1 < size_of (header_size + wrap32 (peekAsSocketWord (cval E) (take 20 (ring_contents r1)) 12))"
    using b more_avail(2) unfolding blocked_def by linarith
  ultimately have "consume_packages E onData True r1 s = Some (r1, s)"
    using b more_avail(1) by (subst consume_packages.simps) (simp add: Let_def header_size_def blocked_def)
  then show ?thesis using assms b r1(1) by (cases c) (simp_all add: fmq_round_def)
qed

lemma blocked_rounds:
  assumes "blocked E r"
  shows "yields (\<lambda>(r', t). t = s \<and> blocked E r') (fmq_rounds E onData chunks r s)"
  using assms
proof (induction chunks arbitrary: r)
  case (Cons c cs)
  obtain r1 where "fmq_round E onData True c r s = Some (r1, s)" "blocked E r1"
    using blocked_round [OF Cons.prems, of s onData True c] by (auto elim!: yieldsE)
  then show ?case using Cons.IH [of r1] by simp
qed simp

end
