(* ===== verification/External_Source.thy ===== *)
theory External_Source
  imports Ipc
begin

text \<open>
  The data sources behind the channels, \<open>io/ExternalDataSource.cpp\<close> and
  \<open>io/SocketSource.cpp\<close>: a package's type word selects what its data is, the subtitle
  stream itself goes to the byte queue of the parser.

  Each of the registered listeners is told of a change; the calls are recorded in order.
\<close>

datatype info =
    onRenderTimeChanged int
  | onSubtitleChanged int
  | onRenderStartTimestamp int
  | onTypeChanged int

record ExternalDataSource = Source +
  mTotalSubtitle :: int
  mSubtitleType :: int
  mRenderTimeUs :: int
  mStartPts :: int
  mLanguage :: "u8 list"
  mStopped :: bool
  mInfoListeners :: nat
  told :: "info list"

definition new_external :: ExternalDataSource where
  "new_external = \<lparr>mSegments = [], mAvailableDataSize = 0, mEnabled = True, mCurrentItem = None, mStarted = False,
     mTotalSubtitle = -1, mSubtitleType = -1, mRenderTimeUs = 0, mStartPts = 0, mLanguage = [], mStopped = False,
     mInfoListeners = 0, told = []\<rparr>"

definition start_source :: "ExternalDataSource \<Rightarrow> ExternalDataSource" where
  "start_source s = s\<lparr>mStarted := True, mStopped := False\<rparr>"

definition stop_source :: "ExternalDataSource \<Rightarrow> ExternalDataSource" where
  "stop_source s = s\<lparr>mStarted := False, mStopped := True, mEnabled := False, mAvailableDataSize := 0\<rparr>"

section \<open>Packages\<close>

text \<open>The values of a payload; a payload that is too short is read past its end.\<close>

definition make32bitValue :: "env \<Rightarrow> mem \<Rightarrow> nat \<Rightarrow> int" where
  "make32bitValue E m p =
     u32_of (((cval E (m p) OR push_bit 8 (cval E (m (p + 1)))) OR push_bit 16 (cval E (m (p + 2))))
       OR push_bit 24 (cval E (m (p + 3))))"

definition make64bitValue :: "env \<Rightarrow> mem \<Rightarrow> nat \<Rightarrow> int" where
  "make64bitValue E m p = push_bit 32 (make32bitValue E m (p + 4)) OR make32bitValue E m p"

text \<open>The string at \<open>p\<close>, up to the first zero byte wherever it is.\<close>

partial_function (option) c_string :: "mem \<Rightarrow> nat \<Rightarrow> u8 list option" where
  "c_string m p = (if m p = 0 then Some [] else do { rest \<leftarrow> c_string m (p + 1); Some (m p # rest) })"

declare c_string.simps [code]

definition notifyInfoChange :: "int \<Rightarrow> ExternalDataSource \<Rightarrow> ExternalDataSource" where
  "notifyInfoChange type s =
     (let tell = (\<lambda>i. s\<lparr>told := told s @ replicate (mInfoListeners s) i\<rparr>) in
      if mStopped s then s
      else if type = eTypeSubtitleRenderTime then tell (onRenderTimeChanged (signed_take_bit 63 (mRenderTimeUs s)))
      else if type = eTypeSubtitleTotal then tell (onSubtitleChanged (mTotalSubtitle s))
      else if type = eTypeSubtitleStartPts then tell (onRenderStartTimestamp (signed_take_bit 63 (mStartPts s)))
      else if type = eTypeSubtitleType then tell (onTypeChanged (mSubtitleType s))
      else s)"

text \<open>\<open>mSegment->push\<close> of a copy; a negative size is refused by \<open>new[]\<close>.\<close>

definition push_copy :: "mem \<Rightarrow> nat \<Rightarrow> int \<Rightarrow> ExternalDataSource \<Rightarrow> ExternalDataSource option" where
  "push_copy m p n s =
     (if n < 0 then None
      else if n = 0 then Some s
      else Some (s\<lparr>mSegments := mSegments s @ [new_item (bytes_from m p (nat n))],
                   mAvailableDataSize := mAvailableDataSize s + n\<rparr>))"

text \<open>\<open>onData\<close>; the flag tells the source that keeps the language from the one that does not.\<close>

definition onData :: "bool \<Rightarrow> env \<Rightarrow> ExternalDataSource listener" where
  "onData lang E buffer len s =
     (let m = packet_mem E buffer; type = wrap32 (make32bitValue E m 0) in do {
        s \<leftarrow> (if type = eTypeSubtitleRenderTime then Some (s\<lparr>mRenderTimeUs := make64bitValue E m 4\<rparr>)
          else if type = eTypeSubtitleTotal then Some (s\<lparr>mTotalSubtitle := wrap32 (make32bitValue E m 4)\<rparr>)
          else if type = eTypeSubtitleStartPts then Some (s\<lparr>mStartPts := make64bitValue E m 4\<rparr>)
          else if type = eTypeSubtitleType then Some (s\<lparr>mSubtitleType := wrap32 (make32bitValue E m 4)\<rparr>)
          else if type = eTypeSubtitleData then
            (if mTotalSubtitle s \<noteq> -1 \<or> mSubtitleType s \<noteq> -1 then push_copy m 4 (len - 4) s else Some s)
          else if type = eTypeSubtitleLangString \<and> lang then do { str \<leftarrow> c_string m 4; Some (s\<lparr>mLanguage := str\<rparr>) }
          else if type \<in> {eTypeSubtitleLangString, eTypeSubtitleTypeString, eTypeSubtitleResetServ, eTypeSubtitleExitServ}
            then Some s
          else push_copy m 0 len s);
        Some (0, notifyInfoChange type s) })"
text \<open>The socket's source forgets the language.\<close>

definition socket_onData :: "env \<Rightarrow> ExternalDataSource listener" where
  "socket_onData = onData False"

section \<open>The parser's end\<close>

text \<open>The sources see the queue through the fields they share; they read it as the device source does.\<close>

abbreviation queue_of :: "ExternalDataSource \<Rightarrow> Source" where
  "queue_of s \<equiv> Source.truncate s"

lemma queue_of_simps [simp]:
  "mSegments (queue_of s) = mSegments s" "mCurrentItem (queue_of s) = mCurrentItem s" "mStarted (queue_of s) = mStarted s"
  "mAvailableDataSize (queue_of s) = mAvailableDataSize s"
  by (simp_all add: Source.truncate_def)

definition external_read :: "ExternalDataSource reader" where
  "external_read n s = do {
     (bs, q) \<leftarrow> device_read n (queue_of s);
     Some (bs, s\<lparr>mSegments := mSegments q, mAvailableDataSize := mAvailableDataSize q, mEnabled := mEnabled q,
       mCurrentItem := mCurrentItem q, mStarted := mStarted q\<rparr>) }"

text \<open>What is queued, with the rest of the buffer that is being read.\<close>

definition external_available :: "ExternalDataSource \<Rightarrow> int" where
  "external_available s =
     mAvailableDataSize s + (case mCurrentItem s of None \<Rightarrow> 0 | Some item \<Rightarrow> mRemainSize item)"

interpretation external: byte_source external_read "\<lambda>s. source_pending (queue_of s)" "\<lambda>s. source_live (queue_of s)"
proof
  fix s n assume h: "source_live (queue_of s)" "n < (2 :: nat) ^ 31" "n \<le> length (source_pending (queue_of s))"
  show "yields (\<lambda>(bs, s'). bs = take n (source_pending (queue_of s)) \<and>
      source_pending (queue_of s') = drop n (source_pending (queue_of s)) \<and> source_live (queue_of s')) (external_read n s)"
    using device.rd_enough [OF h] by (auto simp: external_read_def source_pending_def source_live_def elim!: yieldsE)
qed

section \<open>Subtitle data reaches the parser\<close>

lemma package_type:
  assumes "cval E = uint" "- (2 ^ 31) \<le> type" "type < 2 ^ 31"
  shows "wrap32 (make32bitValue E (packet_mem E (le_bytes type @ data)) 0) = type"
proof -
  have "make32bitValue E (packet_mem E (le_bytes type @ data)) 0 = peekAsSocketWord uint (le_bytes type @ data) 0"
    using assms(1) by (simp add: make32bitValue_def peekAsSocketWord_def packet_mem_def)
  also have "\<dots> = type mod 2 ^ 32" by (rule peek_le_bytes) simp
  finally show ?thesis using assms(2,3) by (simp only: wrap32_mod) simp
qed

text \<open>A track is announced: its number or its type is known.\<close>

definition announced :: "ExternalDataSource \<Rightarrow> bool" where
  "announced s \<longleftrightarrow> mTotalSubtitle s \<noteq> -1 \<or> mSubtitleType s \<noteq> -1"

lemma onData_data:
  assumes "cval E = uint" "announced s" "data \<noteq> []" "length data < 2 ^ 31" "source_live (queue_of s)"
  shows "yields (\<lambda>(ret, s'). ret = 0 \<and> announced s' \<and> source_live (queue_of s') \<and>
      source_pending (queue_of s') = source_pending (queue_of s) @ data \<and> told s' = told s \<and>
      mAvailableDataSize s' = mAvailableDataSize s + int (length data) \<and> mCurrentItem s' = mCurrentItem s)
    (onData lang E (le_bytes eTypeSubtitleData @ data) (int (length (le_bytes eTypeSubtitleData @ data))) s)"
proof -
  have type: "wrap32 (make32bitValue E (packet_mem E (le_bytes eTypeSubtitleData @ data)) 0) = eTypeSubtitleData"
    using assms(1) by (rule package_type) (simp_all add: package_types)
  have "bytes_from (packet_mem E (le_bytes eTypeSubtitleData @ data)) 4 (length data) = data"
    by (intro nth_equalityI) (simp_all add: bytes_from_def packet_mem_def nth_append)
  then show ?thesis
    using assms(2-5) unfolding onData_def type Let_def
    by (auto simp: push_copy_def announced_def notifyInfoChange_def package_types source_live_def source_pending_def
        new_item_def item_ok_def item_rest_def)
qed

lemma deliver_data:
  assumes "cval E = uint" "\<forall>p \<in> set ps. \<exists>session data. p = (session, eTypeSubtitleData, data) \<and> data \<noteq> [] \<and> length data < 2 ^ 31"
    "announced s" "source_live (queue_of s)"
  shows "yields (\<lambda>s'. announced s' \<and> source_live (queue_of s') \<and>
      source_pending (queue_of s') = source_pending (queue_of s) @ concat (map (\<lambda>(session, type, data). data) ps) \<and>
      external_available s' = external_available s + int (length (concat (map (\<lambda>(session, type, data). data) ps))) \<and>
      told s' = told s) (deliver (onData lang E) ps s)"
  using assms(2-4)
proof (induction ps arbitrary: s)
  case (Cons p ps)
  then obtain session data where p: "p = (session, eTypeSubtitleData, data)" "data \<noteq> []" "length data < 2 ^ 31" by auto
  have "\<forall>p \<in> set ps. \<exists>session data. p = (session, eTypeSubtitleData, data) \<and> data \<noteq> [] \<and> length data < 2 ^ 31"
    using Cons.prems(1) by simp
  note IH = Cons.IH [OF this]
  show ?case
    using onData_data [OF assms(1) Cons.prems(2) p(2,3) Cons.prems(3), of lang] IH
    by (fastforce simp: p(1) external_available_def elim!: yieldsE)
qed simp

end
