(* ===== verification/Ipc_Properties.thy ===== *)
theory Ipc_Properties
  imports External_Source
begin

text \<open>
  The properties of the channels, with the concrete data that witnesses them.
\<close>

section \<open>Concrete data\<close>

definition ipc_env :: env where
  "ipc_env = \<lparr>malloc_ok = (\<lambda>_. True), stray = (\<lambda>_. 0xaa), cval = uint, asserts = True\<rparr>"

definition small_ring :: ringbuffer where
  "small_ring = \<lparr>rb_buffer = replicate 32 0, rb_size = 32, read_pos = 30, write_pos = 30, read_avail = 0, write_avail = 32\<rparr>"

lemma small_ring_inv: "ring_inv small_ring" "ring_contents small_ring = []" "rb_size small_ring = 32"
  by (simp_all add: small_ring_def ring_inv_def ring_contents_def)

definition open_source :: ExternalDataSource where
  "open_source = start_source (new_external\<lparr>mTotalSubtitle := 2\<rparr>)"

lemma open_source_ready: "announced open_source" "source_live (queue_of open_source)" "source_pending (queue_of open_source) = []"
  by (simp_all add: open_source_def announced_def start_source_def new_external_def source_live_def source_pending_def)

text \<open>A ring that holds a header with the size \<open>n\<close> and one byte more.\<close>

definition header_ring :: "int \<Rightarrow> ringbuffer" where
  "header_ring n = \<lparr>rb_buffer = le_bytes START_FLAG @ le_bytes 1 @ le_bytes MAGIC_FLAG @ le_bytes n @ le_bytes eTypeSubtitleData
       @ [0] @ replicate 11 0, rb_size = 32, read_pos = 0, write_pos = 21, read_avail = 21, write_avail = 11\<rparr>"

lemma header_ring_state:
  "ring_inv (header_ring n)" "rb_size (header_ring n) = 32"
  "ring_contents (header_ring n) = le_bytes START_FLAG @ le_bytes 1 @ le_bytes MAGIC_FLAG @ le_bytes n @ le_bytes eTypeSubtitleData @ [0]"
  by (simp_all add: header_ring_def ring_inv_def ring_contents_def ring_at_def le_bytes_def upt_rec nth_Cons')

section \<open>The ring\<close>

text \<open>
  C38. The ring refines a queue of bytes of bounded capacity: over any sequence of writes and
  reads, in whatever sizes, the bytes that were accepted are the bytes that were delivered
  followed by those that the ring still holds, and no access leaves its buffer.
\<close>

theorem ring_is_fifo:
  assumes "ring_inv r" "ring_contents r = []" "\<forall>p \<in> set ops. op_ok (rb_size r) p"
  shows "yields (\<lambda>(acc, del, r'). acc = del @ ring_contents r' \<and> int (length acc) - int (length del) \<le> rb_size r)
    (run_ops ringbuffer_write (ringbuffer_read E) ops r)"
  by (rule ring.run_lossless [OF assms])

theorem ring_is_fifo_witness:
  "yields (\<lambda>(acc, del, r'). acc = del @ ring_contents r' \<and> int (length acc) - int (length del) \<le> 32)
    (run_ops ringbuffer_write (ringbuffer_read ipc_env) [Write [1, 2, 3, 4, 5], Read 4, Write (replicate 40 7), Read 31] small_ring)"
proof -
  have "\<forall>p \<in> set [Write [1, 2, 3, 4, 5], Read 4, Write (replicate 40 7), Read 31]. op_ok (rb_size small_ring) p"
    by (simp add: small_ring_inv)
  from ring_is_fifo [OF small_ring_inv(1,2) this, of ipc_env] show ?thesis by (simp only: small_ring_inv)
qed

section \<open>The receiver\<close>

text \<open>
  C39. Subtitle data that a player sends as packages through the fast message queue reaches
  the parser's byte queue complete and in order, however the queue cuts the byte stream into
  chunks, as long as a package and a chunk fit in the ring together.
\<close>

theorem fmq_data_reaches_parser:
  assumes "concat chunks = concat (map encode_package ps)"
    "\<forall>p \<in> set ps. \<exists>session data. p = (session, eTypeSubtitleData, data) \<and> data \<noteq> [] \<and> length data < 1048576 - 20"
    "\<forall>p \<in> set ps. \<forall>c \<in> set chunks. length (encode_package p) + length c \<le> 1048576"
    "cval E = uint" "\<forall>q. malloc_ok E q" "announced s" "source_live (queue_of s)"
  shows "yields (\<lambda>(ok, s'). ok \<and> source_live (queue_of s') \<and>
      source_pending (queue_of s') = source_pending (queue_of s) @ concat (map (\<lambda>(session, type, data). data) ps))
    (readLoop E (onData lang E) chunks s)"
proof -
  have "\<forall>p \<in> set ps. \<exists>session data. p = (session, eTypeSubtitleData, data) \<and> data \<noteq> [] \<and> length data < 2 ^ 31"
    using assms(2) by fastforce
  then have del: "yields (\<lambda>s'. announced s' \<and> source_live (queue_of s') \<and>
      source_pending (queue_of s') = source_pending (queue_of s) @ concat (map (\<lambda>(session, type, data). data) ps) \<and>
      external_available s' = external_available s + int (length (concat (map (\<lambda>(session, type, data). data) ps))) \<and>
      told s' = told s) (deliver (onData lang E) ps s)"
    by (rule deliver_data [OF assms(4) _ assms(6,7)])
  then obtain s' where s': "deliver (onData lang E) ps s = Some s'" by (auto elim: yieldsE)
  have ok: "\<forall>p \<in> set ps. package_ok (1024 * 1024) p"
    using assms(2) by (fastforce simp: header_size_def package_types)
  have fit: "\<forall>p \<in> set ps. \<forall>c \<in> set chunks. int (length (encode_package p)) + int (length c) \<le> 1024 * 1024"
    using assms(3) by fastforce
  from readLoop_delivers [OF assms(1) ok fit assms(4,5) s'] del show ?thesis
    by (auto simp: s')
qed

theorem fmq_data_reaches_parser_witness:
  "yields (\<lambda>(ok, s'). ok \<and> source_live (queue_of s') \<and> source_pending (queue_of s') = [7, 8, 9, 10])
    (readLoop ipc_env (onData True ipc_env)
      [take 3 (encode_package (1, eTypeSubtitleData, [7, 8])),
       drop 3 (encode_package (1, eTypeSubtitleData, [7, 8])) @ encode_package (1, eTypeSubtitleData, [9, 10])] open_source)"
proof -
  let ?ps = "[(1, eTypeSubtitleData, [7, 8]), (1, eTypeSubtitleData, [9, 10])] :: package list"
  let ?cs = "[take 3 (encode_package (1, eTypeSubtitleData, [7, 8])),
       drop 3 (encode_package (1, eTypeSubtitleData, [7, 8])) @ encode_package (1, eTypeSubtitleData, [9, 10])]"
  have "concat ?cs = concat (map encode_package ?ps)" by (simp only: concat.simps list.map append_take_drop_id append_Nil2 flip: append_assoc)
  from fmq_data_reaches_parser [OF this, of ipc_env open_source True] show ?thesis
    by (simp add: open_source_ready ipc_env_def)
qed

text \<open>
  C40. A header that announces more data than the ring can hold stops the channel for good:
  whatever is sent after it, no further package is ever handed on.
\<close>

theorem fmq_blocked_for_good:
  assumes "ring_inv r" "ring_contents r = le_bytes START_FLAG @ le_bytes session @ le_bytes MAGIC_FLAG @ le_bytes n @ le_bytes type @ rest"
    "rest \<noteq> []" "rb_size r < 20 + n" "n < 2 ^ 31" "cval E = uint"
  shows "yields (\<lambda>(r', t). t = s) (fmq_rounds E listener chunks r s)"
proof -
  have len: "20 < read_avail r" "read_avail r \<le> rb_size r"
    using length_ring_contents [OF assms(1)] assms(1) length_greater_0_conv [of rest] assms(3)
    by (simp_all add: assms(2) ring_inv_def del: length_greater_0_conv)
  let ?h = "take 20 (ring_contents r)"
  have h: "?h = le_bytes START_FLAG @ le_bytes session @ le_bytes MAGIC_FLAG @ le_bytes n @ le_bytes type" by (simp add: assms(2))
  have "peekAsSocketWord uint ?h 0 = START_FLAG"
    by (subst peek_le_bytes [of _ _ START_FLAG]) (simp_all add: h START_FLAG_def)
  moreover have "peekAsSocketWord uint ?h 12 = n mod 2 ^ 32" by (rule peek_le_bytes) (simp add: h)
  moreover have "0 \<le> n" using assms(4) len by simp
  ultimately have "blocked E r"
    using assms(1,4-6) len by (simp add: blocked_def header_size_def)
  from blocked_rounds [OF this, of s listener chunks] show ?thesis by (rule yields_mono) auto
qed

theorem fmq_blocked_for_good_witness:
  "yields (\<lambda>(r', t). t = open_source) (fmq_rounds ipc_env (onData True ipc_env)
     [encode_package (1, eTypeSubtitleData, [7, 8]), encode_package (1, eTypeSubtitleData, [9])] (header_ring 100) open_source)"
  by (rule fmq_blocked_for_good [OF header_ring_state(1,3)]) (simp_all add: header_ring_state(2) ipc_env_def)

text \<open>
  A header with a size from -4 to -1 passes the check on what is available, which is done
  on unsigned numbers; the type word is then written past the end of the payload.
\<close>

theorem fmq_negative_size_overrun:
  assumes "ring_inv r" "ring_contents r = le_bytes START_FLAG @ le_bytes session @ le_bytes MAGIC_FLAG @ le_bytes n @ le_bytes type @ rest"
    "rest \<noteq> []" "- 4 \<le> n" "n < 0" "20 < rb_size r" "cval E = uint" "\<forall>q. malloc_ok E q"
  shows "fmq_round E listener True [] r s = None"
proof -
  have len: "20 < read_avail r" "20 \<le> length (ring_contents r)"
    using length_ring_contents [OF assms(1)] length_greater_0_conv [of rest] assms(3)
    by (simp_all add: assms(2) del: length_greater_0_conv)
  let ?h = "take 20 (ring_contents r)"
  have h: "?h = le_bytes START_FLAG @ le_bytes session @ le_bytes MAGIC_FLAG @ le_bytes n @ le_bytes type" by (simp add: assms(2))
  have w: "peekAsSocketWord uint ?h 0 = START_FLAG"
    by (subst peek_le_bytes [of _ _ START_FLAG]) (simp_all add: h START_FLAG_def)
  have "peekAsSocketWord uint ?h 12 = n mod 2 ^ 32" by (rule peek_le_bytes) (simp add: h)
  then have n: "wrap32 (peekAsSocketWord uint ?h 12) = n" using assms(4,5) wrap32_mod [of n] by simp
  have peek: "ringbuffer_peek E r header_size = Some (20, ?h)"
    by (rule header_in_ring [OF assms(1) refl len(2) assms(6)])
  obtain k bs r0 where r0: "ringbuffer_read E r header_size = Some (k, bs, r0)"
    using ringbuffer_read_queue [OF assms(1), of header_size E] assms(6) by (auto simp: header_size_def elim!: yieldsE)
  have over: "put_bytes 0 (le_bytes t) (map (stray E) [0..<nat (size_of (wrap32 (n + 4)))]) = None" for t
    using assms(4,5) by (simp add: put_bytes_def)
  have "size_of (header_size + n) = 20 + n" using assms(4,5) by (simp add: header_size_def)
  then have "consume_packages E listener True r s = None"
    using len(1) peek w n r0 over assms(5,7,8)
    by (subst consume_packages.simps) (simp add: Let_def header_size_def take_payload_def)
  then show ?thesis by (simp add: fmq_round_def ringbuffer_write_def)
qed

theorem fmq_negative_size_overrun_witness:
  "fmq_round ipc_env (onData True ipc_env) True [] (header_ring (-1)) open_source = None"
  by (rule fmq_negative_size_overrun [OF header_ring_state(1,3)]) (simp_all add: header_ring_state(2) ipc_env_def)

end
