(* ===== verification/Render.thy ===== *)
theory Render
  imports Parser_Base
begin

text \<open>
  The renderer of \<open>subtitle/render/AndroidHidlRemoteRender.cpp\<close>: it hands the newest unit to the
  display clients as a message, and takes displays back by object id.

  The messages that are posted to the clients are recorded in order; \<open>hasQueue\<close> says whether the
  message queue exists. A unit whose picture is made on demand is given to \<open>gen\<close>, its generator.
\<close>

definition FADING_SUB :: int where "FADING_SUB = 0"
definition SHOWING_SUB :: int where "SHOWING_SUB = 1"

definition TYPE_SUBTITLE_MKV_VOB :: int where "TYPE_SUBTITLE_MKV_VOB = 4"
definition TYPE_SUBTITLE_IDX_SUB :: int where "TYPE_SUBTITLE_IDX_SUB = 6"
definition TYPE_SUBTITLE_DVB_TELETEXT :: int where "TYPE_SUBTITLE_DVB_TELETEXT = 8"
definition TYPE_SUBTITLE_SCTE27 :: int where "TYPE_SUBTITLE_SCTE27 = 11"
definition TYPE_SUBTITLE_SMPTE_TTML :: int where "TYPE_SUBTITLE_SMPTE_TTML = 13"

definition TYPE_SUBTITLE_Q_TONE_DATA :: int where "TYPE_SUBTITLE_Q_TONE_DATA = 0xAAAA"

lemmas subtitle_types = TYPE_SUBTITLE_VOB_def TYPE_SUBTITLE_PGS_def TYPE_SUBTITLE_MKV_VOB_def TYPE_SUBTITLE_IDX_SUB_def
  TYPE_SUBTITLE_DVB_def TYPE_SUBTITLE_DVB_TELETEXT_def TYPE_SUBTITLE_SCTE27_def TYPE_SUBTITLE_SMPTE_TTML_def
  TYPE_SUBTITLE_EXTERNAL_def TYPE_SUBTITLE_CLOSED_CAPTION_def

datatype DisplayType = SUBTITLE_IMAGE_DISPLAY | SUBTITLE_TEXT_DISPLAY

definition getDisplayType :: "int \<Rightarrow> DisplayType" where
  "getDisplayType type =
     (if type \<in> {TYPE_SUBTITLE_VOB, TYPE_SUBTITLE_PGS, TYPE_SUBTITLE_MKV_VOB, TYPE_SUBTITLE_DVB, TYPE_SUBTITLE_DVB_TELETEXT,
          TYPE_SUBTITLE_SCTE27, TYPE_SUBTITLE_SMPTE_TTML, TYPE_SUBTITLE_IDX_SUB}
      then SUBTITLE_IMAGE_DISPLAY else SUBTITLE_TEXT_DISPLAY)"

section \<open>The renderer\<close>

text \<open>The arguments of \<open>postDisplayData\<close>.\<close>

record display_message =
  d_data :: "u8 list option"
  d_type :: int
  d_x :: int
  d_y :: int
  d_width :: int
  d_height :: int
  d_videoWidth :: int
  d_videoHeight :: int
  d_size :: int
  d_cmd :: int
  d_object :: int

record Render =
  mShowingSubs :: "AML_SPUVAR list"
  render_type :: int
  mCurrentMaxObjectId :: int
  hasQueue :: bool
  posted :: "display_message list"

definition new_render :: "bool \<Rightarrow> Render" where
  "new_render queue = \<lparr>mShowingSubs = [], render_type = -1, mCurrentMaxObjectId = 0, hasQueue = queue, posted = []\<rparr>"

definition clear_message :: "int \<Rightarrow> int \<Rightarrow> display_message" where
  "clear_message type object = \<lparr>d_data = None, d_type = type, d_x = 0, d_y = 0, d_width = 0, d_height = 0,
     d_videoWidth = 0, d_videoHeight = 0, d_size = 0, d_cmd = FADING_SUB, d_object = object\<rparr>"

definition postObjectIdSubtitleData :: "int \<Rightarrow> Render \<Rightarrow> bool \<times> Render" where
  "postObjectIdSubtitleData objectId r =
     (if hasQueue r then (True, r\<lparr>posted := posted r @ [clear_message (render_type r) objectId]\<rparr>) else (False, r))"

text \<open>The data of a unit, generated when it has none.\<close>

definition picture :: "(AML_SPUVAR \<Rightarrow> u8 list option) \<Rightarrow> AML_SPUVAR \<Rightarrow> u8 list option" where
  "picture gen s = (case spu_data s of None \<Rightarrow> if dynGen s then gen s else None | Some d \<Rightarrow> Some d)"

text \<open>The message that shows a unit; a text has no size, and \<open>Qtone\<close> data a type of its own.\<close>

definition show_message :: "int \<Rightarrow> u8 list \<Rightarrow> AML_SPUVAR \<Rightarrow> display_message" where
  "show_message type data s =
     (let display = (if type = TYPE_SUBTITLE_EXTERNAL
            then (if spu_width s > 0 \<and> spu_height s > 0 then SUBTITLE_IMAGE_DISPLAY else SUBTITLE_TEXT_DISPLAY)
            else getDisplayType type)
      in \<lparr>d_data = Some data, d_type = (if isQtoneData s then TYPE_SUBTITLE_Q_TONE_DATA else type),
        d_x = (if type = TYPE_SUBTITLE_DVB_TELETEXT then disPlayBackground s else spu_start_x s), d_y = spu_start_y s,
        d_width = (if display = SUBTITLE_TEXT_DISPLAY then 0 else spu_width s),
        d_height = (if display = SUBTITLE_TEXT_DISPLAY then 0 else spu_height s),
        d_videoWidth = wrap32 (spu_origin_display_w s), d_videoHeight = wrap32 (spu_origin_display_h s),
        d_size = wrap32 (buffer_size s), d_cmd = SHOWING_SUB, d_object = wrap32 (objectSegmentId s)\<rparr>)"

text \<open>The loop over the units, the newest first, up to the first one that can be shown.\<close>

fun post_newest :: "(AML_SPUVAR \<Rightarrow> u8 list option) \<Rightarrow> AML_SPUVAR list \<Rightarrow> Render \<Rightarrow> bool \<times> Render" where
  "post_newest gen [] r = (False, r)"
| "post_newest gen (s # rest) r =
     (case picture gen s of
        None \<Rightarrow> post_newest gen rest r
      | Some data \<Rightarrow>
          let object = wrap32 (objectSegmentId s);
              r = (if mCurrentMaxObjectId r < object then r\<lparr>mCurrentMaxObjectId := object\<rparr> else r)
          in if getDisplayType (render_type r) = SUBTITLE_IMAGE_DISPLAY \<and> (spu_width s = 0 \<or> spu_height s = 0)
             then post_newest gen rest r
             else
               let m = show_message (render_type r) data s
               in if hasQueue r then (True, r\<lparr>render_type := d_type m, posted := posted r @ [m]\<rparr>) else (False, r))"

definition postSubtitleData :: "(AML_SPUVAR \<Rightarrow> u8 list option) \<Rightarrow> Render \<Rightarrow> bool \<times> Render" where
  "postSubtitleData gen r =
     (if mShowingSubs r = [] then
        if hasQueue r
        then (True, r\<lparr>posted := posted r @ map (clear_message (render_type r)) [0..mCurrentMaxObjectId r], mCurrentMaxObjectId := 0\<rparr>)
        else (False, r)
      else (case post_newest gen (rev (mShowingSubs r)) r of (b, r) \<Rightarrow> (b, r\<lparr>mShowingSubs := []\<rparr>)))"

definition showSubtitleItem :: "(AML_SPUVAR \<Rightarrow> u8 list option) \<Rightarrow> AML_SPUVAR \<Rightarrow> int \<Rightarrow> Render \<Rightarrow> bool \<times> Render" where
  "showSubtitleItem gen s type r = postSubtitleData gen (r\<lparr>mShowingSubs := mShowingSubs r @ [s], render_type := type\<rparr>)"

definition resetSubtitleItem :: "(AML_SPUVAR \<Rightarrow> u8 list option) \<Rightarrow> Render \<Rightarrow> Render" where
  "resetSubtitleItem gen r = snd (postSubtitleData gen (r\<lparr>mShowingSubs := []\<rparr>))"

definition hideSubtitleItem :: "(AML_SPUVAR \<Rightarrow> u8 list option) \<Rightarrow> Render \<Rightarrow> bool \<times> Render" where
  "hideSubtitleItem gen r = postSubtitleData gen (r\<lparr>mShowingSubs := []\<rparr>)"

definition hideObjectIdSubtitleItem :: "int \<Rightarrow> int \<Rightarrow> Render \<Rightarrow> bool \<times> Render" where
  "hideObjectIdSubtitleItem type objectId r = postObjectIdSubtitleData objectId (r\<lparr>render_type := type\<rparr>)"

text \<open>\<open>remove\<close> of a unit that is not in the list any more: the list is empty between the calls.\<close>

definition removeSubtitleItem :: "AML_SPUVAR \<Rightarrow> Render \<Rightarrow> Render" where
  "removeSubtitleItem s r = r\<lparr>mShowingSubs := removeAll s (mShowingSubs r)\<rparr>"

section \<open>What the clients show\<close>

text \<open>An object is on the screen from the message that shows it to the one that takes it back.\<close>

definition on_screen :: "display_message list \<Rightarrow> int \<Rightarrow> bool" where
  "on_screen ms k = fold (\<lambda>m shown. if d_object m = k then d_cmd m = SHOWING_SUB else shown) ms False"

lemma on_screen_append: "on_screen (ms @ [m]) k = (if d_object m = k then d_cmd m = SHOWING_SUB else on_screen ms k)"
  by (simp add: on_screen_def)

lemma clear_message_simps [simp]:
  "d_object (clear_message type k) = k" "d_cmd (clear_message type k) \<noteq> SHOWING_SUB"
  by (simp_all add: clear_message_def FADING_SUB_def SHOWING_SUB_def)

lemma show_message_simps [simp]:
  "d_object (show_message type data s) = wrap32 (objectSegmentId s)" "d_cmd (show_message type data s) = SHOWING_SUB"
  "d_data (show_message type data s) = Some data"
  by (simp_all add: show_message_def Let_def)

lemma on_screen_clear:
  "on_screen (ms @ map (clear_message type) ks) k = (k \<notin> set ks \<and> on_screen ms k)"
proof (induction ks arbitrary: ms)
  case (Cons x ks)
  have "on_screen (ms @ map (clear_message type) (x # ks)) k = on_screen ((ms @ [clear_message type x]) @ map (clear_message type) ks) k"
    by simp
  also have "\<dots> = (k \<notin> set ks \<and> on_screen (ms @ [clear_message type x]) k)" by (rule Cons.IH)
  finally show ?case by (auto simp: on_screen_append)
qed simp

text \<open>Every object on the screen has an id that the next clearing covers, and no unit waits.\<close>

definition max_covers :: "Render \<Rightarrow> bool" where
  "max_covers r \<longleftrightarrow> 0 \<le> mCurrentMaxObjectId r \<and>
     (\<forall>k. on_screen (posted r) k \<longrightarrow> 0 \<le> k \<and> k \<le> mCurrentMaxObjectId r)"

definition render_inv :: "Render \<Rightarrow> bool" where
  "render_inv r \<longleftrightarrow> mShowingSubs r = [] \<and> max_covers r"

lemma max_covers_simps [simp]:
  "max_covers (r\<lparr>render_type := type\<rparr>) = max_covers r" "max_covers (r\<lparr>mShowingSubs := ss\<rparr>) = max_covers r"
  by (simp_all add: max_covers_def)

lemma max_covers_post:
  assumes "max_covers r" "0 \<le> d_object m" "d_object m \<le> mCurrentMaxObjectId r"
  shows "max_covers (r\<lparr>render_type := t, posted := posted r @ [m]\<rparr>)"
  using assms by (simp add: max_covers_def on_screen_append)

lemma max_covers_raise:
  assumes "max_covers r" "0 \<le> k"
  shows "max_covers (r\<lparr>mCurrentMaxObjectId := max (mCurrentMaxObjectId r) k\<rparr>)"
  using assms by (auto simp: max_covers_def max_def)

lemma raise_max:
  "(if mCurrentMaxObjectId r < k then r\<lparr>mCurrentMaxObjectId := k\<rparr> else r) = r\<lparr>mCurrentMaxObjectId := max (mCurrentMaxObjectId r) k\<rparr>"
  by simp

lemma post_newest_inv:
  assumes "\<forall>s \<in> set ss. 0 \<le> objectSegmentId s \<and> objectSegmentId s < 2 ^ 31" "max_covers r"
  shows "max_covers (snd (post_newest gen ss r))"
  using assms
proof (induction ss arbitrary: r)
  case (Cons s ss)
  have o: "wrap32 (objectSegmentId s) = objectSegmentId s" "0 \<le> objectSegmentId s" using Cons.prems(1) by simp_all
  have IH: "max_covers (snd (post_newest gen ss r'))" if "max_covers r'" for r'
    using Cons.prems(1) that by (intro Cons.IH) simp_all
  define r1 where "r1 = r\<lparr>mCurrentMaxObjectId := max (mCurrentMaxObjectId r) (objectSegmentId s)\<rparr>"
  have inv: "max_covers r1" unfolding r1_def using Cons.prems(2) o(2) by (rule max_covers_raise)
  have post: "max_covers (r1\<lparr>render_type := t, posted := posted r1 @ [show_message (render_type r1) data s]\<rparr>)" for t data
    using inv o by (intro max_covers_post) (simp_all add: r1_def)
  show ?case
  proof (cases "picture gen s")
    case None
    then show ?thesis using IH Cons.prems(2) by simp
  next
    case (Some data)
    then show ?thesis using IH [OF inv] inv post
      unfolding post_newest.simps Some option.case o(1) Let_def raise_max r1_def [symmetric] by simp
  qed
qed simp

text \<open>Every call keeps the invariant; hiding takes back whatever is on the screen.\<close>

lemma clear_all_covers:
  assumes "max_covers r"
  shows "max_covers (r\<lparr>posted := posted r @ map (clear_message t) [0..mCurrentMaxObjectId r], mCurrentMaxObjectId := 0\<rparr>)"
    "\<not> on_screen (posted r @ map (clear_message t) [0..mCurrentMaxObjectId r]) k"
  using assms by (auto simp: max_covers_def on_screen_clear)

lemma postSubtitleData_inv:
  assumes "\<forall>s \<in> set (mShowingSubs r). 0 \<le> objectSegmentId s \<and> objectSegmentId s < 2 ^ 31" "max_covers r"
  shows "render_inv (snd (postSubtitleData gen r))"
proof (cases "mShowingSubs r = []")
  case True
  then show ?thesis using assms(2) clear_all_covers(1) [OF assms(2)]
    by (simp add: postSubtitleData_def render_inv_def)
next
  case False
  have "max_covers (snd (post_newest gen (rev (mShowingSubs r)) r))"
    using assms by (intro post_newest_inv) simp_all
  then show ?thesis using False by (simp add: postSubtitleData_def render_inv_def case_prod_unfold)
qed

lemma render_calls_inv:
  assumes "render_inv r"
  shows "0 \<le> objectSegmentId s \<Longrightarrow> objectSegmentId s < 2 ^ 31 \<Longrightarrow> render_inv (snd (showSubtitleItem gen s type r))"
    "render_inv (snd (hideSubtitleItem gen r))" "render_inv (resetSubtitleItem gen r)"
    "render_inv (removeSubtitleItem s r)"
  using assms unfolding showSubtitleItem_def hideSubtitleItem_def resetSubtitleItem_def removeSubtitleItem_def
  by (auto simp: render_inv_def intro!: postSubtitleData_inv [unfolded render_inv_def])

lemma hideObject_inv:
  assumes "render_inv r"
  shows "render_inv (snd (hideObjectIdSubtitleItem type k r))"
  using assms by (simp add: hideObjectIdSubtitleItem_def postObjectIdSubtitleData_def render_inv_def max_covers_def on_screen_append)

lemma hide_clears:
  assumes "render_inv r" "hasQueue r"
  shows "\<not> on_screen (posted (snd (hideSubtitleItem gen r))) k"
  using assms clear_all_covers(2) [of r "render_type r" k] by (simp add: hideSubtitleItem_def postSubtitleData_def render_inv_def)

lemma show_shows:
  assumes "render_inv r" "hasQueue r" "picture gen s = Some data" "0 \<le> objectSegmentId s" "objectSegmentId s < 2 ^ 31"
    "getDisplayType type = SUBTITLE_IMAGE_DISPLAY \<longrightarrow> spu_width s > 0 \<and> spu_height s > 0"
  shows "on_screen (posted (snd (showSubtitleItem gen s type r))) (objectSegmentId s) \<and>
    d_data (last (posted (snd (showSubtitleItem gen s type r)))) = Some data"
proof -
  have o: "wrap32 (objectSegmentId s) = objectSegmentId s" using assms(4,5) by simp
  have r: "mShowingSubs r = []" using assms(1) by (simp add: render_inv_def)
  have i: "\<not> (getDisplayType type = SUBTITLE_IMAGE_DISPLAY \<and> (spu_width s = 0 \<or> spu_height s = 0))"
    using assms(6) by auto
  show ?thesis using i
    by (auto simp: showSubtitleItem_def postSubtitleData_def r assms(2,3) o Let_def on_screen_append case_prod_unfold)
qed

end
