(* ===== verification/Presentation.thy ===== *)
theory Presentation
  imports Render "HOL-Library.Signed_Division"
begin

text \<open>
  The presentation of \<open>subtitle/Presentation.cpp\<close>: it takes the decoded units from the parser, decides
  against the time of the video which unit is due, hands it to the renderer and takes it back when its
  time is over.

  The units are shared objects. A unit in the two queues carries a number, the identity of its object,
  which the external path compares; the unit at the front is changed in place, so a change shows in the
  queue. Times of the units are in units of 1/90 ms, those of the video in ns; all are 64-bit.
  What the handler asks of its looper (\<open>sendMessage\<close>, \<open>sendMessageDelayed\<close>, \<open>removeMessages\<close>) is recorded
  in order in \<open>requests\<close>, what it hands to the translation in \<open>translating\<close>. \<open>None\<close> is a fault, as in
  the decoders.

  \<open>ms2ns\<close> and \<open>ns2ms\<close> are the platform's conversions of a signed 64-bit time.
\<close>

section \<open>Times\<close>

definition wrap64 :: "int \<Rightarrow> int" where
  "wrap64 x = signed_take_bit 63 x"

lemma wrap64_id [simp]: "- (2 ^ 63) \<le> x \<Longrightarrow> x < 2 ^ 63 \<Longrightarrow> wrap64 x = x"
  by (simp add: wrap64_def signed_take_bit_int_eq_self)

definition ms2ns :: "int \<Rightarrow> int" where "ms2ns t = wrap64 (t * 1000000)"
definition ns2ms :: "int \<Rightarrow> int" where "ns2ms t = t sdiv 1000000"

definition DVB_TIME_MULTI :: int where "DVB_TIME_MULTI = 90"
definition MAX_ALLOWED_QUEUED_MEM :: int where "MAX_ALLOWED_QUEUED_MEM = 5 * 1920 * 1080 * 4"
definition DEFAULT_DELAY_TIME :: int where "DEFAULT_DELAY_TIME = 2"
definition DEFAULT_SHOW_DIFF_MAX_TIME :: int where "DEFAULT_SHOW_DIFF_MAX_TIME = 2"
definition ADDJUST_VERY_SMALL_PTS_MS :: int where "ADDJUST_VERY_SMALL_PTS_MS = 5 * 1000"
definition ADDJUST_NO_PTS_MS :: int where "ADDJUST_NO_PTS_MS = 4 * 1000"
definition MINIMUM_REMAIN_DISPLAY_TIME_MS :: int where "MINIMUM_REMAIN_DISPLAY_TIME_MS = 30"
definition INVALID_PTS :: int where "INVALID_PTS = 0x1ffffffff"

lemmas present_times = DVB_TIME_MULTI_def DEFAULT_DELAY_TIME_def DEFAULT_SHOW_DIFF_MAX_TIME_def
  ADDJUST_VERY_SMALL_PTS_MS_def ADDJUST_NO_PTS_MS_def MINIMUM_REMAIN_DISPLAY_TIME_MS_def

definition convertDvbTime2Ns :: "int \<Rightarrow> int" where
  "convertDvbTime2Ns dvbMillis = ms2ns dvbMillis sdiv DVB_TIME_MULTI"

definition convertNs2DvbTime :: "int \<Rightarrow> int" where
  "convertNs2DvbTime ns = wrap64 (ns2ms ns * DVB_TIME_MULTI)"

definition fixSpuDelay :: "int \<Rightarrow> int \<Rightarrow> int" where
  "fixSpuDelay start delay =
     (if delay \<le> 0 \<or> delay \<le> wrap64 (start + 500 * DVB_TIME_MULTI)
      then wrap64 (start + ADDJUST_NO_PTS_MS * DVB_TIME_MULTI) else delay)"

definition isMore32Bit_present :: "int \<Rightarrow> bool" where
  "isMore32Bit_present t \<longleftrightarrow> t div 2 ^ 32 mod 2 ^ 32 > 0"

section \<open>The state\<close>

type_synonym cue = "nat \<times> AML_SPUVAR"

datatype looper_request =
    sendMessage int
  | sendMessageDelayed int int
  | removeMessages int

definition MSG_PTS_TIME_CHECK_SPU :: int where "MSG_PTS_TIME_CHECK_SPU = 0xBB10101"
definition MSG_RESET_MESSAGE_QUEUE :: int where "MSG_RESET_MESSAGE_QUEUE = 0xCB10100"

lemma MSG_distinct [simp]: "MSG_RESET_MESSAGE_QUEUE \<noteq> MSG_PTS_TIME_CHECK_SPU"
  by (simp add: MSG_PTS_TIME_CHECK_SPU_def MSG_RESET_MESSAGE_QUEUE_def)

record MessageProcess =
  mIsExtSub :: bool
  mRequestThreadExit :: bool
  mLastShowingSpu :: "nat option"
  hasLooper :: bool

record Presentation =
  mCurrentPresentRelativeTime :: int
  mStartPresentMonoTimeNs :: int
  mStartTimeModifier :: int
  mParser :: "Parser option"
  mRender :: Render
  mEmittedShowingSpu :: "cue list"
  mEmittedFaddingSpu :: "cue list"
  mMsgProcess :: "MessageProcess option"
  mSubtitlePts32Bit :: bool
  hasAiTranslation :: bool
  translating :: "AML_SPUVAR list"
  next_cue :: nat
  requests :: "looper_request list"

definition new_presentation :: "bool \<Rightarrow> Presentation" where
  "new_presentation queue = \<lparr>mCurrentPresentRelativeTime = 0, mStartPresentMonoTimeNs = 0, mStartTimeModifier = 0,
     mParser = None, mRender = new_render queue, mEmittedShowingSpu = [], mEmittedFaddingSpu = [], mMsgProcess = None,
     mSubtitlePts32Bit = False, hasAiTranslation = False, translating = [], next_cue = 0, requests = []\<rparr>"

definition isExternalSub :: "'a Parser_scheme \<Rightarrow> bool" where
  "isExternalSub p \<longleftrightarrow> mParseType p = TYPE_SUBTITLE_EXTERNAL"

definition request :: "looper_request \<Rightarrow> Presentation \<Rightarrow> Presentation" where
  "request r P = P\<lparr>requests := requests P @ [r]\<rparr>"

definition check_in :: "int \<Rightarrow> looper_request" where
  "check_in delay = sendMessageDelayed delay MSG_PTS_TIME_CHECK_SPU"

text \<open>\<open>MessageProcess::notifyMessage\<close>, with the test of the pointer its callers make.\<close>

definition notifyMessage :: "int \<Rightarrow> Presentation \<Rightarrow> Presentation" where
  "notifyMessage what P =
     (case mMsgProcess P of
        None \<Rightarrow> P
      | Some mp \<Rightarrow> if hasLooper mp then request (sendMessage what) P else P)"

definition present_notifySubdataAdded :: "Presentation \<Rightarrow> Presentation" where
  "present_notifySubdataAdded P = notifyMessage MSG_PTS_TIME_CHECK_SPU P"

definition present_resetForSeek :: "Presentation \<Rightarrow> Presentation" where
  "present_resetForSeek P = notifyMessage MSG_RESET_MESSAGE_QUEUE P"

definition notifyStartTimeStamp :: "int \<Rightarrow> Presentation \<Rightarrow> Presentation" where
  "notifyStartTimeStamp startTime P =
     P\<lparr>mStartTimeModifier := convertDvbTime2Ns startTime,
       mParser := map_option (notifyRenderStartTimestamp startTime) (mParser P)\<rparr>"

text \<open>\<open>now\<close> is the monotonic clock of the system.\<close>

definition syncCurrentPresentTime :: "int \<Rightarrow> int \<Rightarrow> Presentation \<Rightarrow> bool \<times> Presentation" where
  "syncCurrentPresentTime now video P =
     (let video = (if mSubtitlePts32Bit P then video mod 2 ^ 32 else video) in
      if video = INVALID_PTS then (False, P\<lparr>mCurrentPresentRelativeTime := -1, mStartPresentMonoTimeNs := -1\<rparr>)
      else
        let P = P\<lparr>mCurrentPresentRelativeTime := convertDvbTime2Ns video,
                  mParser := map_option (notifyRenderTimeChanged video) (mParser P),
                  mStartPresentMonoTimeNs := wrap64 (now - convertDvbTime2Ns video)\<rparr>
        in (True, if (case mParser P of None \<Rightarrow> False | Some p \<Rightarrow> isExternalSub p)
                  then notifyMessage MSG_PTS_TIME_CHECK_SPU P else P))"

definition startPresent :: "Parser option \<Rightarrow> Presentation \<Rightarrow> bool \<times> Presentation" where
  "startPresent parser P =
     (case parser of
        None \<Rightarrow> (False, P)
      | Some p \<Rightarrow>
          (True, P\<lparr>mParser := Some (notifyRenderStartTimestamp (convertNs2DvbTime (mStartTimeModifier P)) p),
                   mMsgProcess := Some \<lparr>mIsExtSub = isExternalSub p, mRequestThreadExit = False, mLastShowingSpu = None, hasLooper = False\<rparr>\<rparr>))"

text \<open>\<open>MessageProcess::join\<close>, then the process is given up.\<close>

definition stopPresent :: "Presentation \<Rightarrow> Presentation" where
  "stopPresent P =
     (let P = P\<lparr>hasAiTranslation := False\<rparr> in
      case mMsgProcess P of
        None \<Rightarrow> P
      | Some mp \<Rightarrow>
          let P = (if hasLooper mp then request (removeMessages MSG_PTS_TIME_CHECK_SPU) P else P)
          in P\<lparr>mMsgProcess := None\<rparr>)"

text \<open>What the thread does before it polls its looper.\<close>

definition looperLoop_start :: "Presentation \<Rightarrow> Presentation" where
  "looperLoop_start P =
     (case mMsgProcess P of
        None \<Rightarrow> P
      | Some mp \<Rightarrow>
          let P = request (check_in (if mCurrentPresentRelativeTime P \<le> 0 then ms2ns 100 else 100)) P
          in P\<lparr>mMsgProcess := Some (mp\<lparr>hasLooper := True\<rparr>), mEmittedShowingSpu := [], mEmittedFaddingSpu := []\<rparr>)"

definition timestamp :: "Presentation \<Rightarrow> int" where
  "timestamp P = wrap64 (mStartTimeModifier P + mCurrentPresentRelativeTime P)"

section \<open>Calls of the renderer\<close>

definition present_show :: "(AML_SPUVAR \<Rightarrow> u8 list option) \<Rightarrow> AML_SPUVAR \<Rightarrow> int \<Rightarrow> Presentation \<Rightarrow> Presentation" where
  "present_show gen s type P = P\<lparr>mRender := snd (showSubtitleItem gen s type (mRender P))\<rparr>"

definition present_hide :: "(AML_SPUVAR \<Rightarrow> u8 list option) \<Rightarrow> Presentation \<Rightarrow> Presentation" where
  "present_hide gen P = P\<lparr>mRender := snd (hideSubtitleItem gen (mRender P))\<rparr>"

definition present_remove :: "AML_SPUVAR \<Rightarrow> Presentation \<Rightarrow> Presentation" where
  "present_remove s P = P\<lparr>mRender := removeSubtitleItem s (mRender P)\<rparr>"

definition present_reset :: "(AML_SPUVAR \<Rightarrow> u8 list option) \<Rightarrow> Presentation \<Rightarrow> Presentation" where
  "present_reset gen P = P\<lparr>mRender := resetSubtitleItem gen (mRender P)\<rparr>"

definition send2RenderDisplay :: "(AML_SPUVAR \<Rightarrow> u8 list option) \<Rightarrow> AML_SPUVAR \<Rightarrow> Presentation \<Rightarrow> Presentation" where
  "send2RenderDisplay gen s P =
     (if hasAiTranslation P \<and> spu_data s \<noteq> None \<and> buffer_size s > 0 \<and> spu_width s = 0 \<and> spu_height s = 0
      then P\<lparr>translating := translating P @ [s]\<rparr>
      else case mParser P of None \<Rightarrow> P | Some p \<Rightarrow> present_show gen s (mParseType p) P)"

text \<open>A translated text comes back.\<close>

definition onReceiveTranslatedText :: "(AML_SPUVAR \<Rightarrow> u8 list option) \<Rightarrow> AML_SPUVAR \<Rightarrow> Presentation \<Rightarrow> Presentation" where
  "onReceiveTranslatedText gen s P = (case mParser P of None \<Rightarrow> P | Some p \<Rightarrow> present_show gen s (mParseType p) P)"

section \<open>Joining texts\<close>

text \<open>
  The characters that \<open>strncpy\<close> and \<open>strncat\<close> read with the bound \<open>n\<close>, and \<open>strcat\<close> without one; \<open>None\<close>
  when they read past the allocation.
\<close>

definition c_chars :: "u8 list \<Rightarrow> u8 list option" where
  "c_chars xs = (if 0 \<in> set xs then Some (takeWhile (\<lambda>b. b \<noteq> 0) xs) else None)"

definition c_prefix :: "int \<Rightarrow> u8 list \<Rightarrow> u8 list option" where
  "c_prefix n xs =
     (if 0 \<in> set (take (nat n) xs) then Some (takeWhile (\<lambda>b. b \<noteq> 0) xs)
      else if n \<le> int (length xs) then Some (take (nat n) xs) else None)"

definition joinable :: "AML_SPUVAR \<Rightarrow> bool" where
  "joinable s \<longleftrightarrow> \<not> isExtSub s \<and> \<not> isImmediatePresent s \<and> isSimpleText s"

text \<open>The text of the joined unit in its new, zeroed buffer.\<close>

definition join_text :: "AML_SPUVAR \<Rightarrow> AML_SPUVAR \<Rightarrow> u8 list option" where
  "join_text s1 s2 =
     (let dataLen1 = wrap32 (buffer_size s1); dataLen2 = wrap32 (buffer_size s2);
          newSize = wrap32 (dataLen1 + 1 + dataLen2 + 1) in
      if newSize < 0 then None
      else do {
        data1 \<leftarrow> spu_data s1;
        data2 \<leftarrow> spu_data s2;
        text1 \<leftarrow> c_prefix (size_of dataLen1) data1;
        text2 \<leftarrow> c_prefix (size_of dataLen2) data2;
        let text = text1 @ [10] @ text2;
        if size_of dataLen1 \<le> newSize \<and> int (length text) + 1 \<le> newSize
        then Some (text @ replicate (nat newSize - length text) 0) else None
      })"

definition combineSamePtsSubtitle :: "AML_SPUVAR \<Rightarrow> AML_SPUVAR \<Rightarrow> (bool \<times> AML_SPUVAR) option" where
  "combineSamePtsSubtitle s1 s2 =
     (if \<not> joinable s1 \<or> \<not> joinable s2 \<or> pts s1 \<noteq> pts s2 then Some (False, s1)
      else do {
        text \<leftarrow> join_text s1 s2;
        Some (True, s1\<lparr>spu_data := Some text,
          buffer_size := u32_of (wrap32 (wrap32 (buffer_size s1) + 1 + wrap32 (buffer_size s2) + 1)), useMalloc := False\<rparr>)
      })"

definition compareBitAndSyncPts :: "AML_SPUVAR \<Rightarrow> int \<Rightarrow> bool \<times> AML_SPUVAR" where
  "compareBitAndSyncPts s vPts =
     (if pts s \<le> 0 \<or> vPts \<le> 0 then (False, s)
      else if isMore32Bit_present (pts s) \<and> \<not> isMore32Bit_present vPts
      then (True, s\<lparr>pts := pts s mod 2 ^ 32, m_delay := m_delay s mod 2 ^ 32\<rparr>)
      else (False, s))"

section \<open>The stream handler\<close>

text \<open>\<open>cmpSpu\<close> with the stable \<open>sort\<close> of the list.\<close>

definition sort_cues :: "cue list \<Rightarrow> cue list" where
  "sort_cues cues = sort_key (\<lambda>c. pts (snd c)) cues"

definition totalQueuedMemSize :: "cue list \<Rightarrow> int" where
  "totalQueuedMemSize cues = fold (\<lambda>c n. size_of (n + buffer_size (snd c))) cues 0"

definition push_cue :: "AML_SPUVAR \<Rightarrow> Presentation \<Rightarrow> Presentation" where
  "push_cue s P = P\<lparr>mEmittedShowingSpu := sort_cues (mEmittedShowingSpu P @ [(next_cue P, s)]), next_cue := next_cue P + 1\<rparr>"

text \<open>A unit that is 200 s or more away from the video is shown in a second.\<close>

definition rebase_spu :: "int \<Rightarrow> AML_SPUVAR \<Rightarrow> AML_SPUVAR" where
  "rebase_spu ts s =
     (let start = convertDvbTime2Ns (pts s); ptsDiff = (if start > ts then wrap64 (start - ts) else wrap64 (ts - start)) in
      if ptsDiff \<ge> 200 * 1000 * 1000 * 1000 \<and> \<not> isExtSub s
      then (let start = convertNs2DvbTime (wrap64 (ts + 1 * 1000 * 1000 * 1000))
            in s\<lparr>pts := start, m_delay := wrap64 (start + DEFAULT_DELAY_TIME * 1000 * DVB_TIME_MULTI)\<rparr>)
      else s)"

definition receive_spu :: "int \<Rightarrow> AML_SPUVAR \<Rightarrow> Presentation \<Rightarrow> Presentation" where
  "receive_spu ts s P =
     (let s = rebase_spu ts s;
          P = P\<lparr>mSubtitlePts32Bit := \<not> isMore32Bit_present (pts s)\<rparr>;
          P = (if TYPE_SUBTITLE_CLOSED_CAPTION = subtitle_type s \<or> ts \<noteq> 0 \<or> ts = 0 \<and> pts s = 0 then push_cue s P else P)
      in if size_of (buffer_size s + totalQueuedMemSize (mEmittedShowingSpu P)) \<ge> MAX_ALLOWED_QUEUED_MEM
         then P\<lparr>mEmittedShowingSpu := drop (length (mEmittedShowingSpu P) div 2) (mEmittedShowingSpu P)\<rparr> else P)"

text \<open>
  The loop that throws expired external units away, \<open>front\<close> of the empty list read as the null pointer the
  code tests for; then a message is asked for.
\<close>

definition expired :: "int \<Rightarrow> AML_SPUVAR \<Rightarrow> bool" where
  "expired ts s \<longleftrightarrow> isExtSub s \<and> m_delay s > 0 \<and> ns2ms ts \<ge> m_delay s sdiv DVB_TIME_MULTI"

fun drop_expired :: "int \<Rightarrow> cue list \<Rightarrow> cue list \<times> bool" where
  "drop_expired ts [] = ([], False)"
| "drop_expired ts (c # cs) =
     (if expired ts (snd c) then (if cs = [] then ([], True) else drop_expired ts cs) else (c # cs, False))"

definition far_ahead :: "int \<Rightarrow> AML_SPUVAR \<Rightarrow> bool" where
  "far_ahead ts s \<longleftrightarrow> ns2ms ts + 10 * 60 * 1000 \<le> pts s sdiv DVB_TIME_MULTI \<and> \<not> isImmediatePresent s \<and>
     \<not> (isMore32Bit_present (pts s) \<and> \<not> isMore32Bit_present (convertNs2DvbTime ts))"

definition sync_spu :: "int \<Rightarrow> AML_SPUVAR \<Rightarrow> AML_SPUVAR" where
  "sync_spu ts s =
     (let s = (if pts s sdiv DVB_TIME_MULTI \<le> 0 \<and> \<not> isImmediatePresent s
               then s\<lparr>pts := convertNs2DvbTime ts,
                      m_delay := wrap64 (convertNs2DvbTime ts + DEFAULT_DELAY_TIME * 1000 * DVB_TIME_MULTI)\<rparr> else s);
          s = snd (compareBitAndSyncPts s (convertNs2DvbTime ts))
      in if m_delay s \<le> 0 then s\<lparr>m_delay := wrap64 (pts s + ADDJUST_NO_PTS_MS * DVB_TIME_MULTI)\<rparr> else s)"

definition tolerance :: int where "tolerance = 33 * 1000 * 1000"

text \<open>The comparisons are unsigned, because \<open>tolerance\<close> is.\<close>

definition in_time :: "int \<Rightarrow> AML_SPUVAR \<Rightarrow> bool" where
  "in_time ts s \<longleftrightarrow> size_of (convertDvbTime2Ns (pts s)) \<le> size_of (ts + tolerance)"

definition ptsShowDiff :: "int \<Rightarrow> AML_SPUVAR \<Rightarrow> int" where
  "ptsShowDiff ts s = size_of (ts + tolerance - convertDvbTime2Ns (pts s))"

definition due :: "int \<Rightarrow> AML_SPUVAR \<Rightarrow> bool" where
  "due ts s \<longleftrightarrow> isImmediatePresent s \<or> in_time ts s \<or>
     ptsShowDiff ts s \<le> DEFAULT_SHOW_DIFF_MAX_TIME * 1000 * 1000 * 1000 \<and> ptsShowDiff ts s \<ge> 0"

definition too_late :: "int \<Rightarrow> AML_SPUVAR \<Rightarrow> bool" where
  "too_late ts s \<longleftrightarrow> in_time ts s \<and> ptsShowDiff ts s > DEFAULT_SHOW_DIFF_MAX_TIME * 1000 * 1000 * 1000"

definition fix_fading :: "int \<Rightarrow> AML_SPUVAR \<Rightarrow> AML_SPUVAR" where
  "fix_fading ts s =
     (if isImmediatePresent s \<and> (m_delay s = 0 \<or> m_delay s = pts s)
      then s\<lparr>pts := convertNs2DvbTime ts, m_delay := wrap64 (convertNs2DvbTime ts + ADDJUST_NO_PTS_MS * DVB_TIME_MULTI)\<rparr>
      else if m_delay s = 0 \<or> m_delay s < pts s \<or> wrap64 (m_delay s - pts s) < 1000 * DVB_TIME_MULTI
      then s\<lparr>m_delay := wrap64 (pts s + ADDJUST_VERY_SMALL_PTS_MS * DVB_TIME_MULTI)\<rparr>
      else s)"

text \<open>The next unit, joined to the one that is shown when both are texts of one time.\<close>

definition join_second :: "AML_SPUVAR \<Rightarrow> cue list \<Rightarrow> (AML_SPUVAR \<times> cue list) option" where
  "join_second s cues =
     (case cues of
        [] \<Rightarrow> Some (s, [])
      | c # rest \<Rightarrow> do {
          (joined, s) \<leftarrow> combineSamePtsSubtitle s (snd c);
          Some (s, if joined then rest else cues)
        })"

definition same_pts_queued :: "AML_SPUVAR \<Rightarrow> cue list \<Rightarrow> bool" where
  "same_pts_queued s cues =
     (case find (\<lambda>c. objectSegmentId (snd c) = objectSegmentId s) cues of None \<Rightarrow> False | Some c \<Rightarrow> pts (snd c) = pts s)"

definition display_spu :: "(AML_SPUVAR \<Rightarrow> u8 list option) \<Rightarrow> AML_SPUVAR \<Rightarrow> Presentation \<Rightarrow> Presentation" where
  "display_spu gen s P =
     (if spu_data s = None then
        if TYPE_SUBTITLE_PGS = subtitle_type s then
          if same_pts_queued s (mEmittedShowingSpu P) then P
          else P\<lparr>mRender := snd (hideObjectIdSubtitleItem TYPE_SUBTITLE_PGS (wrap32 (objectSegmentId s)) (mRender P))\<rparr>
        else present_hide gen P
      else send2RenderDisplay gen s P)"

text \<open>The shown unit takes the place of the one before, \<open>front\<close> of an empty list again the null pointer.\<close>

definition add_fading :: "cue \<Rightarrow> Presentation \<Rightarrow> Presentation" where
  "add_fading c P =
     (case mEmittedFaddingSpu P of
        [] \<Rightarrow> P\<lparr>mEmittedFaddingSpu := [c]\<rparr>
      | cached # rest \<Rightarrow> present_remove (snd cached) (P\<lparr>mEmittedFaddingSpu := rest @ [c]\<rparr>))"

definition show_cue :: "(AML_SPUVAR \<Rightarrow> u8 list option) \<Rightarrow> int \<Rightarrow> nat \<Rightarrow> AML_SPUVAR \<Rightarrow> Presentation \<Rightarrow> Presentation option" where
  "show_cue gen ts k s P = do {
     (s, cues) \<leftarrow> join_second s (tl (mEmittedShowingSpu P));
     let P = display_spu gen s (P\<lparr>mEmittedShowingSpu := cues\<rparr>);
     Some (add_fading (k, fix_fading ts s) P)
   }"

text \<open>\<open>queued\<close>: the unit is still the front of the queue, so its changes show there.\<close>

definition present_cue :: "(AML_SPUVAR \<Rightarrow> u8 list option) \<Rightarrow> int \<Rightarrow> bool \<Rightarrow> cue \<Rightarrow> Presentation \<Rightarrow> Presentation option" where
  "present_cue gen ts queued c P =
     (let s = sync_spu ts (snd c);
          P = (if queued then P\<lparr>mEmittedShowingSpu := (fst c, s) # tl (mEmittedShowingSpu P)\<rparr> else P)
      in if due ts s then show_cue gen ts (fst c) s P
         else if too_late ts s then Some (present_reset gen (P\<lparr>mEmittedFaddingSpu := []\<rparr>))
         else Some (request (check_in (if isExtSub s then ms2ns 100 else wrap64 (convertDvbTime2Ns (pts s) - ts))) P))"

text \<open>The result tells whether the handler goes on to the fading.\<close>

definition handle_showing :: "(AML_SPUVAR \<Rightarrow> u8 list option) \<Rightarrow> int \<Rightarrow> Presentation \<Rightarrow> (bool \<times> Presentation) option" where
  "handle_showing gen ts P =
     (if mEmittedShowingSpu P = [] then Some (True, P)
      else
        case drop_expired ts (mEmittedShowingSpu P) of (cues, asked) \<Rightarrow>
        let P = (if asked then request (check_in (ms2ns 100)) P else P);
            kept = filter (\<lambda>c. \<not> far_ahead ts (snd c)) cues;
            P = P\<lparr>mEmittedShowingSpu := kept\<rparr>
        in if kept = [] then Some (False, P)
           else do {
             P \<leftarrow> present_cue gen ts (\<not> far_ahead ts (snd (hd cues))) (hd cues) P;
             Some (True, P)
           })"

definition fade_due :: "int \<Rightarrow> AML_SPUVAR \<Rightarrow> bool" where
  "fade_due ts s \<longleftrightarrow>
     (let delayed = size_of (convertDvbTime2Ns (m_delay s));
          ahead_delay_tor = (if isExtSub s then 5 else 100) * 1000 * 1000 * 1000
      in delayed \<le> size_of ts \<and> size_of (delayed * 5) > size_of ts \<or>
         ts \<noteq> 0 \<and> size_of (delayed - ts) > ahead_delay_tor)"

definition handle_fading :: "(AML_SPUVAR \<Rightarrow> u8 list option) \<Rightarrow> int \<Rightarrow> Presentation \<Rightarrow> Presentation" where
  "handle_fading gen ts P =
     (case mEmittedFaddingSpu P of
        [] \<Rightarrow> P
      | c # rest \<Rightarrow>
          if isKeepShowing (snd c) then P
          else
            let P = (if fade_due ts (snd c) then present_hide gen (P\<lparr>mEmittedFaddingSpu := rest\<rparr>) else P)
            in request (check_in (if TYPE_SUBTITLE_PGS = subtitle_type (snd c) then ms2ns 8 else ms2ns 15)) P)"

text \<open>A check: one unit of the parser's queue, then the showing and the fading.\<close>

definition next_unit :: "Parser \<Rightarrow> Presentation \<Rightarrow> Presentation" where
  "next_unit parser P =
     (case tryConsumeDecodedItem parser of (item, parser) \<Rightarrow>
      let P = P\<lparr>mParser := Some parser, mSubtitlePts32Bit := False\<rparr>
      in case item of None \<Rightarrow> P | Some s \<Rightarrow> receive_spu (timestamp P) s P)"

definition check_stream :: "(AML_SPUVAR \<Rightarrow> u8 list option) \<Rightarrow> int \<Rightarrow> Presentation \<Rightarrow> Presentation option" where
  "check_stream gen ts P = do {
     (go_on, P) \<leftarrow> handle_showing gen ts P;
     Some (if go_on then (handle_fading gen ts P)\<lparr>mSubtitlePts32Bit := False\<rparr> else P)
   }"

definition handleStreamSub :: "(AML_SPUVAR \<Rightarrow> u8 list option) \<Rightarrow> int \<Rightarrow> MessageProcess \<Rightarrow> Presentation \<Rightarrow> Presentation option" where
  "handleStreamSub gen what mp P =
     (if what = MSG_PTS_TIME_CHECK_SPU then
        let P = request (removeMessages MSG_PTS_TIME_CHECK_SPU) P in
        if mRequestThreadExit mp then Some P
        else (case mParser P of None \<Rightarrow> Some P | Some parser \<Rightarrow> check_stream gen (timestamp P) (next_unit parser P))
      else if what = MSG_RESET_MESSAGE_QUEUE
      then Some (present_reset gen (P\<lparr>mEmittedShowingSpu := [], mEmittedFaddingSpu := []\<rparr>))
      else Some P)"

section \<open>The handler of external subtitles\<close>

text \<open>
  The loop over \<open>tryConsumeDecodedItem\<close>: it ends because every turn takes a unit out of the parser's
  queue.
\<close>

definition parser_items :: "Presentation \<Rightarrow> AML_SPUVAR list" where
  "parser_items P = (case mParser P of None \<Rightarrow> [] | Some p \<Rightarrow> mDecodedSpu p)"

definition take_item :: "Presentation \<Rightarrow> AML_SPUVAR option \<times> Presentation" where
  "take_item P =
     (case mParser P of
        None \<Rightarrow> (None, P)
      | Some p \<Rightarrow> (case tryConsumeDecodedItem p of (item, p) \<Rightarrow> (item, P\<lparr>mParser := Some p\<rparr>)))"

lemma take_item_smaller:
  "take_item P = (Some s, P') \<Longrightarrow> length (parser_items P') < length (parser_items P)"
  by (auto simp: take_item_def tryConsumeDecodedItem_def parser_items_def split: option.splits list.splits)

lemma push_cue_items [simp]: "parser_items (push_cue s P) = parser_items P"
  by (simp add: push_cue_def parser_items_def)

function collect_decoded :: "Presentation \<Rightarrow> Presentation" where
  "collect_decoded P =
     (case take_item P of
        (None, P) \<Rightarrow> P
      | (Some s, P) \<Rightarrow> collect_decoded (push_cue (s\<lparr>m_delay := fixSpuDelay (pts s) (m_delay s)\<rparr>) P))"
  by pat_completeness auto
termination
  by (relation "measure (\<lambda>P. length (parser_items P))") (auto dest: take_item_smaller [OF sym])

declare collect_decoded.simps [simp del]

fun computeShowingSpuList :: "cue list \<Rightarrow> int \<Rightarrow> cue list" where
  "computeShowingSpuList [] ts = []"
| "computeShowingSpuList (c # cs) ts =
     (let start = convertDvbTime2Ns (pts (snd c)); ptsEnd = convertDvbTime2Ns (m_delay (snd c));
          shown = (if ts \<ge> start \<and> ts \<le> ptsEnd then [c] else [])
      in if ptsEnd > ts then shown else shown @ computeShowingSpuList cs ts)"

text \<open>\<open>strcat\<close> of the text of a unit and a new line, at the end of what the buffer of \<open>room\<close> bytes holds.\<close>

fun cat_lines :: "int \<Rightarrow> cue list \<Rightarrow> u8 list \<Rightarrow> u8 list option" where
  "cat_lines room [] text = Some text"
| "cat_lines room (c # cs) text = do {
     data \<leftarrow> spu_data (snd c);
     line \<leftarrow> c_chars data;
     if int (length (text @ line @ [10])) + 1 \<le> room then cat_lines room cs (text @ line @ [10]) else None
   }"

text \<open>\<open>totalSize\<close> counts the first unit once for every unit. The result is \<open>None\<close> on an empty list.\<close>

definition joined_size :: "cue list \<Rightarrow> AML_SPUVAR \<Rightarrow> int" where
  "joined_size cues s = fold (\<lambda>_ n. wrap32 (n + u32_of (buffer_size s + 1))) cues 0"

definition getShowingSpuFromList :: "nat \<Rightarrow> cue list \<Rightarrow> cue option option" where
  "getShowingSpuFromList fresh cues =
     (case cues of
        [] \<Rightarrow> Some None
      | (k, s) # _ \<Rightarrow>
          if \<not> isSimpleText s then Some (Some (last cues))
          else if length cues > 1 then
            (let totalSize = joined_size cues s in
             if wrap32 (totalSize + 1) \<le> 0 then None
             else do {
               text \<leftarrow> cat_lines (totalSize + 1) cues [];
               Some (Some (fresh, s\<lparr>spu_data := Some (text @ replicate (nat (totalSize + 1) - length text) 0)\<rparr>))
             })
          else Some (Some (k, s)))"

text \<open>The unit that is found, unless it was found before or has less than 30 ms left.\<close>

definition present_external ::
  "(AML_SPUVAR \<Rightarrow> u8 list option) \<Rightarrow> int \<Rightarrow> cue option \<Rightarrow> MessageProcess \<Rightarrow> Presentation \<Rightarrow> MessageProcess \<times> Presentation" where
  "present_external gen ts cue mp P =
     (case cue of
        None \<Rightarrow> if mLastShowingSpu mp \<noteq> None then (mp\<lparr>mLastShowingSpu := None\<rparr>, present_reset gen P) else (mp, P)
      | Some (k, s) \<Rightarrow>
          let remainMs = m_delay s sdiv DVB_TIME_MULTI - ns2ms ts
          in (mp\<lparr>mLastShowingSpu := Some k\<rparr>,
              if mLastShowingSpu mp \<noteq> Some k \<and> remainMs \<ge> MINIMUM_REMAIN_DISPLAY_TIME_MS
              then send2RenderDisplay gen s (P\<lparr>mEmittedFaddingSpu := []\<rparr>) else P))"

definition check_external ::
  "(AML_SPUVAR \<Rightarrow> u8 list option) \<Rightarrow> MessageProcess \<Rightarrow> Presentation \<Rightarrow> (MessageProcess \<times> Presentation) option" where
  "check_external gen mp P =
     (let ts = timestamp P in do {
        cue \<leftarrow> getShowingSpuFromList (next_cue P) (computeShowingSpuList (mEmittedShowingSpu P) ts);
        Some (present_external gen ts cue mp (P\<lparr>next_cue := next_cue P + 1\<rparr>))
      })"

definition handleExtSub ::
  "(AML_SPUVAR \<Rightarrow> u8 list option) \<Rightarrow> int \<Rightarrow> MessageProcess \<Rightarrow> Presentation \<Rightarrow> (MessageProcess \<times> Presentation) option" where
  "handleExtSub gen what mp P =
     (if what = MSG_PTS_TIME_CHECK_SPU then
        let P = request (removeMessages MSG_PTS_TIME_CHECK_SPU) P in
        if mRequestThreadExit mp \<or> mParser P = None then Some (mp, P) else check_external gen mp (collect_decoded P)
      else if what = MSG_RESET_MESSAGE_QUEUE
      then Some (mp, present_reset gen (P\<lparr>mEmittedFaddingSpu := []\<rparr>))
      else Some (mp, P))"

section \<open>The handler\<close>

text \<open>Until the video has started, every message is answered by a new check.\<close>

definition handleMessage :: "(AML_SPUVAR \<Rightarrow> u8 list option) \<Rightarrow> int \<Rightarrow> Presentation \<Rightarrow> Presentation option" where
  "handleMessage gen what P =
     (case mMsgProcess P of
        None \<Rightarrow> Some P
      | Some mp \<Rightarrow>
          if mCurrentPresentRelativeTime P \<le> 0 then Some (request (check_in (ms2ns 200)) P)
          else if mIsExtSub mp then do {
            (mp, P) \<leftarrow> handleExtSub gen what mp P;
            Some (P\<lparr>mMsgProcess := Some mp\<rparr>)
          }
          else handleStreamSub gen what mp P)"

end
