(* ===== verification/Present_Times.thy ===== *)
theory Present_Times
  imports Presentation "HOL-Library.Multiset"
begin

text \<open>
  What the decisions of the presentation mean in terms of times: when a unit is due, when it is taken
  back, and which external units are shown.
\<close>

section \<open>Conversions\<close>

lemma sdiv_nonneg: "0 \<le> a \<Longrightarrow> 0 < b \<Longrightarrow> a sdiv b = a div (b :: int)"
  by (cases "a = 0") (simp_all add: signed_divide_int_def sgn_if)

lemma convertDvbTime2Ns_eq:
  assumes "0 \<le> t" "t < 2 ^ 43"
  shows "convertDvbTime2Ns t = t * 1000000 div 90"
proof -
  have "t * 1000000 < 2 ^ 63" using assms(2) by simp
  then have "convertDvbTime2Ns t = (t * 1000000) sdiv 90"
    using assms(1) by (simp add: convertDvbTime2Ns_def ms2ns_def DVB_TIME_MULTI_def)
  also have "\<dots> = t * 1000000 div 90" using assms(1) by (intro sdiv_nonneg) simp_all
  finally show ?thesis .
qed

lemma convertDvbTime2Ns_range:
  assumes "0 \<le> t" "t < 2 ^ 43"
  shows "0 \<le> convertDvbTime2Ns t" "convertDvbTime2Ns t < 2 ^ 60"
proof -
  have a: "t * 1000000 < 2 ^ 63" using assms(2) by simp
  show "0 \<le> convertDvbTime2Ns t" using assms by (simp add: convertDvbTime2Ns_eq)
  have "t * 1000000 div 90 \<le> 2 ^ 63 div 90" using a by (intro zdiv_mono1) simp_all
  also have "\<dots> < (2 ^ 60 :: int)" by simp
  finally show "convertDvbTime2Ns t < 2 ^ 60" using assms by (simp add: convertDvbTime2Ns_eq)
qed

lemma convertDvbTime2Ns_mono:
  assumes "0 \<le> s" "s \<le> t" "t < 2 ^ 43"
  shows "convertDvbTime2Ns s \<le> convertDvbTime2Ns t"
  using assms by (simp add: convertDvbTime2Ns_eq zdiv_mono1)

lemma size_of_neg:
  "0 < x \<Longrightarrow> x \<le> 2 ^ 63 \<Longrightarrow> size_of (- x) = 2 ^ 64 - x"
proof -
  assume x: "0 < x" "x \<le> 2 ^ 63"
  have "size_of (- x) = size_of (2 ^ 64 - x)" by (simp add: size_of_def mod_diff_left_eq [of _ "2 ^ 64", symmetric])
  then show ?thesis using x by simp
qed

section \<open>When a unit is due\<close>

lemma in_time_iff:
  assumes "0 \<le> convertDvbTime2Ns (pts s)" "convertDvbTime2Ns (pts s) < 2 ^ 60" "0 \<le> ts" "ts < 2 ^ 60"
  shows "in_time ts s \<longleftrightarrow> convertDvbTime2Ns (pts s) \<le> ts + tolerance"
  using assms by (simp add: in_time_def tolerance_def)

lemma ptsShowDiff_early:
  assumes "convertDvbTime2Ns (pts s) < 2 ^ 60" "0 \<le> ts" "ts + tolerance < convertDvbTime2Ns (pts s)"
  shows "ptsShowDiff ts s > 2 ^ 62"
proof -
  define x where "x = convertDvbTime2Ns (pts s) - (ts + tolerance)"
  have "size_of (- x) = 2 ^ 64 - x" using assms by (intro size_of_neg) (simp_all add: x_def tolerance_def)
  moreover have "ts + tolerance - convertDvbTime2Ns (pts s) = - x" by (simp add: x_def)
  moreover have "x < 2 ^ 60" using assms by (simp add: x_def tolerance_def)
  ultimately show ?thesis by (simp add: ptsShowDiff_def)
qed

lemma due_iff:
  assumes "0 \<le> pts s" "pts s < 2 ^ 43" "0 \<le> ts" "ts < 2 ^ 60"
  shows "due ts s \<longleftrightarrow> isImmediatePresent s \<or> convertDvbTime2Ns (pts s) \<le> ts + 33000000"
proof -
  note r = convertDvbTime2Ns_range [OF assms(1,2)]
  have "convertDvbTime2Ns (pts s) \<le> ts + tolerance" if "ptsShowDiff ts s \<le> 2000000000"
    using ptsShowDiff_early [OF r(2) assms(3)] that by (auto simp: not_le [symmetric])
  then show ?thesis using in_time_iff [OF r assms(3,4)]
    by (auto simp: due_def DEFAULT_SHOW_DIFF_MAX_TIME_def tolerance_def)
qed

text \<open>The branch for the units that come too late is never taken: they are in time, so they are due.\<close>

lemma never_too_late: "too_late ts s \<Longrightarrow> due ts s"
  by (simp add: too_late_def due_def)

section \<open>When a unit is taken back\<close>

lemma fade_due_iff:
  assumes "0 \<le> m_delay s" "m_delay s < 2 ^ 43" "0 < ts" "ts < 2 ^ 60"
  shows "fade_due ts s \<longleftrightarrow> convertDvbTime2Ns (m_delay s) \<le> ts \<or>
    convertDvbTime2Ns (m_delay s) > ts + (if isExtSub s then 5 else 100) * 1000000000"
proof -
  define d where "d = convertDvbTime2Ns (m_delay s)"
  have r: "0 \<le> d" "d < 2 ^ 60" using convertDvbTime2Ns_range [OF assms(1,2)] by (simp_all add: d_def)
  define tor :: int where "tor = (if isExtSub s then 5 else 100) * 1000000000"
  have tor: "0 < tor" "tor \<le> 100000000000" by (simp_all add: tor_def)
  have first: "size_of d \<le> size_of ts \<and> size_of (size_of d * 5) > size_of ts \<longleftrightarrow> d \<le> ts \<and> d * 5 > ts"
    using r assms(3,4) by simp
  have second: "size_of (size_of d - ts) > tor \<longleftrightarrow> d < ts \<or> d - ts > tor"
  proof (cases "d < ts")
    case True
    then have "size_of (- (ts - d)) = 2 ^ 64 - (ts - d)" using r assms(3,4) by (intro size_of_neg) simp_all
    moreover have "size_of d - ts = - (ts - d)" using r by simp
    moreover have "ts - d < 2 ^ 60" using r assms(4) by simp
    ultimately show ?thesis using True tor by simp
  next
    case False
    then show ?thesis using r assms(3,4) tor by simp
  qed
  have "fade_due ts s \<longleftrightarrow> d \<le> ts \<and> d * 5 > ts \<or> d < ts \<or> d - ts > tor"
    using first second assms(3) unfolding fade_due_def Let_def d_def [symmetric]
    by (cases "isExtSub s") (simp_all add: tor_def)
  also have "\<dots> \<longleftrightarrow> d \<le> ts \<or> d > ts + tor" using r assms(3) tor by auto
  finally show ?thesis by (simp add: d_def tor_def)
qed

section \<open>The external units that are shown\<close>

definition active :: "int \<Rightarrow> AML_SPUVAR \<Rightarrow> bool" where
  "active ts s \<longleftrightarrow> convertDvbTime2Ns (pts s) \<le> ts \<and> ts \<le> convertDvbTime2Ns (m_delay s)"

lemma computeShowing_active: "c \<in> set (computeShowingSpuList cs ts) \<Longrightarrow> c \<in> set cs \<and> active ts (snd c)"
  by (induction cs) (auto simp: active_def Let_def split: if_splits)

text \<open>Units that do not overlap: each has ended when the next one starts.\<close>

fun apart :: "cue list \<Rightarrow> bool" where
  "apart [] = True"
| "apart (c # cs) = ((\<forall>d \<in> set cs. convertDvbTime2Ns (m_delay (snd c)) \<le> convertDvbTime2Ns (pts (snd d))) \<and> apart cs)"

lemma computeShowing_apart:
  assumes "apart cs"
  shows "computeShowingSpuList cs ts = filter (\<lambda>c. active ts (snd c)) cs"
  using assms
proof (induction cs)
  case (Cons c cs)
  have none: "filter (\<lambda>c. active ts (snd c)) cs = []" if "convertDvbTime2Ns (m_delay (snd c)) > ts"
    using Cons.prems that by (force simp: active_def filter_empty_conv)
  have IH: "computeShowingSpuList cs ts = filter (\<lambda>c. active ts (snd c)) cs" using Cons by simp
  show ?case
    by (cases "convertDvbTime2Ns (m_delay (snd c)) > ts") (use none IH in \<open>auto simp: Let_def active_def\<close>)
qed simp

text \<open>One that is on, and goes on, hides every later one.\<close>

lemma computeShowing_overlap:
  "ts < convertDvbTime2Ns (m_delay (snd c)) \<Longrightarrow> computeShowingSpuList (c # cs) ts = (if active ts (snd c) then [c] else [])"
  by (simp add: active_def)

section \<open>Collecting the external units\<close>

definition fixed_spu :: "AML_SPUVAR \<Rightarrow> AML_SPUVAR" where
  "fixed_spu s = s\<lparr>m_delay := fixSpuDelay (pts s) (m_delay s)\<rparr>"

fun numbered :: "nat \<Rightarrow> AML_SPUVAR list \<Rightarrow> cue list" where
  "numbered k [] = []"
| "numbered k (s # ss) = (k, s) # numbered (k + 1) ss"

lemma sort_cues_again: "sort_cues (sort_cues xs @ ys) = sort_cues (xs @ ys)"
proof -
  let ?f = "\<lambda>c :: cue. pts (snd c)"
  have stable: "filter (\<lambda>x. ?f k = ?f x) (sort_key ?f zs) = filter (\<lambda>x. ?f k = ?f x) zs" for k zs
    using sort_key_stable [of ?f "?f k" zs] by (simp add: eq_commute)
  have "sort_key ?f (xs @ ys) = sort_key ?f (sort_key ?f xs @ ys)"
    by (rule properties_for_sort_key) (simp_all add: stable)
  then show ?thesis by (simp add: sort_cues_def)
qed

lemma collect_decoded_step:
  "take_item P = (None, P') \<Longrightarrow> collect_decoded P = P'"
  "take_item P = (Some s, P') \<Longrightarrow> collect_decoded P = collect_decoded (push_cue (fixed_spu s) P')"
  by (simp_all add: collect_decoded.simps [of P] fixed_spu_def)

lemma sort_cues_idem [simp]: "sort_cues (sort_cues xs) = sort_cues xs"
  using sort_cues_again [of xs "[]"] by simp

text \<open>The loop ends with the parser's queue empty, and every unit in its place by time.\<close>

lemma collect_decoded_all:
  assumes "mParser P = Some p" "sort_cues (mEmittedShowingSpu P) = mEmittedShowingSpu P"
  shows "collect_decoded P = P\<lparr>mParser := Some (p\<lparr>mDecodedSpu := []\<rparr>),
    mEmittedShowingSpu := sort_cues (mEmittedShowingSpu P @ numbered (next_cue P) (map fixed_spu (mDecodedSpu p))),
    next_cue := next_cue P + length (mDecodedSpu p)\<rparr>"
  using assms
proof (induction "mDecodedSpu p" arbitrary: P p)
  case Nil
  then have "take_item P = (None, P)" by (simp add: take_item_def tryConsumeDecodedItem_def)
  moreover have "p\<lparr>mDecodedSpu := []\<rparr> = p" using Nil by simp
  ultimately show ?case using Nil.prems Nil.hyps [symmetric] by (simp add: collect_decoded_step)
next
  case (Cons s ss)
  let ?p = "p\<lparr>mDecodedSpu := ss\<rparr>"
  let ?P = "push_cue (fixed_spu s) (P\<lparr>mParser := Some ?p\<rparr>)"
  have "take_item P = (Some s, P\<lparr>mParser := Some ?p\<rparr>)"
    using Cons.prems(1) Cons.hyps(2) [symmetric] by (simp add: take_item_def tryConsumeDecodedItem_def)
  then have "collect_decoded P = collect_decoded ?P" by (rule collect_decoded_step)
  also have "\<dots> = ?P\<lparr>mParser := Some (?p\<lparr>mDecodedSpu := []\<rparr>),
      mEmittedShowingSpu := sort_cues (mEmittedShowingSpu ?P @ numbered (next_cue ?P) (map fixed_spu (mDecodedSpu ?p))),
      next_cue := next_cue ?P + length (mDecodedSpu ?p)\<rparr>"
    by (rule Cons.hyps(1)) (simp_all add: push_cue_def)
  finally show ?case using Cons.prems Cons.hyps(2) [symmetric]
    by (simp add: push_cue_def sort_cues_again [of _ "numbered _ _"])
qed

end
