(* ===== verification/Present_Invariant.thy ===== *)
theory Present_Invariant
  imports Present_Times
begin

text \<open>
  What the presentation keeps: whatever is on the screen belongs to a unit that waits to be taken back.
\<close>

section \<open>The renderer\<close>

definition object_ok :: "AML_SPUVAR \<Rightarrow> bool" where
  "object_ok s \<longleftrightarrow> 0 \<le> objectSegmentId s \<and> objectSegmentId s < 2 ^ 31"

definition render_ok :: "Render \<Rightarrow> bool" where
  "render_ok r \<longleftrightarrow> render_inv r \<and> hasQueue r"

definition blank :: "Render \<Rightarrow> bool" where
  "blank r \<longleftrightarrow> (\<forall>k. \<not> on_screen (posted r) k)"

lemma post_newest_queue: "hasQueue (snd (post_newest gen ss r)) = hasQueue r"
  by (induction ss arbitrary: r) (auto simp: Let_def split: option.split)

lemma post_queue: "hasQueue (snd (postSubtitleData gen r)) = hasQueue r"
  unfolding postSubtitleData_def case_prod_unfold by (cases "mShowingSubs r = []") (simp_all add: post_newest_queue del: post_newest.simps)

lemma render_queue [simp]:
  "hasQueue (snd (showSubtitleItem gen s type r)) = hasQueue r" "hasQueue (snd (hideSubtitleItem gen r)) = hasQueue r"
  "hasQueue (resetSubtitleItem gen r) = hasQueue r" "hasQueue (snd (hideObjectIdSubtitleItem type k r)) = hasQueue r"
  "hasQueue (removeSubtitleItem s r) = hasQueue r"
  by (simp_all add: showSubtitleItem_def hideSubtitleItem_def resetSubtitleItem_def hideObjectIdSubtitleItem_def
    postObjectIdSubtitleData_def removeSubtitleItem_def post_queue)

lemma render_ok_calls:
  assumes "render_ok r"
  shows "object_ok s \<Longrightarrow> render_ok (snd (showSubtitleItem gen s type r))" "render_ok (snd (hideSubtitleItem gen r))"
    "render_ok (resetSubtitleItem gen r)" "render_ok (snd (hideObjectIdSubtitleItem type k r))" "render_ok (removeSubtitleItem s' r)"
  using assms render_calls_inv(1) [of r s] render_calls_inv(2-4) [of r] hideObject_inv [of r]
  by (auto simp: render_ok_def object_ok_def)

lemma blank_calls:
  assumes "render_ok r"
  shows "blank (snd (hideSubtitleItem gen r))" "blank (resetSubtitleItem gen r)"
  using assms hide_clears [of r gen] by (auto simp: render_ok_def blank_def resetSubtitleItem_def hideSubtitleItem_def)

lemma removeSubtitleItem_frame [simp]: "posted (removeSubtitleItem s r) = posted r"
  by (simp add: removeSubtitleItem_def)

section \<open>The invariant of the stream handler\<close>

definition cues_ok :: "cue list \<Rightarrow> bool" where
  "cues_ok cues \<longleftrightarrow> (\<forall>c \<in> set cues. object_ok (snd c))"

lemma cues_ok_simps [simp]:
  "cues_ok []" "cues_ok (c # cs) \<longleftrightarrow> object_ok (snd c) \<and> cues_ok cs" "cues_ok (cs @ ds) \<longleftrightarrow> cues_ok cs \<and> cues_ok ds"
  "cues_ok (sort_cues cs) \<longleftrightarrow> cues_ok cs"
  by (auto simp: cues_ok_def sort_cues_def)

lemma cues_ok_sub: "cues_ok cs \<Longrightarrow> set ds \<subseteq> set cs \<Longrightarrow> cues_ok ds"
  by (auto simp: cues_ok_def)

definition stream_inv :: "Presentation \<Rightarrow> bool" where
  "stream_inv P \<longleftrightarrow> render_ok (mRender P) \<and> \<not> hasAiTranslation P \<and>
     (mEmittedFaddingSpu P = [] \<longrightarrow> blank (mRender P)) \<and> length (mEmittedFaddingSpu P) \<le> 1 \<and>
     cues_ok (mEmittedShowingSpu P) \<and> (\<forall>s \<in> set (parser_items P). object_ok s)"

lemma stream_inv_frame:
  assumes "mRender P' = mRender P" "hasAiTranslation P' = hasAiTranslation P" "mEmittedFaddingSpu P' = mEmittedFaddingSpu P"
    "cues_ok (mEmittedShowingSpu P')" "set (parser_items P') \<subseteq> set (parser_items P)" "stream_inv P"
  shows "stream_inv P'"
  using assms by (auto simp: stream_inv_def)

lemma object_ok_rebase [simp]: "object_ok (rebase_spu ts s) = object_ok s"
  by (simp add: rebase_spu_def object_ok_def Let_def)

lemma object_ok_sync [simp]: "object_ok (sync_spu ts s) = object_ok s"
  by (simp add: sync_spu_def compareBitAndSyncPts_def object_ok_def Let_def)

lemma join_second_ok:
  assumes "join_second s cues = Some (s', cues')" "object_ok s" "cues_ok cues"
  shows "object_ok s'" "cues_ok cues'"
  using assms by (auto simp: join_second_def combineSamePtsSubtitle_def object_ok_def
      split: list.splits Option.bind_splits if_splits)

lemma receive_spu_inv:
  assumes "stream_inv P" "object_ok s"
  shows "stream_inv (receive_spu ts s P)"
proof -
  define P1 where "P1 = P\<lparr>mSubtitlePts32Bit := \<not> isMore32Bit_present (pts (rebase_spu ts s))\<rparr>"
  have inv: "stream_inv P1" using assms(1) by (simp add: P1_def stream_inv_def parser_items_def)
  have push: "stream_inv (push_cue (rebase_spu ts s) P1)"
    using inv assms(2) by (simp add: stream_inv_def push_cue_def parser_items_def)
  have drop: "stream_inv (Q\<lparr>mEmittedShowingSpu := drop n (mEmittedShowingSpu Q)\<rparr>)" if "stream_inv Q" for Q n
    using that cues_ok_sub [OF _ set_drop_subset, of "mEmittedShowingSpu Q" n] by (simp add: stream_inv_def parser_items_def)
  show ?thesis unfolding receive_spu_def Let_def P1_def [symmetric]
    by (auto intro: inv push drop simp del: One_nat_def)
qed

lemma display_spu_ok:
  assumes "render_ok (mRender P)" "\<not> hasAiTranslation P" "object_ok s"
  shows "render_ok (mRender (display_spu gen s P))"
  using assms render_ok_calls [OF assms(1)]
  by (auto simp: display_spu_def send2RenderDisplay_def present_show_def present_hide_def split: option.split)

lemma display_spu_frame [simp]:
  "mEmittedFaddingSpu (display_spu gen s P) = mEmittedFaddingSpu P" "mEmittedShowingSpu (display_spu gen s P) = mEmittedShowingSpu P"
  "mParser (display_spu gen s P) = mParser P" "hasAiTranslation (display_spu gen s P) = hasAiTranslation P"
  "requests (display_spu gen s P) = requests P" "mMsgProcess (display_spu gen s P) = mMsgProcess P"
  by (simp_all add: display_spu_def send2RenderDisplay_def present_show_def present_hide_def split: option.split)

lemma add_fading_frame [simp]:
  "mEmittedShowingSpu (add_fading c P) = mEmittedShowingSpu P" "mParser (add_fading c P) = mParser P"
  "hasAiTranslation (add_fading c P) = hasAiTranslation P" "requests (add_fading c P) = requests P"
  "posted (mRender (add_fading c P)) = posted (mRender P)" "mMsgProcess (add_fading c P) = mMsgProcess P"
  by (simp_all add: add_fading_def present_remove_def split: list.split)

lemma add_fading_single: "length (mEmittedFaddingSpu P) \<le> 1 \<Longrightarrow> mEmittedFaddingSpu (add_fading c P) = [c]"
  by (auto simp: add_fading_def present_remove_def split: list.split)

lemma add_fading_ok: "render_ok (mRender P) \<Longrightarrow> render_ok (mRender (add_fading c P))"
  by (auto simp: add_fading_def present_remove_def render_ok_calls split: list.split)

lemma parser_items_cong: "mParser P = mParser P' \<Longrightarrow> parser_items P = parser_items P'"
  by (simp add: parser_items_def)

lemma show_cue_inv:
  assumes "stream_inv P" "show_cue gen ts k s P = Some P'" "object_ok s"
  shows "stream_inv P'"
proof -
  obtain s' cues where join: "join_second s (tl (mEmittedShowingSpu P)) = Some (s', cues)"
    and P': "P' = add_fading (k, fix_fading ts s') (display_spu gen s' (P\<lparr>mEmittedShowingSpu := cues\<rparr>))"
    using assms(2) by (auto simp: show_cue_def Let_def split: Option.bind_splits)
  have "cues_ok (tl (mEmittedShowingSpu P))"
    using assms(1) by (cases "mEmittedShowingSpu P") (simp_all add: stream_inv_def)
  note ok = join_second_ok [OF join assms(3) this]
  have "render_ok (mRender (display_spu gen s' (P\<lparr>mEmittedShowingSpu := cues\<rparr>)))"
    using assms(1) ok(1) by (intro display_spu_ok) (simp_all add: stream_inv_def)
  moreover have "parser_items P' = parser_items P" by (intro parser_items_cong) (simp add: P')
  moreover have "mEmittedFaddingSpu P' = [(k, fix_fading ts s')]"
    using assms(1) unfolding P' by (intro add_fading_single) (simp add: stream_inv_def)
  ultimately show ?thesis using assms(1) ok(2) by (simp add: stream_inv_def P' add_fading_ok)
qed

lemma stream_inv_request [simp]: "stream_inv (request r P) = stream_inv P"
  by (simp add: stream_inv_def request_def parser_items_def)

lemma stream_inv_reset:
  assumes "stream_inv P" "cues_ok cues"
  shows "stream_inv (present_reset gen (P\<lparr>mEmittedShowingSpu := cues, mEmittedFaddingSpu := []\<rparr>))"
  using assms render_ok_calls(3) [of "mRender P" gen] blank_calls(2) [of "mRender P" gen]
  by (simp add: stream_inv_def present_reset_def parser_items_def)

lemma stream_inv_queue:
  assumes "stream_inv P" "cues_ok cues"
  shows "stream_inv (P\<lparr>mEmittedShowingSpu := cues\<rparr>)"
  using assms by (simp add: stream_inv_def parser_items_def)

lemma present_cue_inv:
  assumes "stream_inv P" "object_ok (snd c)" "present_cue gen ts queued c P = Some P'"
  shows "stream_inv P'"
proof -
  define s where "s = sync_spu ts (snd c)"
  define P1 where "P1 = (if queued then P\<lparr>mEmittedShowingSpu := (fst c, s) # tl (mEmittedShowingSpu P)\<rparr> else P)"
  have s: "object_ok s" using assms(2) by (simp add: s_def)
  have "cues_ok (tl (mEmittedShowingSpu P))"
    using assms(1) by (cases "mEmittedShowingSpu P") (simp_all add: stream_inv_def)
  then have P1: "stream_inv P1" using assms(1) s by (simp add: P1_def stream_inv_queue)
  have "\<not> too_late ts s" if "\<not> due ts s" using that never_too_late by blast
  then show ?thesis using assms(3) P1 show_cue_inv [OF P1 _ s]
    unfolding present_cue_def Let_def s_def [symmetric] P1_def [symmetric] by (auto split: if_splits)
qed

lemma drop_expired_sub: "set (fst (drop_expired ts cs)) \<subseteq> set cs"
  by (induction cs) auto

lemma handle_showing_inv:
  assumes "stream_inv P" "handle_showing gen ts P = Some (go_on, P')"
  shows "stream_inv P'"
proof (cases "mEmittedShowingSpu P = []")
  case True
  then show ?thesis using assms by (simp add: handle_showing_def)
next
  case False
  obtain cues asked where d: "drop_expired ts (mEmittedShowingSpu P) = (cues, asked)" by fastforce
  define kept where "kept = filter (\<lambda>c. \<not> far_ahead ts (snd c)) cues"
  define P1 where "P1 = (if asked then request (check_in (ms2ns 100)) P else P)"
  have cues: "cues_ok cues" using assms(1) drop_expired_sub [of ts "mEmittedShowingSpu P"] d
    by (auto simp: stream_inv_def intro: cues_ok_sub)
  then have kept: "cues_ok kept" by (auto simp: kept_def intro: cues_ok_sub)
  have "stream_inv P1" using assms(1) by (simp add: P1_def)
  then have P1: "stream_inv (P1\<lparr>mEmittedShowingSpu := kept\<rparr>)" using kept by (rule stream_inv_queue)
  have hd: "object_ok (snd (hd cues))" if "kept \<noteq> []"
    using that cues by (cases cues) (simp_all add: kept_def)
  show ?thesis
  proof (cases "kept = []")
    case True
    then show ?thesis using assms(2) P1 False
      by (simp add: handle_showing_def d Let_def kept_def [symmetric] P1_def [symmetric])
  next
    case False
    then show ?thesis using assms(2) present_cue_inv [OF P1 hd [OF False]] \<open>mEmittedShowingSpu P \<noteq> []\<close>
      by (auto simp: handle_showing_def d Let_def kept_def [symmetric] P1_def [symmetric] split: Option.bind_splits)
  qed
qed

lemma handle_fading_inv:
  assumes "stream_inv P"
  shows "stream_inv (handle_fading gen ts P)"
proof (cases "mEmittedFaddingSpu P")
  case (Cons c rest)
  have "stream_inv (present_hide gen (P\<lparr>mEmittedFaddingSpu := []\<rparr>))"
    using assms render_ok_calls(2) [of "mRender P" gen] blank_calls(1) [of "mRender P" gen]
    by (simp add: stream_inv_def present_hide_def parser_items_def)
  moreover have "rest = []" using assms Cons by (simp add: stream_inv_def)
  ultimately show ?thesis using assms Cons by (simp add: handle_fading_def Let_def)
qed (simp add: handle_fading_def assms)

lemma stream_inv_pts32 [simp]: "stream_inv (P\<lparr>mSubtitlePts32Bit := b\<rparr>) = stream_inv P"
  by (simp add: stream_inv_def parser_items_def)

lemma tryConsume_items:
  "tryConsumeDecodedItem p = (item, p') \<Longrightarrow> set (mDecodedSpu p') \<subseteq> set (mDecodedSpu p) \<and> (\<forall>s. item = Some s \<longrightarrow> s \<in> set (mDecodedSpu p))"
  by (auto simp: tryConsumeDecodedItem_def split: list.splits)

lemma next_unit_inv:
  assumes "stream_inv P" "mParser P = Some p"
  shows "stream_inv (next_unit p P)"
proof -
  obtain item p' where t: "tryConsumeDecodedItem p = (item, p')" by fastforce
  define P1 where "P1 = P\<lparr>mParser := Some p', mSubtitlePts32Bit := False\<rparr>"
  note i = tryConsume_items [OF t]
  have "stream_inv P1"
    using assms(1) i assms(2) by (intro stream_inv_frame [OF _ _ _ _ _ assms(1)])
      (simp_all add: P1_def request_def parser_items_def stream_inv_def)
  moreover have "object_ok s" if "item = Some s" for s
    using assms i that by (auto simp: stream_inv_def parser_items_def)
  ultimately show ?thesis unfolding next_unit_def t Let_def P1_def [symmetric] prod.case
    by (auto intro: receive_spu_inv split: option.split)
qed

lemma check_stream_inv:
  assumes "stream_inv P" "check_stream gen ts P = Some P'"
  shows "stream_inv P'"
proof -
  obtain go_on P1 where s: "handle_showing gen ts P = Some (go_on, P1)"
    and P': "P' = (if go_on then (handle_fading gen ts P1)\<lparr>mSubtitlePts32Bit := False\<rparr> else P1)"
    using assms(2) by (auto simp: check_stream_def split: Option.bind_splits)
  have "stream_inv P1" using handle_showing_inv [OF assms(1) s] .
  then show ?thesis by (simp add: P' handle_fading_inv)
qed

lemma handleStreamSub_inv:
  assumes "stream_inv P" "handleStreamSub gen what mp P = Some P'"
  shows "stream_inv P'"
proof -
  let ?P = "request (removeMessages MSG_PTS_TIME_CHECK_SPU) P"
  have "stream_inv P'" if "mParser ?P = Some p" "check_stream gen (timestamp ?P) (next_unit p ?P) = Some P'" for p
    using check_stream_inv [OF next_unit_inv that(2)] that(1) assms(1) by simp
  moreover have "stream_inv (present_reset gen (P\<lparr>mEmittedShowingSpu := [], mEmittedFaddingSpu := []\<rparr>))"
    using assms(1) by (simp add: stream_inv_reset)
  ultimately show ?thesis using assms unfolding handleStreamSub_def Let_def
    by (auto split: if_splits option.splits)
qed

section \<open>The invariant of the external handler\<close>

definition external_inv :: "MessageProcess \<Rightarrow> Presentation \<Rightarrow> bool" where
  "external_inv mp P \<longleftrightarrow> render_ok (mRender P) \<and> \<not> hasAiTranslation P \<and> (mLastShowingSpu mp = None \<longrightarrow> blank (mRender P)) \<and>
     cues_ok (mEmittedShowingSpu P) \<and> (\<forall>s \<in> set (parser_items P). object_ok s)"

lemma collect_decoded_frame:
  "mRender (collect_decoded P) = mRender P \<and> mEmittedFaddingSpu (collect_decoded P) = mEmittedFaddingSpu P \<and> hasAiTranslation (collect_decoded P) = hasAiTranslation P \<and>
   timestamp (collect_decoded P) = timestamp P \<and>
   (cues_ok (mEmittedShowingSpu P) \<and> (\<forall>s \<in> set (parser_items P). object_ok s) \<longrightarrow>
    cues_ok (mEmittedShowingSpu (collect_decoded P)) \<and> (\<forall>s \<in> set (parser_items (collect_decoded P)). object_ok s))"
proof (induction P rule: collect_decoded.induct)
  case (1 P)
  show ?case
  proof (cases "fst (take_item P)")
    case None
    then have "take_item P = (None, P)"
      by (auto simp: take_item_def tryConsumeDecodedItem_def split: option.splits list.splits)
    then show ?thesis by (simp add: collect_decoded_step)
  next
    case (Some s)
    then obtain p rest where p: "mParser P = Some p" "mDecodedSpu p = s # rest"
      by (auto simp: take_item_def tryConsumeDecodedItem_def split: option.splits list.splits)
    let ?P = "P\<lparr>mParser := Some (p\<lparr>mDecodedSpu := rest\<rparr>)\<rparr>"
    have t: "take_item P = (Some s, ?P)" using p by (simp add: take_item_def tryConsumeDecodedItem_def)
    let ?Q = "push_cue (fixed_spu s) ?P"
    have same: "mRender ?Q = mRender P" "hasAiTranslation ?Q = hasAiTranslation P" "timestamp ?Q = timestamp P"
      "mEmittedFaddingSpu ?Q = mEmittedFaddingSpu P"
      by (simp_all add: push_cue_def timestamp_def)
    have ok: "cues_ok (mEmittedShowingSpu ?Q) \<and> (\<forall>s \<in> set (parser_items ?Q). object_ok s)"
      if "cues_ok (mEmittedShowingSpu P) \<and> (\<forall>s \<in> set (parser_items P). object_ok s)"
      using that p by (simp add: push_cue_def parser_items_def object_ok_def fixed_spu_def)
    show ?thesis using 1 [OF t [symmetric] refl, folded fixed_spu_def] ok
      unfolding collect_decoded_step(2) [OF t] same by blast
  qed
qed

lemma computeShowing_sub: "set (computeShowingSpuList cs ts) \<subseteq> set cs"
  using computeShowing_active by blast

lemma getShowing_ok:
  assumes "getShowingSpuFromList fresh cues = Some (Some (k, s))" "cues_ok cues"
  shows "object_ok s"
proof (cases cues)
  case (Cons c rest)
  have "object_ok (snd (last cues))" using assms(2) Cons last_in_set [of cues] by (auto simp: cues_ok_def)
  then show ?thesis using assms Cons
    by (cases c) (auto simp: getShowingSpuFromList_def Let_def object_ok_def split: if_splits Option.bind_splits)
qed (use assms in \<open>simp add: getShowingSpuFromList_def\<close>)

lemma send2Render_ok:
  assumes "render_ok (mRender P)" "\<not> hasAiTranslation P" "object_ok s"
  shows "render_ok (mRender (send2RenderDisplay gen s P))"
  using assms render_ok_calls(1) [OF assms(1,3)] by (auto simp: send2RenderDisplay_def present_show_def split: option.split)

lemma send2Render_frame [simp]:
  "mEmittedShowingSpu (send2RenderDisplay gen s P) = mEmittedShowingSpu P" "mParser (send2RenderDisplay gen s P) = mParser P"
  "hasAiTranslation (send2RenderDisplay gen s P) = hasAiTranslation P"
  by (simp_all add: send2RenderDisplay_def present_show_def split: option.split)

lemma external_inv_simps [simp]:
  "external_inv mp (request r P) = external_inv mp P" "external_inv mp (P\<lparr>next_cue := n\<rparr>) = external_inv mp P"
  "external_inv mp (P\<lparr>mEmittedFaddingSpu := cs\<rparr>) = external_inv mp P"
  by (simp_all add: external_inv_def request_def parser_items_def)

lemma external_inv_reset:
  assumes "external_inv mp P"
  shows "external_inv mp' (present_reset gen P)"
  using assms render_ok_calls(3) [of "mRender P" gen] blank_calls(2) [of "mRender P" gen]
  by (simp add: external_inv_def present_reset_def parser_items_def)

lemma external_inv_shown:
  assumes "external_inv mp P" "object_ok s"
  shows "external_inv (mp'\<lparr>mLastShowingSpu := Some k\<rparr>) P" "external_inv (mp'\<lparr>mLastShowingSpu := Some k\<rparr>) (send2RenderDisplay gen s P)"
  using assms send2Render_ok [of P s gen] by (simp_all add: external_inv_def parser_items_def)

lemma check_external_inv:
  assumes "external_inv mp P" "check_external gen mp P = Some (mp', P')"
  shows "external_inv mp' P'"
proof -
  define shown where "shown = computeShowingSpuList (mEmittedShowingSpu P) (timestamp P)"
  obtain cue where cue: "getShowingSpuFromList (next_cue P) shown = Some cue"
    and r: "present_external gen (timestamp P) cue mp (P\<lparr>next_cue := next_cue P + 1\<rparr>) = (mp', P')"
    using assms(2) by (auto simp: check_external_def Let_def shown_def split: Option.bind_splits)
  have shown: "cues_ok shown" using assms(1) computeShowing_sub [of "mEmittedShowingSpu P" "timestamp P"]
    by (auto simp: external_inv_def shown_def intro: cues_ok_sub)
  show ?thesis
  proof (cases cue)
    case None
    then show ?thesis using r assms(1) by (auto simp: present_external_def external_inv_reset split: if_splits)
  next
    case (Some c)
    obtain k s where c: "c = (k, s)" by (cases c)
    have s: "object_ok s" using getShowing_ok [OF _ shown] cue Some c by simp
    define P1 where "P1 = P\<lparr>next_cue := next_cue P + 1\<rparr>"
    have inv: "external_inv mp P1" "external_inv mp (P1\<lparr>mEmittedFaddingSpu := []\<rparr>)" using assms(1) by (simp_all add: P1_def)
    have "mp' = mp\<lparr>mLastShowingSpu := Some k\<rparr> \<and> (P' = P1 \<or> P' = send2RenderDisplay gen s (P1\<lparr>mEmittedFaddingSpu := []\<rparr>))"
      using r unfolding Some c P1_def [symmetric] by (auto simp: present_external_def Let_def split: if_splits)
    then show ?thesis using external_inv_shown(1) [OF inv(1) s, where mp' = mp and k = k] external_inv_shown(2) [OF inv(2) s, where mp' = mp and k = k and gen = gen] by auto
  qed
qed

lemma collect_decoded_inv: "external_inv mp P \<Longrightarrow> external_inv mp (collect_decoded P)"
  using collect_decoded_frame [of P] unfolding external_inv_def by metis

text \<open>The calls of the external handler, case by case.\<close>

lemma handleExtSub_cases:
  assumes "handleExtSub gen what mp P = Some (mp', P')"
  obtains "mp' = mp" "P' = P" | "mp' = mp" "P' = request (removeMessages MSG_PTS_TIME_CHECK_SPU) P"
  | "mp' = mp" "P' = present_reset gen (P\<lparr>mEmittedFaddingSpu := []\<rparr>)"
  | "check_external gen mp (collect_decoded (request (removeMessages MSG_PTS_TIME_CHECK_SPU) P)) = Some (mp', P')"
proof -
  let ?R = "request (removeMessages MSG_PTS_TIME_CHECK_SPU) P"
  show thesis
  proof (cases "what = MSG_PTS_TIME_CHECK_SPU")
    case True
    then have "(if mRequestThreadExit mp \<or> mParser ?R = None then Some (mp, ?R) else check_external gen mp (collect_decoded ?R)) = Some (mp', P')"
      using assms unfolding handleExtSub_def Let_def by simp
    then show thesis
      by (cases "mRequestThreadExit mp \<or> mParser ?R = None") (use that(2,4) in simp_all)
  next
    case False
    then have "(if what = MSG_RESET_MESSAGE_QUEUE then Some (mp, present_reset gen (P\<lparr>mEmittedFaddingSpu := []\<rparr>)) else Some (mp, P)) = Some (mp', P')"
      using assms unfolding handleExtSub_def by simp
    then show thesis by (cases "what = MSG_RESET_MESSAGE_QUEUE") (use that(1,3) in simp_all)
  qed
qed

lemma handleExtSub_inv:
  assumes "external_inv mp P" "handleExtSub gen what mp P = Some (mp', P')"
  shows "external_inv mp' P'"
  using assms(2)
proof (cases rule: handleExtSub_cases)
  case 3
  have "external_inv mp (P\<lparr>mEmittedFaddingSpu := []\<rparr>)" using assms(1) by simp
  from external_inv_reset [OF this] show ?thesis using 3 by simp
next
  case 4
  have "external_inv mp (request (removeMessages MSG_PTS_TIME_CHECK_SPU) P)" using assms(1) by simp
  from check_external_inv [OF collect_decoded_inv [OF this] 4] show ?thesis .
qed (use assms(1) in simp_all)

lemma check_external_kind: "check_external gen mp P = Some (mp', P') \<Longrightarrow> mIsExtSub mp' = mIsExtSub mp"
  by (auto simp: check_external_def present_external_def Let_def split: Option.bind_splits option.splits if_splits)

lemma handleExtSub_kind: "handleExtSub gen what mp P = Some (mp', P') \<Longrightarrow> mIsExtSub mp' = mIsExtSub mp"
  by (erule handleExtSub_cases) (simp_all add: check_external_kind)

section \<open>Runs\<close>

text \<open>What happens to a presentation between its start and its stop.\<close>

inductive present_step :: "(AML_SPUVAR \<Rightarrow> u8 list option) \<Rightarrow> Presentation \<Rightarrow> Presentation \<Rightarrow> bool" for gen where
  handled: "handleMessage gen what P = Some P' \<Longrightarrow> present_step gen P P'"
| video: "present_step gen P (snd (syncCurrentPresentTime now time P))"
| start_time: "present_step gen P (notifyStartTimeStamp time P)"
| sought: "present_step gen P (present_resetForSeek P)"
| decoded: "mParser P = Some p \<Longrightarrow> object_ok s \<Longrightarrow>
    present_step gen P (present_notifySubdataAdded (P\<lparr>mParser := Some (addDecodedItem s p)\<rparr>))"

definition run_inv :: "Presentation \<Rightarrow> bool" where
  "run_inv P \<longleftrightarrow> (case mMsgProcess P of None \<Rightarrow> False | Some mp \<Rightarrow> if mIsExtSub mp then external_inv mp P else stream_inv P)"

lemma receive_spu_frame [simp]: "mMsgProcess (receive_spu ts s P) = mMsgProcess P"
  by (simp add: receive_spu_def push_cue_def Let_def)

lemma request_frame [simp]: "mMsgProcess (request r P) = mMsgProcess P"
  by (simp add: request_def)

lemma next_unit_frame [simp]: "mMsgProcess (next_unit p P) = mMsgProcess P"
  by (auto simp: next_unit_def Let_def split: option.split prod.split)

lemma present_cue_frame: "present_cue gen ts queued c P = Some P' \<Longrightarrow> mMsgProcess P' = mMsgProcess P"
  by (auto simp: present_cue_def show_cue_def Let_def present_reset_def split: if_splits Option.bind_splits)

lemma handle_showing_frame: "handle_showing gen ts P = Some (go_on, P') \<Longrightarrow> mMsgProcess P' = mMsgProcess P"
  by (auto simp: handle_showing_def Let_def dest!: present_cue_frame split: if_splits Option.bind_splits prod.splits)

lemma handle_fading_frame [simp]: "mMsgProcess (handle_fading gen ts P) = mMsgProcess P"
  by (simp add: handle_fading_def Let_def present_hide_def split: list.split)

lemma handleStreamSub_frame: "handleStreamSub gen what mp P = Some P' \<Longrightarrow> mMsgProcess P' = mMsgProcess P"
  by (auto simp: handleStreamSub_def check_stream_def Let_def present_reset_def dest!: handle_showing_frame
      split: if_splits Option.bind_splits option.splits)

lemma handleMessage_inv:
  assumes "run_inv P" "handleMessage gen what P = Some P'"
  shows "run_inv P'"
proof -
  obtain mp where mp: "mMsgProcess P = Some mp" using assms(1) by (auto simp: run_inv_def split: option.splits)
  have ext: "run_inv P'" if "mIsExtSub mp" "handleExtSub gen what mp P = Some (mp', P1)" "P' = P1\<lparr>mMsgProcess := Some mp'\<rparr>" for mp' P1
    using that assms(1) mp handleExtSub_inv [of mp P gen what mp' P1] handleExtSub_kind [of gen what mp P mp' P1]
    by (simp add: run_inv_def external_inv_def parser_items_def)
  have "external_inv mp (request r P) = external_inv mp P" for r
    by (simp add: external_inv_def request_def parser_items_def)
  then have wait: "run_inv (request r P)" for r using assms(1) mp by (simp add: run_inv_def)
  show ?thesis
  proof (cases "mCurrentPresentRelativeTime P \<le> 0 \<or> mIsExtSub mp")
    case True
    then show ?thesis using assms(2) mp ext wait by (auto simp: handleMessage_def split: if_splits Option.bind_splits)
  next
    case False
    then have "handleStreamSub gen what mp P = Some P'" using assms(2) mp by (simp add: handleMessage_def)
    then show ?thesis using handleStreamSub_inv handleStreamSub_frame assms(1) mp False by (fastforce simp: run_inv_def)
  qed
qed

text \<open>The clock, the looper and the flags are no part of the invariant.\<close>

lemma run_inv_frame:
  assumes "run_inv P" "mRender P' = mRender P" "hasAiTranslation P' = hasAiTranslation P" "mEmittedFaddingSpu P' = mEmittedFaddingSpu P"
    "mEmittedShowingSpu P' = mEmittedShowingSpu P" "mMsgProcess P' = mMsgProcess P" "\<forall>s \<in> set (parser_items P'). object_ok s"
  shows "run_inv P'"
  using assms by (simp add: run_inv_def stream_inv_def external_inv_def split: option.splits if_splits)

lemma run_inv_notify: "run_inv P \<Longrightarrow> run_inv (notifyMessage what P)"
  by (simp add: run_inv_def stream_inv_def external_inv_def notifyMessage_def request_def parser_items_def split: option.splits if_splits)

lemma run_inv_items: "run_inv P \<Longrightarrow> \<forall>s \<in> set (parser_items P). object_ok s"
  by (auto simp: run_inv_def stream_inv_def external_inv_def split: option.splits if_splits)

lemma items_map_parser:
  assumes "\<And>p. mDecodedSpu (f p) = mDecodedSpu p" "mParser P' = map_option f (mParser P)"
  shows "parser_items P' = parser_items P"
  using assms by (simp add: parser_items_def split: option.split)

lemma addDecodedItem_items: "set (mDecodedSpu (addDecodedItem s p)) \<subseteq> insert s (set (mDecodedSpu p))"
proof -
  obtain dropped where "mDecodedSpu p = dropped @ pop_excess (mMaxSpuItems p) (mDecodedSpu p)" using pop_excess_suffix by blast
  then have "set (pop_excess (mMaxSpuItems p) (mDecodedSpu p)) \<subseteq> set (mDecodedSpu p)" by (metis Un_upper2 set_append)
  then show ?thesis by (auto simp: addDecodedItem_def notify_def Let_def)
qed

lemma video_inv:
  assumes "run_inv P"
  shows "run_inv (snd (syncCurrentPresentTime now time P))"
proof -
  define v where "v = (if mSubtitlePts32Bit P then time mod 2 ^ 32 else time)"
  define P1 where "P1 = P\<lparr>mCurrentPresentRelativeTime := convertDvbTime2Ns v, mParser := map_option (notifyRenderTimeChanged v) (mParser P),
    mStartPresentMonoTimeNs := wrap64 (now - convertDvbTime2Ns v)\<rparr>"
  have "parser_items P1 = parser_items P"
    by (rule items_map_parser [of "notifyRenderTimeChanged v"]) (simp_all add: P1_def notifyRenderTimeChanged_def)
  then have P1: "run_inv P1" using run_inv_items [OF assms] by (intro run_inv_frame [OF assms]) (simp_all add: P1_def)
  have "run_inv (P\<lparr>mCurrentPresentRelativeTime := a, mStartPresentMonoTimeNs := b\<rparr>)" for a b
    using run_inv_items [OF assms] by (intro run_inv_frame [OF assms]) (simp_all add: parser_items_def)
  then show ?thesis using P1 run_inv_notify [OF P1]
    unfolding syncCurrentPresentTime_def Let_def v_def [symmetric] P1_def [symmetric] by simp
qed

lemma start_time_inv:
  assumes "run_inv P"
  shows "run_inv (notifyStartTimeStamp time P)"
proof -
  have "parser_items (notifyStartTimeStamp time P) = parser_items P"
    by (rule items_map_parser [of "notifyRenderStartTimestamp time"])
      (simp_all add: notifyStartTimeStamp_def notifyRenderStartTimestamp_def)
  then show ?thesis using run_inv_items [OF assms]
    by (intro run_inv_frame [OF assms]) (simp_all add: notifyStartTimeStamp_def)
qed

lemma present_step_inv:
  assumes "present_step gen P P'" "run_inv P"
  shows "run_inv P'"
  using assms
proof (induction rule: present_step.induct)
  case (decoded P p s)
  have "\<forall>x \<in> set (mDecodedSpu (addDecodedItem s p)). object_ok x"
    using addDecodedItem_items [of s p] run_inv_items [OF decoded.prems] decoded.hyps by (auto simp: parser_items_def)
  then have "run_inv (P\<lparr>mParser := Some (addDecodedItem s p)\<rparr>)"
    by (intro run_inv_frame [OF decoded.prems]) (simp_all add: parser_items_def)
  then show ?case by (simp add: present_notifySubdataAdded_def run_inv_notify)
qed (auto simp: handleMessage_inv video_inv start_time_inv present_resetForSeek_def run_inv_notify)

lemma present_run_inv: "(present_step gen)\<^sup>*\<^sup>* P P' \<Longrightarrow> run_inv P \<Longrightarrow> run_inv P'"
  by (induction rule: rtranclp_induct) (auto intro: present_step_inv)

end
