(* ===== verification/Present_Life.thy ===== *)
theory Present_Life
  imports Present_Invariant
begin

text \<open>
  The life of a unit in the stream handler: a unit that is due is on the screen after the next check, and
  off it after the first check past its end.
\<close>

section \<open>A unit that needs no repair\<close>

text \<open>
  A picture or text whose times are those of a video that has reached it: it starts by now, at most 200 s
  ago, lasts a second or more and ends within the next 100 s.
\<close>

definition timely :: "int \<Rightarrow> AML_SPUVAR \<Rightarrow> bool" where
  "timely ts s \<longleftrightarrow> 90 \<le> pts s \<and> pts s + 90000 \<le> m_delay s \<and> m_delay s < 2 ^ 32 \<and>
     convertDvbTime2Ns (pts s) \<le> ts + 33000000 \<and> ts < convertDvbTime2Ns (pts s) + 200000000000 \<and>
     ts < convertDvbTime2Ns (m_delay s) \<and> convertDvbTime2Ns (m_delay s) \<le> ts + 100000000000"

definition plain_stream :: "AML_SPUVAR \<Rightarrow> bool" where
  "plain_stream s \<longleftrightarrow> \<not> isExtSub s \<and> \<not> isImmediatePresent s \<and> \<not> isKeepShowing s \<and> object_ok s \<and>
     0 \<le> buffer_size s \<and> 2 * buffer_size s < MAX_ALLOWED_QUEUED_MEM"

lemma timely_times:
  assumes "timely ts s" "0 < ts" "ts < 2 ^ 60"
  shows "0 \<le> pts s" "pts s < 2 ^ 43" "0 \<le> m_delay s" "m_delay s < 2 ^ 43" "0 < m_delay s"
    "0 \<le> convertDvbTime2Ns (pts s)" "convertDvbTime2Ns (pts s) < 2 ^ 60" "\<not> isMore32Bit_present (pts s)"
proof -
  show a: "0 \<le> pts s" "pts s < 2 ^ 43" "0 \<le> m_delay s" "m_delay s < 2 ^ 43" "0 < m_delay s"
    using assms(1) by (simp_all add: timely_def)
  show "0 \<le> convertDvbTime2Ns (pts s)" "convertDvbTime2Ns (pts s) < 2 ^ 60"
    using convertDvbTime2Ns_range [OF a(1,2)] by simp_all
  have "pts s < 2 ^ 32" using assms(1) by (simp add: timely_def)
  then show "\<not> isMore32Bit_present (pts s)" using a(1) by (simp add: isMore32Bit_present_def div_pos_pos_trivial)
qed

lemma rebase_timely:
  assumes "timely ts s" "0 < ts" "ts < 2 ^ 60"
  shows "rebase_spu ts s = s"
proof -
  define start where "start = convertDvbTime2Ns (pts s)"
  have r: "0 \<le> start" "start < 2 ^ 60" "start \<le> ts + 33000000" "ts < start + 200000000000"
    using timely_times [OF assms] assms(1) by (simp_all add: start_def timely_def)
  have "(if start > ts then wrap64 (start - ts) else wrap64 (ts - start)) < 200000000000" using r assms(2,3) by simp
  then show ?thesis unfolding rebase_spu_def Let_def start_def [symmetric] by (simp add: not_le)
qed

lemma less_of_div_le: "0 < b \<Longrightarrow> a div b \<le> x \<Longrightarrow> a < b * (x + 1)" for a b x :: int
proof -
  assume b: "0 < b" and "a div b \<le> x"
  then have "b * (a div b) \<le> b * x" by simp
  moreover have "b * (a div b) + a mod b = a" "a mod b < b" using b by simp_all
  ultimately have "a < b * x + b" by linarith
  then show ?thesis by (simp add: distrib_left)
qed

lemma far_ahead_timely:
  assumes "timely ts s" "0 < ts" "ts < 2 ^ 60"
  shows "\<not> far_ahead ts s"
proof -
  note t = timely_times [OF assms]
  define q where "q = ts div 1000000"
  have "pts s * 1000000 div 90 \<le> ts + 33000000" using assms(1) convertDvbTime2Ns_eq [OF t(1,2)] by (simp add: timely_def)
  then have "pts s * 1000000 < 90 * (ts + 33000000 + 1)" by (intro less_of_div_le) simp_all
  moreover have "ts < 1000000 * (q + 1)" by (simp add: q_def less_of_div_le)
  ultimately have "pts s < 90 * (q + 35)" by simp
  then have "pts s div 90 < q + 35" using zdiv_mono1 [of "90 * (q + 35)" "pts s" 90] by (simp add: not_le [symmetric])
  then show ?thesis using t(1) assms(2) by (simp add: q_def far_ahead_def ns2ms_def DVB_TIME_MULTI_def sdiv_nonneg)
qed

lemma sync_timely:
  assumes "timely ts s" "0 < ts" "ts < 2 ^ 60"
  shows "sync_spu ts s = s"
proof -
  note t = timely_times [OF assms]
  have "pts s div 90 > 0" using assms(1) by (simp add: timely_def pos_imp_zdiv_pos_iff)
  then have "\<not> pts s sdiv DVB_TIME_MULTI \<le> 0" using t(1) by (simp add: DVB_TIME_MULTI_def sdiv_nonneg)
  then show ?thesis using t(5,8) by (simp add: sync_spu_def compareBitAndSyncPts_def)
qed

lemma due_timely:
  assumes "timely ts s" "0 < ts" "ts < 2 ^ 60"
  shows "due ts s"
  using due_iff [of s ts] timely_times [OF assms] assms by (simp add: timely_def)

lemma fix_fading_timely:
  assumes "timely ts s" "0 < ts" "ts < 2 ^ 60" "\<not> isImmediatePresent s"
  shows "fix_fading ts s = s"
  using assms timely_times [OF assms(1-3)] by (simp add: fix_fading_def timely_def DVB_TIME_MULTI_def)

lemma fade_timely:
  assumes "timely ts s" "0 < ts" "ts < 2 ^ 60" "\<not> isExtSub s"
  shows "\<not> fade_due ts s"
  using fade_due_iff [of s ts] timely_times [OF assms(1-3)] assms by (simp add: timely_def)

section \<open>The check that shows it\<close>

lemma receive_timely:
  assumes "timely ts s" "0 < ts" "ts < 2 ^ 60" "plain_stream s" "mEmittedShowingSpu P = []"
  shows "receive_spu ts s P = P\<lparr>mSubtitlePts32Bit := True, mEmittedShowingSpu := [(next_cue P, s)], next_cue := next_cue P + 1\<rparr>"
proof -
  have b: "0 \<le> buffer_size s" "2 * buffer_size s < MAX_ALLOWED_QUEUED_MEM" using assms(4) by (simp_all add: plain_stream_def)
  then have "\<not> size_of (buffer_size s + totalQueuedMemSize [(next_cue P, s)]) \<ge> MAX_ALLOWED_QUEUED_MEM"
    by (simp add: totalQueuedMemSize_def MAX_ALLOWED_QUEUED_MEM_def)
  then show ?thesis using assms(2,5) timely_times(8) [OF assms(1-3)]
    unfolding receive_spu_def rebase_timely [OF assms(1-3)] Let_def
    by (simp add: push_cue_def sort_cues_def)
qed

lemma showing_timely:
  assumes "timely ts s" "0 < ts" "ts < 2 ^ 60" "plain_stream s" "mEmittedShowingSpu P = [(k, s)]"
  shows "handle_showing gen ts P = Some (True, add_fading (k, s) (display_spu gen s (P\<lparr>mEmittedShowingSpu := []\<rparr>)))"
proof -
  have p: "\<not> isExtSub s" "\<not> isImmediatePresent s" using assms(4) by (simp_all add: plain_stream_def)
  have "present_cue gen ts True (k, s) (P\<lparr>mEmittedShowingSpu := [(k, s)]\<rparr>) =
      Some (add_fading (k, s) (display_spu gen s (P\<lparr>mEmittedShowingSpu := []\<rparr>)))"
    using due_timely [OF assms(1-3)]
    by (simp add: present_cue_def sync_timely [OF assms(1-3)] show_cue_def join_second_def fix_fading_timely [OF assms(1-3) p(2)])
  then show ?thesis
    by (simp add: handle_showing_def assms(5) expired_def p(1) far_ahead_timely [OF assms(1-3)])
qed

lemma fading_timely:
  assumes "timely ts s" "0 < ts" "ts < 2 ^ 60" "plain_stream s" "mEmittedFaddingSpu P = [(k, s)]"
  shows "handle_fading gen ts P = request (check_in (if TYPE_SUBTITLE_PGS = subtitle_type s then ms2ns 8 else ms2ns 15)) P"
  using assms(4,5) fade_timely [OF assms(1-3)] by (simp add: handle_fading_def plain_stream_def)

section \<open>Checks of a running stream\<close>

definition stream_running :: "Parser \<Rightarrow> Presentation \<Rightarrow> bool" where
  "stream_running p P \<longleftrightarrow> mParser P = Some p \<and> 0 < mCurrentPresentRelativeTime P \<and>
     (case mMsgProcess P of None \<Rightarrow> False | Some mp \<Rightarrow> \<not> mIsExtSub mp \<and> \<not> mRequestThreadExit mp)"

lemma timestamp_request [simp]: "timestamp (request r P) = timestamp P"
  by (simp add: timestamp_def request_def)

lemma request_simps [simp]:
  "mParser (request r P) = mParser P" "mRender (request r P) = mRender P" "mEmittedShowingSpu (request r P) = mEmittedShowingSpu P"
  "mEmittedFaddingSpu (request r P) = mEmittedFaddingSpu P" "hasAiTranslation (request r P) = hasAiTranslation P"
  "next_cue (request r P) = next_cue P" "requests (request r P) = requests P @ [r]"
  by (simp_all add: request_def)

lemma handleMessage_check:
  assumes "stream_running p P"
  shows "handleMessage gen MSG_PTS_TIME_CHECK_SPU P =
    check_stream gen (timestamp P) (next_unit p (request (removeMessages MSG_PTS_TIME_CHECK_SPU) P))"
  using assms by (auto simp: stream_running_def handleMessage_def handleStreamSub_def split: option.splits)

lemma next_unit_none:
  "mDecodedSpu p = [] \<Longrightarrow> next_unit p P = P\<lparr>mParser := Some p, mSubtitlePts32Bit := False\<rparr>"
  by (simp add: next_unit_def tryConsumeDecodedItem_def)

lemma next_unit_some:
  "mDecodedSpu p = s # rest \<Longrightarrow>
   next_unit p P = receive_spu (timestamp P) s (P\<lparr>mParser := Some (p\<lparr>mDecodedSpu := rest\<rparr>), mSubtitlePts32Bit := False\<rparr>)"
  by (simp add: next_unit_def tryConsumeDecodedItem_def timestamp_def)

lemma timely_unit_shown:
  assumes "stream_running p P" "stream_inv P" "mDecodedSpu p = s # rest" "mEmittedShowingSpu P = []"
    "timely (timestamp P) s" "0 < timestamp P" "timestamp P < 2 ^ 60" "plain_stream s" "spu_data s = Some data"
    "getDisplayType (mParseType p) = SUBTITLE_IMAGE_DISPLAY \<longrightarrow> spu_width s > 0 \<and> spu_height s > 0"
  shows "\<exists>P'. handleMessage gen MSG_PTS_TIME_CHECK_SPU P = Some P' \<and> on_screen (posted (mRender P')) (objectSegmentId s) \<and>
    d_data (last (posted (mRender P'))) = Some data \<and> mEmittedShowingSpu P' = [] \<and> mEmittedFaddingSpu P' = [(next_cue P, s)]"
proof -
  let ?ts = "timestamp P" and ?k = "next_cue P"
  note timely = assms(5-7)
  define P1 where "P1 = (request (removeMessages MSG_PTS_TIME_CHECK_SPU) P)\<lparr>mParser := Some (p\<lparr>mDecodedSpu := rest\<rparr>), mSubtitlePts32Bit := False\<rparr>"
  define P2 where "P2 = P1\<lparr>mSubtitlePts32Bit := True, mEmittedShowingSpu := [(next_cue P1, s)], next_cue := next_cue P1 + 1\<rparr>"
  define P3 where "P3 = add_fading (?k, s) (display_spu gen s (P2\<lparr>mEmittedShowingSpu := []\<rparr>))"
  have "mEmittedShowingSpu P1 = []" "next_cue P1 = ?k" using assms(4) by (simp_all add: P1_def)
  then have unit: "next_unit p (request (removeMessages MSG_PTS_TIME_CHECK_SPU) P) = P2"
    using receive_timely [OF timely assms(8), of P1] assms(3) by (simp add: next_unit_some P1_def P2_def)
  have showing: "handle_showing gen ?ts P2 = Some (True, P3)"
    unfolding P3_def by (rule showing_timely [OF timely assms(8)]) (simp add: P2_def P1_def)
  have old: "length (mEmittedFaddingSpu P) \<le> 1" "render_ok (mRender P)" "\<not> hasAiTranslation P"
    using assms(2) by (simp_all add: stream_inv_def)
  then have fading: "mEmittedFaddingSpu P3 = [(?k, s)]"
    unfolding P3_def by (intro add_fading_single) (simp add: P2_def P1_def)
  have check: "handleMessage gen MSG_PTS_TIME_CHECK_SPU P = Some ((handle_fading gen ?ts P3)\<lparr>mSubtitlePts32Bit := False\<rparr>)"
    by (simp add: handleMessage_check [OF assms(1)] unit check_stream_def showing)
  have render: "posted (mRender P3) = posted (snd (showSubtitleItem gen s (mParseType p) (mRender P)))"
    using old(3) by (simp add: P3_def P2_def P1_def display_spu_def assms(9) send2RenderDisplay_def present_show_def)
  have "picture gen s = Some data" using assms(9) by (simp add: picture_def)
  then have "on_screen (posted (mRender P3)) (objectSegmentId s) \<and> d_data (last (posted (mRender P3))) = Some data"
    unfolding render using old(2) assms(8,10)
    by (intro show_shows) (simp_all add: render_ok_def plain_stream_def object_ok_def)
  then show ?thesis using check fading fading_timely [OF timely assms(8) fading, of gen]
    by (simp add: P3_def P2_def)
qed

end
