(* ===== verification/Present_Properties.thy ===== *)
theory Present_Properties
  imports Present_Life
begin

text \<open>
  The properties of the presentation and the renderer.
\<close>

section \<open>A unit of a stream\<close>

text \<open>
  C3. A timely unit of a stream is on the screen after the next check, with its picture, and waits to be
  taken back.
\<close>

theorem stream_unit_shown:
  assumes "stream_running p P" "stream_inv P" "mDecodedSpu p = s # rest" "mEmittedShowingSpu P = []"
    "timely (timestamp P) s" "0 < timestamp P" "timestamp P < 2 ^ 60" "plain_stream s" "spu_data s = Some data"
    "getDisplayType (mParseType p) = SUBTITLE_IMAGE_DISPLAY \<longrightarrow> spu_width s > 0 \<and> spu_height s > 0"
  shows "\<exists>P'. handleMessage gen MSG_PTS_TIME_CHECK_SPU P = Some P' \<and> on_screen (posted (mRender P')) (objectSegmentId s) \<and>
    d_data (last (posted (mRender P'))) = Some data \<and> mEmittedShowingSpu P' = [] \<and> mEmittedFaddingSpu P' = [(next_cue P, s)]"
  using assms by (rule timely_unit_shown)


section \<open>The chain of checks\<close>

lemma present_cue_later:
  assumes "present_cue gen ts queued c P = Some P'" "length (mEmittedFaddingSpu P) \<le> 1"
  shows "(\<exists>d. last (requests P') = check_in d) \<or> mEmittedFaddingSpu P' \<noteq> []"
proof -
  define s where "s = sync_spu ts (snd c)"
  define P1 where "P1 = (if queued then P\<lparr>mEmittedShowingSpu := (fst c, s) # tl (mEmittedShowingSpu P)\<rparr> else P)"
  have "mEmittedFaddingSpu P' \<noteq> []" if "due ts s"
    using assms that unfolding present_cue_def Let_def s_def [symmetric] P1_def [symmetric]
    by (auto simp: show_cue_def Let_def P1_def add_fading_single split: Option.bind_splits)
  moreover have "\<exists>d. last (requests P') = check_in d" if "\<not> due ts s"
  proof -
    have "\<not> too_late ts s" using that never_too_late by blast
    then show ?thesis using assms that unfolding present_cue_def Let_def s_def [symmetric] P1_def [symmetric] by auto
  qed
  ultimately show ?thesis by blast
qed

lemma handle_showing_later:
  assumes "handle_showing gen ts P = Some (go_on, P')" "length (mEmittedFaddingSpu P) \<le> 1" "mEmittedShowingSpu P' \<noteq> []"
  shows "go_on \<and> ((\<exists>d. last (requests P') = check_in d) \<or> mEmittedFaddingSpu P' \<noteq> [])"
proof -
  have ne: "mEmittedShowingSpu P \<noteq> []" using assms by (auto simp: handle_showing_def)
  obtain cues asked where d: "drop_expired ts (mEmittedShowingSpu P) = (cues, asked)" by fastforce
  define kept where "kept = filter (\<lambda>c. \<not> far_ahead ts (snd c)) cues"
  define P1 where "P1 = (if asked then request (check_in (ms2ns 100)) P else P)\<lparr>mEmittedShowingSpu := kept\<rparr>"
  have h: "handle_showing gen ts P =
    (if kept = [] then Some (False, P1) else do { P \<leftarrow> present_cue gen ts (\<not> far_ahead ts (snd (hd cues))) (hd cues) P1; Some (True, P) })"
    by (simp add: handle_showing_def ne d Let_def kept_def P1_def)
  have "kept \<noteq> []" using assms(1,3) h by (auto simp: P1_def)
  then obtain P2 where "present_cue gen ts (\<not> far_ahead ts (snd (hd cues))) (hd cues) P1 = Some P2" "go_on" "P' = P2"
    using assms(1) h by (auto split: Option.bind_splits)
  moreover have "length (mEmittedFaddingSpu P1) \<le> 1" using assms(2) by (simp add: P1_def)
  ultimately show ?thesis using present_cue_later by blast
qed

lemma handle_fading_later:
  assumes "(\<exists>d. last (requests P) = check_in d) \<or> mEmittedFaddingSpu P \<noteq> []"
    "\<forall>c \<in> set (mEmittedFaddingSpu (handle_fading gen ts P)). \<not> isKeepShowing (snd c)"
  shows "\<exists>d. last (requests (handle_fading gen ts P)) = check_in d"
proof (cases "mEmittedFaddingSpu P")
  case Nil
  then show ?thesis using assms(1) by (simp add: handle_fading_def)
next
  case (Cons c rest)
  then have "\<not> isKeepShowing (snd c)" using assms(2) by (cases "isKeepShowing (snd c)") (simp_all add: handle_fading_def)
  then show ?thesis using Cons by (auto simp: handle_fading_def Let_def)
qed

lemma next_unit_fading [simp]: "mEmittedFaddingSpu (next_unit p P) = mEmittedFaddingSpu P"
  by (auto simp: next_unit_def receive_spu_def push_cue_def Let_def split: option.split prod.split)

lemma handle_fading_queue [simp]: "mEmittedShowingSpu (handle_fading gen ts P) = mEmittedShowingSpu P"
  by (simp add: handle_fading_def Let_def present_hide_def split: list.split)

text \<open>
  C6. While units wait in the queue, a check asks for the next one, unless the unit on the screen is to be
  kept.
\<close>

theorem stream_keeps_checking:
  assumes "stream_running p P" "stream_inv P" "handleMessage gen MSG_PTS_TIME_CHECK_SPU P = Some P'"
    "mEmittedShowingSpu P' \<noteq> []" "\<forall>c \<in> set (mEmittedFaddingSpu P'). \<not> isKeepShowing (snd c)"
  shows "\<exists>d. last (requests P') = check_in d"
proof -
  let ?P = "next_unit p (request (removeMessages MSG_PTS_TIME_CHECK_SPU) P)" and ?ts = "timestamp P"
  obtain go_on P1 where s: "handle_showing gen ?ts ?P = Some (go_on, P1)"
    and P': "P' = (if go_on then (handle_fading gen ?ts P1)\<lparr>mSubtitlePts32Bit := False\<rparr> else P1)"
    using assms(3) unfolding handleMessage_check [OF assms(1)] check_stream_def by (auto split: Option.bind_splits)
  have "length (mEmittedFaddingSpu ?P) \<le> 1" using assms(2) by (simp add: stream_inv_def)
  moreover have "mEmittedShowingSpu P1 \<noteq> []" using assms(4) P' by (simp split: if_splits)
  ultimately have l: "go_on" "(\<exists>d. last (requests P1) = check_in d) \<or> mEmittedFaddingSpu P1 \<noteq> []"
    using handle_showing_later [OF s] by blast+
  show ?thesis using handle_fading_later [OF l(2)] assms(5) P' l(1) by simp
qed

text \<open>
  A kept unit stops the chain: the units behind it wait for the next message from outside.
\<close>

theorem kept_unit_stalls_queue:
  assumes "stream_running p P" "stream_inv P" "mDecodedSpu p = []" "mEmittedShowingSpu P = (k, s) # behind" "isKeepShowing s"
    "\<not> isExtSub s" "\<not> isSimpleText s" "\<not> far_ahead (timestamp P) s" "due (timestamp P) (sync_spu (timestamp P) s)"
    "\<forall>c \<in> set behind. \<not> far_ahead (timestamp P) (snd c)"
  shows "\<exists>P'. handleMessage gen MSG_PTS_TIME_CHECK_SPU P = Some P' \<and> mEmittedShowingSpu P' = behind \<and>
    requests P' = requests P @ [removeMessages MSG_PTS_TIME_CHECK_SPU]"
proof -
  let ?ts = "timestamp P" and ?s = "sync_spu (timestamp P) s"
  define P1 where "P1 = (request (removeMessages MSG_PTS_TIME_CHECK_SPU) P)\<lparr>mParser := Some p, mSubtitlePts32Bit := False\<rparr>"
  define P2 where "P2 = add_fading (k, fix_fading ?ts ?s) (display_spu gen ?s (P1\<lparr>mEmittedShowingSpu := behind\<rparr>))"
  have flags: "isKeepShowing ?s" "\<not> isSimpleText ?s" "\<not> isExtSub ?s" using assms(5-7)
    by (simp_all add: sync_spu_def compareBitAndSyncPts_def Let_def)
  have join: "join_second ?s behind = Some (?s, behind)"
    using flags(2) by (cases behind) (simp_all add: join_second_def combineSamePtsSubtitle_def joinable_def)
  have kept: "filter (\<lambda>c. \<not> far_ahead ?ts (snd c)) ((k, s) # behind) = (k, s) # behind"
    using assms(8,10) by simp
  have "handle_showing gen ?ts P1 = Some (True, P2)"
    using assms(4,6,8,9) join kept
    by (simp add: handle_showing_def P1_def P2_def expired_def present_cue_def show_cue_def Let_def)
  moreover have "mEmittedFaddingSpu P2 = [(k, fix_fading ?ts ?s)]"
    unfolding P2_def using assms(2) by (intro add_fading_single) (simp add: P1_def stream_inv_def)
  moreover have "isKeepShowing (fix_fading ?ts ?s)" using flags(1) by (simp add: fix_fading_def)
  ultimately show ?thesis using assms(3)
    by (simp add: handleMessage_check [OF assms(1)] next_unit_none check_stream_def P1_def [symmetric] handle_fading_def P2_def)
      (simp add: P1_def)
qed

text \<open>
  C33. When every waiting unit is ten minutes ahead, the unit on the screen is not taken back, although it is
  due to be, and no further check is asked for.
\<close>

theorem far_units_block_fading:
  assumes "stream_running p P" "mDecodedSpu p = []" "mEmittedShowingSpu P \<noteq> []" "mEmittedFaddingSpu P = [c]"
    "\<forall>d \<in> set (mEmittedShowingSpu P). far_ahead (timestamp P) (snd d) \<and> \<not> isExtSub (snd d)"
  shows "\<exists>P'. handleMessage gen MSG_PTS_TIME_CHECK_SPU P = Some P' \<and> mEmittedShowingSpu P' = [] \<and> mEmittedFaddingSpu P' = [c] \<and>
    mRender P' = mRender P \<and> requests P' = requests P @ [removeMessages MSG_PTS_TIME_CHECK_SPU]"
proof -
  let ?ts = "timestamp P"
  obtain d ds where q: "mEmittedShowingSpu P = d # ds" using assms(3) by (cases "mEmittedShowingSpu P") auto
  have "drop_expired ?ts (d # ds) = (d # ds, False)" using assms(5) q by (simp add: expired_def)
  moreover have "filter (\<lambda>c. \<not> far_ahead ?ts (snd c)) (d # ds) = []" using assms(5) q by (simp add: filter_empty_conv)
  ultimately show ?thesis using assms(2,4) q
    by (simp add: handleMessage_check [OF assms(1)] next_unit_none check_stream_def handle_showing_def Let_def)
qed

section \<open>A stream and its unit\<close>

definition sample_unit :: AML_SPUVAR where
  "sample_unit = new_spu\<lparr>pts := 90000, m_delay := 270000, spu_data := Some [7], buffer_size := 1, spu_width := 1, spu_height := 1\<rparr>"

definition sample_stream :: "int \<Rightarrow> AML_SPUVAR list \<Rightarrow> cue list \<Rightarrow> cue list \<Rightarrow> Presentation" where
  "sample_stream video decoded showing fading = (new_presentation True)\<lparr>mCurrentPresentRelativeTime := video,
     mParser := Some ((start_parser TYPE_SUBTITLE_DVB)\<lparr>mDecodedSpu := decoded\<rparr>), mEmittedShowingSpu := showing,
     mEmittedFaddingSpu := fading,
     mMsgProcess := Some \<lparr>mIsExtSub = False, mRequestThreadExit = False, mLastShowingSpu = None, hasLooper = True\<rparr>\<rparr>"

lemma sample_stream_running:
  "0 < video \<Longrightarrow> stream_running ((start_parser TYPE_SUBTITLE_DVB)\<lparr>mDecodedSpu := decoded\<rparr>) (sample_stream video decoded showing fading)"
  by (simp add: sample_stream_def stream_running_def)

lemma sample_stream_inv:
  assumes "length fading \<le> 1" "cues_ok showing" "\<forall>s \<in> set decoded. object_ok s"
  shows "stream_inv (sample_stream video decoded showing fading)"
  using assms by (simp add: sample_stream_def stream_inv_def new_presentation_def new_render_def render_ok_def render_inv_def
    max_covers_def on_screen_def blank_def parser_items_def)

lemma sample_stream_simps [simp]:
  "mEmittedShowingSpu (sample_stream video decoded showing fading) = showing"
  "mEmittedFaddingSpu (sample_stream video decoded showing fading) = fading"
  "- (2 ^ 63) \<le> video \<Longrightarrow> video < 2 ^ 63 \<Longrightarrow> timestamp (sample_stream video decoded showing fading) = video"
  "mDecodedSpu ((start_parser TYPE_SUBTITLE_DVB)\<lparr>mDecodedSpu := decoded\<rparr>) = decoded"
  "mParseType ((start_parser TYPE_SUBTITLE_DVB)\<lparr>mDecodedSpu := decoded\<rparr>) = TYPE_SUBTITLE_DVB"
  by (simp_all add: sample_stream_def timestamp_def new_presentation_def start_parser_def)

lemma sample_unit_simps [simp]:
  "spu_data sample_unit = Some [7]" "object_ok sample_unit" "\<not> isKeepShowing sample_unit" "pts sample_unit = 90000"
  "m_delay sample_unit = 270000" "\<not> isExtSub sample_unit" "\<not> isImmediatePresent sample_unit" "\<not> isSimpleText sample_unit"
  by (simp_all add: sample_unit_def new_spu_def object_ok_def)

lemma sample_times: "convertDvbTime2Ns 90000 = 1000000000" "convertDvbTime2Ns 270000 = 3000000000"
  by (simp_all add: convertDvbTime2Ns_eq)

lemma sample_timely: "timely 1500000000 sample_unit" "plain_stream sample_unit"
  by (simp_all add: timely_def plain_stream_def sample_times)
    (simp_all add: sample_unit_def new_spu_def MAX_ALLOWED_QUEUED_MEM_def)

lemma stream_unit_shown_witness:
  "\<exists>P'. handleMessage (\<lambda>_. None) MSG_PTS_TIME_CHECK_SPU (sample_stream 1500000000 [sample_unit] [] []) = Some P' \<and>
    on_screen (posted (mRender P')) (objectSegmentId sample_unit) \<and> d_data (last (posted (mRender P'))) = Some [7] \<and>
    mEmittedShowingSpu P' = [] \<and> mEmittedFaddingSpu P' = [(next_cue (sample_stream 1500000000 [sample_unit] [] []), sample_unit)]"
  by (rule stream_unit_shown [OF sample_stream_running sample_stream_inv, where rest = "[]"])
    (simp_all add: sample_timely, simp_all add: sample_unit_def new_spu_def)


definition kept_unit :: AML_SPUVAR where
  "kept_unit = sample_unit\<lparr>isKeepShowing := True\<rparr>"

lemma kept_unit_facts:
  "isKeepShowing kept_unit" "\<not> isExtSub kept_unit" "\<not> isSimpleText kept_unit" "object_ok kept_unit" "timely 1500000000 kept_unit"
  using sample_timely by (simp_all add: kept_unit_def object_ok_def timely_def sample_unit_def new_spu_def)

lemma kept_unit_stalls_queue_witness:
  "\<exists>P'. handleMessage (\<lambda>_. None) MSG_PTS_TIME_CHECK_SPU (sample_stream 1500000000 [] [(0, kept_unit), (1, sample_unit)] []) = Some P' \<and>
    mEmittedShowingSpu P' = [(1, sample_unit)] \<and>
    requests P' = requests (sample_stream 1500000000 [] [(0, kept_unit), (1, sample_unit)] []) @ [removeMessages MSG_PTS_TIME_CHECK_SPU]"
  by (rule kept_unit_stalls_queue [OF sample_stream_running sample_stream_inv, where k = 0 and s = kept_unit])
    (simp_all add: kept_unit_facts sync_timely due_timely far_ahead_timely sample_timely)

lemma far_units_block_fading_witness:
  "\<exists>P'. handleMessage (\<lambda>_. None) MSG_PTS_TIME_CHECK_SPU
      (sample_stream 3000000000 [] [(1, sample_unit\<lparr>pts := 90000000\<rparr>)] [(0, sample_unit)]) = Some P' \<and>
    mEmittedShowingSpu P' = [] \<and> mEmittedFaddingSpu P' = [(0, sample_unit)] \<and>
    mRender P' = mRender (sample_stream 3000000000 [] [(1, sample_unit\<lparr>pts := 90000000\<rparr>)] [(0, sample_unit)]) \<and>
    requests P' = requests (sample_stream 3000000000 [] [(1, sample_unit\<lparr>pts := 90000000\<rparr>)] [(0, sample_unit)])
      @ [removeMessages MSG_PTS_TIME_CHECK_SPU]"
  by (rule far_units_block_fading [OF sample_stream_running])
    (simp_all add: far_ahead_def ns2ms_def DVB_TIME_MULTI_def sdiv_nonneg isMore32Bit_present_def)

lemma stream_keeps_checking_witness:
  "\<exists>P' d. handleMessage (\<lambda>_. None) MSG_PTS_TIME_CHECK_SPU (sample_stream 500000000 [] [(0, sample_unit)] []) = Some P' \<and>
    last (requests P') = check_in d"
proof -
  let ?P = "sample_stream 500000000 [] [(0, sample_unit)] []"
  let ?p = "(start_parser TYPE_SUBTITLE_DVB)\<lparr>mDecodedSpu := []\<rparr>"
  have run: "stream_running ?p ?P" by (rule sample_stream_running) simp
  have inv: "stream_inv ?P" by (rule sample_stream_inv) simp_all
  have far: "\<not> far_ahead 500000000 sample_unit" by (simp add: far_ahead_def ns2ms_def DVB_TIME_MULTI_def sdiv_nonneg)
  have sync: "sync_spu 500000000 sample_unit = sample_unit"
    by (simp add: sync_spu_def compareBitAndSyncPts_def DVB_TIME_MULTI_def sdiv_nonneg isMore32Bit_present_def)
  have due: "\<not> due 500000000 sample_unit" using due_iff [of sample_unit 500000000] by (simp add: sample_times)
  then have late: "\<not> too_late 500000000 sample_unit" using never_too_late by blast
  obtain P' where c: "handleMessage (\<lambda>_. None) MSG_PTS_TIME_CHECK_SPU ?P = Some P'"
    and P': "mEmittedShowingSpu P' = [(0, sample_unit)]" "mEmittedFaddingSpu P' = []"
    using due late by (simp add: handleMessage_check [OF run] next_unit_none check_stream_def handle_showing_def expired_def far
      present_cue_def sync Let_def handle_fading_def)
  have "\<exists>d. last (requests P') = check_in d"
    by (rule stream_keeps_checking [OF run inv c]) (simp_all add: P')
  then show ?thesis using c by blast
qed

section \<open>The decisions\<close>

text \<open>
  C27. A unit is shown exactly when it asks for it or starts within the next 33 ms; the branch that discards
  a unit for being too late is never taken.
\<close>

theorem due_exactly:
  assumes "0 \<le> pts s" "pts s < 2 ^ 43" "0 \<le> ts" "ts < 2 ^ 60"
  shows "(due ts s \<longleftrightarrow> isImmediatePresent s \<or> convertDvbTime2Ns (pts s) \<le> ts + 33000000) \<and> \<not> (\<not> due ts s \<and> too_late ts s)"
  using due_iff [OF assms] never_too_late by blast

lemma due_exactly_witness:
  "(due 0 sample_unit \<longleftrightarrow> isImmediatePresent sample_unit \<or> convertDvbTime2Ns (pts sample_unit) \<le> 0 + 33000000) \<and>
    \<not> (\<not> due 0 sample_unit \<and> too_late 0 sample_unit)"
  by (rule due_exactly) simp_all

text \<open>
  C28. A unit on the screen is taken back exactly when its end has come, or lies more than 100 s (5 s for an
  external one) ahead.
\<close>

theorem fade_exactly:
  assumes "0 \<le> m_delay s" "m_delay s < 2 ^ 43" "0 < ts" "ts < 2 ^ 60"
  shows "fade_due ts s \<longleftrightarrow> convertDvbTime2Ns (m_delay s) \<le> ts \<or>
    convertDvbTime2Ns (m_delay s) > ts + (if isExtSub s then 5 else 100) * 1000000000"
  using assms by (rule fade_due_iff)

lemma fade_exactly_witness:
  "fade_due 1 sample_unit \<longleftrightarrow> convertDvbTime2Ns (m_delay sample_unit) \<le> 1 \<or>
    convertDvbTime2Ns (m_delay sample_unit) > 1 + (if isExtSub sample_unit then 5 else 100) * 1000000000"
  by (rule fade_exactly) simp_all

section \<open>Every run\<close>





section \<open>External subtitles\<close>

definition external_running :: "Parser \<Rightarrow> MessageProcess \<Rightarrow> Presentation \<Rightarrow> bool" where
  "external_running p mp P \<longleftrightarrow> mParser P = Some p \<and> mDecodedSpu p = [] \<and> mParseType p = TYPE_SUBTITLE_EXTERNAL \<and>
     0 < mCurrentPresentRelativeTime P \<and> mMsgProcess P = Some mp \<and> mIsExtSub mp \<and> \<not> mRequestThreadExit mp \<and>
     external_inv mp P \<and> apart (mEmittedShowingSpu P)"

lemma handleMessage_external:
  assumes "external_running p mp P"
  shows "handleMessage gen MSG_PTS_TIME_CHECK_SPU P = do {
      (mp, P) \<leftarrow> check_external gen mp (request (removeMessages MSG_PTS_TIME_CHECK_SPU) P);
      Some (P\<lparr>mMsgProcess := Some mp\<rparr>) }"
proof -
  let ?P = "request (removeMessages MSG_PTS_TIME_CHECK_SPU) P"
  have "take_item ?P = (None, ?P)"
    using assms by (simp add: take_item_def external_running_def tryConsumeDecodedItem_def request_def)
  from collect_decoded_step(1) [OF this] show ?thesis
    using assms by (simp add: handleMessage_def handleExtSub_def external_running_def)
qed

definition active_units :: "Presentation \<Rightarrow> cue list" where
  "active_units P = filter (\<lambda>c. active (timestamp P) (snd c)) (mEmittedShowingSpu P)"

lemma check_external_apart:
  assumes "external_running p mp P" "getShowingSpuFromList (next_cue P) (active_units P) = Some cue"
  shows "handleMessage gen MSG_PTS_TIME_CHECK_SPU P =
    (case present_external gen (timestamp P) cue mp ((request (removeMessages MSG_PTS_TIME_CHECK_SPU) P)\<lparr>next_cue := next_cue P + 1\<rparr>)
     of (mp, P) \<Rightarrow> Some (P\<lparr>mMsgProcess := Some mp\<rparr>))"
proof -
  have "computeShowingSpuList (mEmittedShowingSpu P) (timestamp P) = active_units P"
    using assms(1) by (simp add: computeShowing_apart external_running_def active_units_def)
  then show ?thesis using assms(2) by (simp add: handleMessage_external [OF assms(1)] check_external_def case_prod_unfold)
qed

lemma last_active:
  assumes "active_units P = shown @ [(k, s)]" "\<not> isSimpleText (snd (hd (active_units P)))"
  shows "getShowingSpuFromList fresh (active_units P) = Some (Some (k, s))"
proof (cases "active_units P")
  case (Cons c cs)
  have "last (active_units P) = (k, s)" unfolding assms(1) by simp
  then show ?thesis using Cons assms(2) by (cases c) (simp add: getShowingSpuFromList_def)
qed (use assms in simp)

lemma active_unit_ok:
  assumes "external_running p mp P" "active_units P = shown @ [(k, s)]"
  shows "object_ok s"
proof -
  have "(k, s) \<in> set (active_units P)" using assms(2) by simp
  then have "(k, s) \<in> set (mEmittedShowingSpu P)" unfolding active_units_def by (metis filter_is_subset subsetD)
  then show ?thesis using assms(1) by (auto simp: external_running_def external_inv_def cues_ok_def)
qed

text \<open>
  C29. When the units of an external subtitle do not overlap, those the search finds are exactly the ones
  that are on at that time.
\<close>

theorem external_search_exact:
  assumes "apart cs"
  shows "computeShowingSpuList cs ts = filter (\<lambda>c. convertDvbTime2Ns (pts (snd c)) \<le> ts \<and> ts \<le> convertDvbTime2Ns (m_delay (snd c))) cs"
  using computeShowing_apart [OF assms] by (simp add: active_def)

lemma external_search_exact_witness:
  "computeShowingSpuList [(0, sample_unit), (1, sample_unit\<lparr>pts := 270000, m_delay := 300000\<rparr>)] 2000000000 =
    filter (\<lambda>c. convertDvbTime2Ns (pts (snd c)) \<le> 2000000000 \<and> 2000000000 \<le> convertDvbTime2Ns (m_delay (snd c)))
      [(0, sample_unit), (1, sample_unit\<lparr>pts := 270000, m_delay := 300000\<rparr>)]"
  by (rule external_search_exact) simp

text \<open>
  C30. The last of the units that are on is put on the screen when it was not there before and has 30 ms
  left.
\<close>

theorem external_check_shows:
  assumes "external_running p mp P" and a: "active_units P = shown @ [(k, s)]" and n: "\<not> isSimpleText (snd (hd (active_units P)))"
    and l: "mLastShowingSpu mp \<noteq> Some k" "m_delay s sdiv 90 - ns2ms (timestamp P) \<ge> 30" and d: "spu_data s = Some data"
  shows "\<exists>P'. handleMessage gen MSG_PTS_TIME_CHECK_SPU P = Some P' \<and> on_screen (posted (mRender P')) (objectSegmentId s) \<and>
    d_data (last (posted (mRender P'))) = Some data \<and> mMsgProcess P' = Some (mp\<lparr>mLastShowingSpu := Some k\<rparr>)"
proof -
  have inv: "render_ok (mRender P)" "\<not> hasAiTranslation P" "mParser P = Some p" "mParseType p = TYPE_SUBTITLE_EXTERNAL"
    using assms(1) by (simp_all add: external_running_def external_inv_def)
  let ?P = "(request (removeMessages MSG_PTS_TIME_CHECK_SPU) P)\<lparr>next_cue := next_cue P + 1, mEmittedFaddingSpu := []\<rparr>"
  have "present_external gen (timestamp P) (Some (k, s)) mp ((request (removeMessages MSG_PTS_TIME_CHECK_SPU) P)\<lparr>next_cue := next_cue P + 1\<rparr>) =
      (mp\<lparr>mLastShowingSpu := Some k\<rparr>, send2RenderDisplay gen s ?P)"
    using l by (simp add: present_external_def DVB_TIME_MULTI_def MINIMUM_REMAIN_DISPLAY_TIME_MS_def)
  then have h: "handleMessage gen MSG_PTS_TIME_CHECK_SPU P = Some ((send2RenderDisplay gen s ?P)\<lparr>mMsgProcess := Some (mp\<lparr>mLastShowingSpu := Some k\<rparr>)\<rparr>)"
    by (simp add: check_external_apart [OF assms(1) last_active [OF a n]])
  have r: "mRender (send2RenderDisplay gen s ?P) = snd (showSubtitleItem gen s TYPE_SUBTITLE_EXTERNAL (mRender P))"
    using inv by (simp add: send2RenderDisplay_def present_show_def)
  have "getDisplayType TYPE_SUBTITLE_EXTERNAL \<noteq> SUBTITLE_IMAGE_DISPLAY" by (simp add: getDisplayType_def subtitle_types)
  moreover have "picture gen s = Some data" using d by (simp add: picture_def)
  ultimately have "on_screen (posted (snd (showSubtitleItem gen s TYPE_SUBTITLE_EXTERNAL (mRender P)))) (objectSegmentId s) \<and>
      d_data (last (posted (snd (showSubtitleItem gen s TYPE_SUBTITLE_EXTERNAL (mRender P))))) = Some data"
    using inv(1) active_unit_ok [OF assms(1) a] by (intro show_shows) (simp_all add: render_ok_def object_ok_def)
  then show ?thesis using h r by simp
qed

text \<open>
  While no unit is on, a check leaves the screen blank.
\<close>

theorem external_gap_blank:
  assumes "external_running p mp P" "active_units P = []"
  shows "\<exists>P'. handleMessage gen MSG_PTS_TIME_CHECK_SPU P = Some P' \<and> blank (mRender P')"
proof -
  have inv: "render_ok (mRender P)" "mLastShowingSpu mp = None \<longrightarrow> blank (mRender P)"
    using assms(1) by (simp_all add: external_running_def external_inv_def)
  have "getShowingSpuFromList (next_cue P) (active_units P) = Some None" using assms(2) by (simp add: getShowingSpuFromList_def)
  from check_external_apart [OF assms(1) this, of gen]
  show ?thesis
    using inv blank_calls(2) [OF inv(1)] by (cases "mLastShowingSpu mp") (simp_all add: present_external_def present_reset_def)
qed

text \<open>
  C32. A seek that stays within the unit on the screen loses it: the reset takes it back, and the next check
  does not show it again, because it is still remembered as shown.
\<close>

theorem external_seek_loses_unit:
  assumes "external_running p mp P" "active_units P = shown @ [(k, s)]" "\<not> isSimpleText (snd (hd (active_units P)))"
    "mLastShowingSpu mp = Some k"
  shows "\<exists>P1 P2. handleMessage gen MSG_RESET_MESSAGE_QUEUE P = Some P1 \<and> handleMessage gen MSG_PTS_TIME_CHECK_SPU P1 = Some P2 \<and>
    active_units P2 = active_units P \<and> blank (mRender P2)"
proof -
  define P1 where "P1 = (present_reset gen (P\<lparr>mEmittedFaddingSpu := []\<rparr>))\<lparr>mMsgProcess := Some mp\<rparr>"
  have reset: "handleMessage gen MSG_RESET_MESSAGE_QUEUE P = Some P1"
    using assms(1) by (simp add: handleMessage_def handleExtSub_def external_running_def P1_def)
  have inv: "render_ok (mRender P)" using assms(1) by (simp add: external_running_def external_inv_def)
  have blank: "blank (mRender P1)" by (simp add: P1_def present_reset_def blank_calls(2) [OF inv])
  have run: "external_running p mp P1"
    using assms(1) render_ok_calls(3) [OF inv] assms(4) by (simp add: external_running_def external_inv_def P1_def present_reset_def parser_items_def)
  have active: "active_units P1 = active_units P" "next_cue P1 = next_cue P"
    by (simp_all add: active_units_def P1_def present_reset_def timestamp_def)
  have "getShowingSpuFromList (next_cue P1) (active_units P1) = Some (Some (k, s))"
    unfolding active using assms(2,3) by (rule last_active)
  from check_external_apart [OF run this, of gen]
  obtain P2 where c: "handleMessage gen MSG_PTS_TIME_CHECK_SPU P1 = Some P2"
    and P2: "mRender P2 = mRender P1" "mEmittedShowingSpu P2 = mEmittedShowingSpu P1" "timestamp P2 = timestamp P1"
    using assms(4) by (simp add: present_external_def Let_def timestamp_def request_def)
  have "active_units P2 = active_units P" using P2 active(1) by (simp add: active_units_def)
  then show ?thesis using reset c blank P2(1) by auto
qed

definition sample_external :: "int \<Rightarrow> cue list \<Rightarrow> MessageProcess \<Rightarrow> Presentation" where
  "sample_external video showing mp = (new_presentation True)\<lparr>mCurrentPresentRelativeTime := video,
     mParser := Some (start_parser TYPE_SUBTITLE_EXTERNAL), mEmittedShowingSpu := showing, mMsgProcess := Some mp\<rparr>"

definition external_process :: "nat option \<Rightarrow> MessageProcess" where
  "external_process k = \<lparr>mIsExtSub = True, mRequestThreadExit = False, mLastShowingSpu = k, hasLooper = True\<rparr>"

lemma sample_external_running:
  assumes "0 < video" "cues_ok showing" "apart showing"
  shows "external_running (start_parser TYPE_SUBTITLE_EXTERNAL) (external_process k) (sample_external video showing (external_process k))"
  using assms by (simp add: external_running_def sample_external_def external_process_def start_parser_def external_inv_def
    new_presentation_def new_render_def render_ok_def render_inv_def max_covers_def on_screen_def blank_def parser_items_def)

lemma sample_external_simps:
  assumes "- (2 ^ 63) \<le> video" "video < 2 ^ 63"
  shows "timestamp (sample_external video showing mp) = video"
    "active_units (sample_external video showing mp) = filter (\<lambda>c. active video (snd c)) showing"
  using assms by (simp_all add: active_units_def timestamp_def sample_external_def new_presentation_def)

lemma external_check_shows_witness:
  "\<exists>P'. handleMessage (\<lambda>_. None) MSG_PTS_TIME_CHECK_SPU (sample_external 2000000000 [(0, sample_unit)] (external_process None)) = Some P' \<and>
    on_screen (posted (mRender P')) (objectSegmentId sample_unit) \<and> d_data (last (posted (mRender P'))) = Some [7] \<and>
    mMsgProcess P' = Some ((external_process None)\<lparr>mLastShowingSpu := Some 0\<rparr>)"
  by (rule external_check_shows [OF sample_external_running, where shown = "[]"])
    (simp_all add: sample_external_simps active_def sample_times external_process_def ns2ms_def sdiv_nonneg)

lemma external_gap_blank_witness:
  "\<exists>P'. handleMessage (\<lambda>_. None) MSG_PTS_TIME_CHECK_SPU (sample_external 4000000000 [(0, sample_unit)] (external_process (Some 0))) = Some P' \<and>
    blank (mRender P')"
  by (rule external_gap_blank [OF sample_external_running]) (simp_all add: sample_external_simps active_def sample_times)

lemma external_seek_loses_unit_witness:
  "\<exists>P1 P2. handleMessage (\<lambda>_. None) MSG_RESET_MESSAGE_QUEUE (sample_external 2000000000 [(0, sample_unit)] (external_process (Some 0))) = Some P1 \<and>
    handleMessage (\<lambda>_. None) MSG_PTS_TIME_CHECK_SPU P1 = Some P2 \<and>
    active_units P2 = active_units (sample_external 2000000000 [(0, sample_unit)] (external_process (Some 0))) \<and> blank (mRender P2)"
  by (rule external_seek_loses_unit [OF sample_external_running, where shown = "[]" and s = sample_unit])
    (simp_all add: sample_external_simps active_def sample_times external_process_def)

text \<open>
  C31. The loop that collects the decoded units ends, with the parser's queue empty and every unit, its end
  repaired, in the queue in the order of their times.
\<close>

theorem collect_decoded_terminates:
  assumes "mParser P = Some p" "sort_cues (mEmittedShowingSpu P) = mEmittedShowingSpu P"
  shows "parser_items (collect_decoded P) = [] \<and>
    mEmittedShowingSpu (collect_decoded P) =
      sort_cues (mEmittedShowingSpu P @ numbered (next_cue P) (map fixed_spu (mDecodedSpu p))) \<and>
    sorted (map (\<lambda>c. pts (snd c)) (mEmittedShowingSpu (collect_decoded P)))"
  using collect_decoded_all [OF assms] by (simp add: parser_items_def sort_cues_def)

lemma collect_decoded_terminates_witness:
  "parser_items (collect_decoded (sample_stream 1 [sample_unit, sample_unit\<lparr>pts := 1\<rparr>] [] [])) = [] \<and>
    mEmittedShowingSpu (collect_decoded (sample_stream 1 [sample_unit, sample_unit\<lparr>pts := 1\<rparr>] [] [])) =
      sort_cues (mEmittedShowingSpu (sample_stream 1 [sample_unit, sample_unit\<lparr>pts := 1\<rparr>] [] []) @
        numbered (next_cue (sample_stream 1 [sample_unit, sample_unit\<lparr>pts := 1\<rparr>] [] []))
          (map fixed_spu (mDecodedSpu ((start_parser TYPE_SUBTITLE_DVB)\<lparr>mDecodedSpu := [sample_unit, sample_unit\<lparr>pts := 1\<rparr>]\<rparr>)))) \<and>
    sorted (map (\<lambda>c. pts (snd c)) (mEmittedShowingSpu (collect_decoded (sample_stream 1 [sample_unit, sample_unit\<lparr>pts := 1\<rparr>] [] []))))"
  by (rule collect_decoded_terminates) (simp_all add: sample_stream_def new_presentation_def sort_cues_def)

section \<open>Joined texts\<close>

lemma c_prefix_text:
  "0 \<notin> set t \<Longrightarrow> c_prefix (int (length t)) (t @ [0]) = Some t"
  by (simp add: c_prefix_def)

lemma c_chars_text: "0 \<notin> set t \<Longrightarrow> c_chars (t @ [0]) = Some t"
  by (auto simp: c_chars_def takeWhile_tail)

text \<open>
  Two texts of one time become one unit with the two lines, in a buffer of the right size.
\<close>

theorem same_time_texts_joined:
  assumes "joinable s1" "joinable s2" "pts s1 = pts s2" "spu_data s1 = Some (t1 @ [0])" "spu_data s2 = Some (t2 @ [0])"
    "0 \<notin> set t1" "0 \<notin> set t2" "buffer_size s1 = int (length t1)" "buffer_size s2 = int (length t2)"
    "length t1 + length t2 + 2 < 2 ^ 31"
  shows "combineSamePtsSubtitle s1 s2 = Some (True, s1\<lparr>spu_data := Some (t1 @ [10] @ t2 @ [0]),
    buffer_size := int (length t1 + length t2 + 2), useMalloc := False\<rparr>)"
proof -
  have "int (length t1) + int (length t2) + 2 < 2 ^ 31" using assms(10) by simp
  then have w: "wrap32 (buffer_size s1) = int (length t1)" "wrap32 (buffer_size s2) = int (length t2)"
    "wrap32 (int (length t1) + 1 + int (length t2) + 1) = int (length t1) + int (length t2) + 2"
    "size_of (int (length t1)) = int (length t1)" "size_of (int (length t2)) = int (length t2)"
    "u32_of (int (length t1) + int (length t2) + 2) = int (length t1) + int (length t2) + 2"
    using assms(8,9) by simp_all
  have "join_text s1 s2 = Some (t1 @ [10] @ t2 @ [0])"
    unfolding join_text_def Let_def w assms(4,5) bind.bind_lunit c_prefix_text [OF assms(6)] c_prefix_text [OF assms(7)]
    by (simp add: nat_add_distrib)
  then show ?thesis using assms(1-3) by (simp only: combineSamePtsSubtitle_def w) simp
qed

definition sample_text :: "nat \<Rightarrow> AML_SPUVAR" where
  "sample_text n = sample_unit\<lparr>isSimpleText := True, spu_data := Some (replicate n 65 @ [0]), buffer_size := int n\<rparr>"

lemma sample_text_simps [simp]:
  "joinable (sample_text n)" "isSimpleText (sample_text n)" "pts (sample_text n) = 90000" "spu_data (sample_text n) = Some (replicate n 65 @ [0])"
  "buffer_size (sample_text n) = int n"
  by (simp_all add: sample_text_def joinable_def sample_unit_def new_spu_def)

lemma same_time_texts_joined_witness:
  "combineSamePtsSubtitle (sample_text 2) (sample_text 3) = Some (True, (sample_text 2)\<lparr>spu_data := Some (replicate 2 65 @ [10] @ replicate 3 65 @ [0]),
    buffer_size := int (length (replicate 2 (65 :: u8)) + length (replicate 3 (65 :: u8)) + 2), useMalloc := False\<rparr>)"
  by (rule same_time_texts_joined) simp_all

lemma joined_size_two:
  assumes "0 \<le> buffer_size s" "buffer_size s < 2 ^ 20"
  shows "joined_size [c1, c2] s = 2 * buffer_size s + 2"
  using assms by (simp add: joined_size_def)

text \<open>
  C34. When two texts are on at once, their common buffer holds them exactly when the second is no longer
  than the first: the size is computed from the first alone.
\<close>

theorem joined_texts_fit_iff:
  assumes "isSimpleText s1" "spu_data s1 = Some (t1 @ [0])" "spu_data s2 = Some (t2 @ [0])" "0 \<notin> set t1" "0 \<notin> set t2"
    "buffer_size s1 = int (length t1)" "length t1 < 2 ^ 20"
  shows "getShowingSpuFromList fresh [(k1, s1), (k2, s2)] \<noteq> None \<longleftrightarrow> length t2 \<le> length t1"
proof -
  have n: "0 \<le> buffer_size s1" "buffer_size s1 < 2 ^ 20" using assms(6,7) by simp_all
  note two = joined_size_two [OF n, of "(k1, s1)" "(k2, s2)"]
  have "wrap32 (2 * buffer_size s1 + 2 + 1) = 2 * buffer_size s1 + 3" using n by simp
  then have pos: "\<not> wrap32 (2 * buffer_size s1 + 2 + 1) \<le> 0" using n by simp
  have "getShowingSpuFromList fresh [(k1, s1), (k2, s2)] \<noteq> None \<longleftrightarrow>
      cat_lines (2 * buffer_size s1 + 2 + 1) [(k1, s1), (k2, s2)] [] \<noteq> None"
    unfolding getShowingSpuFromList_def list.case prod.case Let_def two if_not_P [OF pos]
    using assms(1) by (auto split: bind_split)
  also have "\<dots> \<longleftrightarrow> length t2 \<le> length t1"
    using assms(2-6) by (simp add: c_chars_text)
  finally show ?thesis .
qed

lemma joined_texts_fit_iff_witness:
  "getShowingSpuFromList 2 [(0, sample_text 1), (1, sample_text 4)] = None"
  using joined_texts_fit_iff [of "sample_text 1" "replicate 1 65" "sample_text 4" "replicate 4 65" 2 0 1] by simp

section \<open>A reset that is lost\<close>

text \<open>
  A seek while the video time is invalid is lost: the handler answers the reset with a check and
  leaves the queues and the screen as they are.
\<close>

theorem seek_without_time_lost:
  assumes "mMsgProcess P = Some mp" "P1 = snd (syncCurrentPresentTime now INVALID_PTS P)" "\<not> mSubtitlePts32Bit P"
  shows "\<exists>P2. handleMessage gen MSG_RESET_MESSAGE_QUEUE P1 = Some P2 \<and> mEmittedShowingSpu P2 = mEmittedShowingSpu P \<and>
    mEmittedFaddingSpu P2 = mEmittedFaddingSpu P \<and> mRender P2 = mRender P \<and> requests P2 = requests P @ [check_in (ms2ns 200)]"
  using assms by (simp add: syncCurrentPresentTime_def handleMessage_def)

lemma seek_without_time_lost_witness:
  "\<exists>P2. handleMessage (\<lambda>_. None) MSG_RESET_MESSAGE_QUEUE
      (snd (syncCurrentPresentTime 0 INVALID_PTS (sample_stream 1 [] [(0, sample_unit)] []))) = Some P2 \<and>
    mEmittedShowingSpu P2 = mEmittedShowingSpu (sample_stream 1 [] [(0, sample_unit)] []) \<and>
    mEmittedFaddingSpu P2 = mEmittedFaddingSpu (sample_stream 1 [] [(0, sample_unit)] []) \<and>
    mRender P2 = mRender (sample_stream 1 [] [(0, sample_unit)] []) \<and>
    requests P2 = requests (sample_stream 1 [] [(0, sample_unit)] []) @ [check_in (ms2ns 200)]"
  by (rule seek_without_time_lost [OF _ refl]) (simp_all add: sample_stream_def new_presentation_def)

end
