(* ===== verification/Pipeline.thy ===== *)
theory Pipeline
  imports Dvd_Properties Ipc_Properties Present_Properties
begin

text \<open>
  The way of a subtitle through the server: packages of a player through the message queue into the
  external source, from there through the DVD decoder into the parser's queue, and by the presentation
  onto the screen.
\<close>

section \<open>From the queue to the source\<close>

lemma readLoop_data:
  assumes "concat chunks = concat (map encode_package ps)"
    "\<forall>p \<in> set ps. \<exists>session data. p = (session, eTypeSubtitleData, data) \<and> data \<noteq> [] \<and> length data < 1048576 - 20"
    "\<forall>p \<in> set ps. \<forall>c \<in> set chunks. length (encode_package p) + length c \<le> 1048576"
    "cval E = uint" "\<forall>q. malloc_ok E q" "announced s" "source_live (queue_of s)"
  obtains s' where "readLoop E (onData lang E) chunks s = Some (True, s')" "source_live (queue_of s')"
    "source_pending (queue_of s') = source_pending (queue_of s) @ concat (map (\<lambda>(session, type, data). data) ps)"
    "external_available s' = external_available s + int (length (concat (map (\<lambda>(session, type, data). data) ps)))"
proof -
  have "\<forall>p \<in> set ps. \<exists>session data. p = (session, eTypeSubtitleData, data) \<and> data \<noteq> [] \<and> length data < 2 ^ 31"
    using assms(2) by fastforce
  from deliver_data [OF assms(4) this assms(6,7), of lang]
  obtain s' where s': "deliver (onData lang E) ps s = Some s'" "source_live (queue_of s')"
    "source_pending (queue_of s') = source_pending (queue_of s) @ concat (map (\<lambda>(session, type, data). data) ps)"
    "external_available s' = external_available s + int (length (concat (map (\<lambda>(session, type, data). data) ps)))"
    by (elim yieldsE) auto
  have ok: "\<forall>p \<in> set ps. package_ok (1024 * 1024) p"
    using assms(2) by (fastforce simp: header_size_def package_types)
  have fit: "\<forall>p \<in> set ps. \<forall>c \<in> set chunks. int (length (encode_package p)) + int (length c) \<le> 1024 * 1024"
    using assms(3) by fastforce
  from readLoop_delivers [OF assms(1) ok fit assms(4,5) s'(1)] s'(2-4) show thesis by (rule that)
qed

section \<open>From the decoder to the presentation\<close>

lemma shown_as_apply [simp]: "shown_as (apply_command c s) = shown_as s"
  by (cases c) (simp_all add: shown_as_def)

lemma shown_as_fold [simp]: "shown_as (fold apply_command cs s) = shown_as s"
  by (induction cs arbitrary: s) simp_all

lemma shown_as_unit: "shown_as (set_delay qs (fold apply_command cs (unit_before stamp offset pkt))) = (False, False, False, 0)"
proof -
  have "shown_as (set_delay qs s) = shown_as s" for s by (simp add: set_delay_def shown_as_def Let_def)
  then show ?thesis by (simp add: unit_before_def) (simp add: shown_as_def new_spu_def)
qed

text \<open>The presentation sees the parser through the fields of the base class.\<close>

lemma truncate_addDecodedItem:
  assumes "mState p \<noteq> SUB_STOP" "mState p \<noteq> SUB_EXIT" "mDecodedSpu p = []"
  shows "mDecodedSpu (Parser.truncate (addDecodedItem item p)) = [item]"
    "mParseType (Parser.truncate (addDecodedItem item p)) = mParseType p"
  using assms by (simp_all add: addDecodedItem_def notify_def Parser.truncate_def Let_def)

definition waiting_stream :: "Presentation \<Rightarrow> bool" where
  "waiting_stream P \<longleftrightarrow> stream_inv P \<and> mEmittedShowingSpu P = [] \<and> 0 < mCurrentPresentRelativeTime P \<and>
     0 < timestamp P \<and> timestamp P < 2 ^ 60 \<and>
     (case mMsgProcess P of None \<Rightarrow> False | Some mp \<Rightarrow> \<not> mIsExtSub mp \<and> \<not> mRequestThreadExit mp)"

lemma timely_cong: "pts s = pts t \<Longrightarrow> m_delay s = m_delay t \<Longrightarrow> timely ts s = timely ts t"
  by (simp add: timely_def)

lemma decoded_unit_on_screen:
  assumes "waiting_stream P" "timely (timestamp P) u" "shown_as u = (False, False, False, 0)"
    "shows_image item u w k table odds evens" "0 < w" "w \<le> 1920" "0 < k" "k \<le> 640"
    "mState p \<noteq> SUB_STOP" "mState p \<noteq> SUB_EXIT" "mDecodedSpu p = []"
  shows "yields (\<lambda>P'. on_screen (posted (mRender P')) 0 \<and> d_data (last (posted (mRender P'))) = spu_data item)
    (handleMessage gen MSG_PTS_TIME_CHECK_SPU (P\<lparr>mParser := Some (Parser.truncate (addDecodedItem item p))\<rparr>))"
proof -
  define q where "q = Parser.truncate (addDecodedItem item p)"
  define P1 where "P1 = P\<lparr>mParser := Some q\<rparr>"
  have q: "mDecodedSpu q = item # []" using truncate_addDecodedItem(1) [OF assms(9-11)] by (simp add: q_def)
  have item: "shown_as item = (False, False, False, 0)" "pts item = pts u" "m_delay item = m_delay u"
    "spu_width item = int w" "spu_height item = int (2 * k)" "buffer_size item = 8 * int (w * k)"
    using assms(3,4) by (simp_all add: shows_image_def)
  obtain data where data: "spu_data item = Some data" using assms(4) by (auto simp: shows_image_def)
  have "w * k \<le> 1920 * 640" using assms(6,8) by (rule mult_le_mono)
  then have size: "int k * int w \<le> 1228800" by (simp flip: of_nat_mult add: mult.commute)
  have plain: "plain_stream item" using item(1,6) size
    by (simp add: mult.commute plain_stream_def shown_as_def object_ok_def MAX_ALLOWED_QUEUED_MEM_def)
  have P1: "stream_running q P1" "stream_inv P1" "mEmittedShowingSpu P1 = []" "timestamp P1 = timestamp P"
    using assms(1) q plain
    by (simp_all add: P1_def waiting_stream_def stream_running_def stream_inv_def parser_items_def timestamp_def plain_stream_def)
  have "timely (timestamp P1) item" "0 < timestamp P1" "timestamp P1 < 2 ^ 60"
    using assms(1,2) P1(4) timely_cong [OF item(2,3)] by (simp_all add: waiting_stream_def)
  from timely_unit_shown [OF P1(1,2) q P1(3) this plain data, of gen]
  have "\<exists>P'. handleMessage gen MSG_PTS_TIME_CHECK_SPU P1 = Some P' \<and> on_screen (posted (mRender P')) (objectSegmentId item) \<and>
      d_data (last (posted (mRender P'))) = Some data"
    using item(4,5) assms(5,7) by auto
  then show ?thesis using item(1) data by (auto simp: P1_def q_def shown_as_def)
qed

section \<open>A concrete subtitle\<close>

text \<open>A packet like the sample one, shown for more than a second.\<close>

definition lasting_packet :: "u8 list" where
  "lasting_packet = [0, 36, 0, 6, 0x11, 0x12, 0, 0, 0, 30,
     1, 3, 0x32, 0x10, 4, 0, 0x0f, 5, 1, 0, 19, 2, 0, 33, 6, 0, 4, 0, 5, 0xff,
     0, 100, 0, 30, 2, 0xff]"

definition lasting_sequences :: "sequence list" where
  "lasting_sequences = [(100, 30, [Stop])]"

lemma lasting_packet_length [simp]: "length lasting_packet = 36"
  by (simp add: lasting_packet_def)

lemma lasting_packet_layout: "packet_layout lasting_packet 6 dvd_commands lasting_sequences"
  by (simp add: packet_layout_def Let_def lasting_packet_def dvd_commands_def lasting_sequences_def)

lemma lasting_packet_fields:
  "field_in lasting_packet 4 4 1 [[(4, 1)]]" "field_in lasting_packet 5 4 1 [[(4, 2)]]"
  by code_simp+

definition lasting_unit :: AML_SPUVAR where
  "lasting_unit = (unit_before 9000 6 lasting_packet)\<lparr>display_pending := 1, spu_color := 0x3210, spu_alpha := 0x0f,
     spu_start_x := 16, spu_start_y := 32, spu_width := 4, spu_height := 2, top_pxd_addr := 4, bottom_pxd_addr := 5, m_delay := 111400\<rparr>"

lemma lasting_unit_state:
  "set_delay lasting_sequences (fold apply_command dvd_commands (unit_before 9000 6 lasting_packet)) = lasting_unit"
  by (simp add: lasting_sequences_def dvd_commands_def set_delay_def unit_before_def lasting_unit_def)

lemma lasting_unit_timely: "timely 500000000 lasting_unit"
  by (simp add: timely_def lasting_unit_def unit_before_def convertDvbTime2Ns_eq)

lemma lasting_stream: "waiting_stream (sample_stream 500000000 [] [] [])"
  using sample_stream_inv [of "[]" "[]" "[]" 500000000] by (simp add: waiting_stream_def) (simp add: sample_stream_def)

definition player_package :: package where
  "player_package = (1, eTypeSubtitleData, unit_header 36 9000 @ lasting_packet)"

lemma player_package_length: "length (encode_package player_package) = 76"
  by (simp add: player_package_def unit_header_def)

end
