(* ===== verification/Spec2Isabelle.thy ===== *)
theory Spec2Isabelle
  imports Dvb_Properties Dvb_Notify Stream_Properties Pgs_Properties Pipeline
begin

text \<open>
  A model of the core of the Amlogic subtitle server (\<open>src/subtitleserver\<close>).

  \<^bold>\<open>The program.\<close> Subtitle data comes from a player through a socket or a fast message queue, or
  from a demultiplexer device. A \<open>DataSource\<close> (\<open>io/\<close>) queues it; the thread of a \<open>Parser\<close>
  (\<open>subtitle/parser/\<close>) reads it from there, decodes it into units (\<open>AML_SPUVAR\<close>) and adds these
  to its bounded queue, from which the presentation takes them and gives them to the
  renderer when the video's time has come.

  \<^bold>\<open>Shared parts.\<close>
  \<^item> \<^theory_text>\<open>Prelude\<close>: byte memory, C integer conversions, copies and stores that can fault,
    counting loops, and \<open>yields\<close>, the statement that an operation returns and its result has
    a property.
  \<^item> \<^theory_text>\<open>Stream_Utils\<close>: the big-endian peeks and getters of \<open>utils/StreamUtils.h\<close>, the time stamp
    of a PES header, and the type of a data source.
  \<^item> \<^theory_text>\<open>Parser_Base\<close>: \<open>AML_SPUVAR\<close> (\<open>utils/SubtitleTypes.h\<close>) and the class \<open>Parser\<close>
    (\<open>subtitle/parser/Parser.h\<close>), whose subclasses extend its record. Its queue is an instance
    of the locale \<open>bounded_fifo\<close>.
  \<^item> \<^theory_text>\<open>Packet_Sync\<close>: the C environment \<open>env\<close> and the search for a packet's start code, which
    the decoders repeat. \<^theory_text>\<open>Colour\<close>: the colour conversion macros and their crop table.
    \<^theory_text>\<open>Bitstream\<close>: the bit reader of \<open>DvbCommon.h\<close>, shown equal to the bit string semantics.

  \<^bold>\<open>Channels and sources.\<close>
  \<^item> \<^theory_text>\<open>Ring_Buffer\<close>: \<open>utils/ringbuffer.c\<close>. The abstraction \<open>ring_contents\<close> is the queue of bytes;
    the locale \<open>byte_fifo\<close> states what the receivers rely on.
  \<^item> \<^theory_text>\<open>Ipc\<close>: packages, the loop of \<open>ipc/FmqReceiver.cpp\<close> and a turn of a connection of
    \<open>ipc/SocketServer.cpp\<close>. Encoded packages that arrive in any chunks are delivered in order.
  \<^item> \<^theory_text>\<open>External_Source\<close>: \<open>io/ExternalDataSource.cpp\<close> and \<open>io/SocketSource.cpp\<close>, the listeners of
    the channels; \<^theory_text>\<open>Ipc_Properties\<close> has the properties of the channels.
  \<^item> \<^theory_text>\<open>Data_Source\<close>: \<open>utils/Segment.h\<close> and the reading ends of \<open>io/DeviceSource.cpp\<close> and
    \<open>io/DemuxSource.cpp\<close>. The locale \<open>byte_source\<close> is the contract that the decoders use; the
    device source and the external source are shown to keep it. \<^theory_text>\<open>Stream_Properties\<close> has the
    properties of this layer.

  \<^bold>\<open>Decoders.\<close>
  \<^item> DVB (\<open>DvbParser.cpp\<close>): \<^theory_text>\<open>Dvb_Context\<close> is the state with its invariant \<open>ctx_inv\<close>,
    \<^theory_text>\<open>Code_Strings\<close>, \<^theory_text>\<open>Dvb_Pixels\<close> and \<^theory_text>\<open>Dvb_Segments\<close> the segment parsers, \<^theory_text>\<open>Dvb_Render\<close> the page
    renderer, \<^theory_text>\<open>Dvb_Decode\<close> the packets and the input paths, \<^theory_text>\<open>Dvb_Notify\<close> the notification
    thread; the properties are in \<^theory_text>\<open>Dvb_Properties\<close>.
  \<^item> PGS (\<open>PgsParser.cpp\<close>): \<^theory_text>\<open>Pgs_Context\<close> and \<^theory_text>\<open>Pgs_Invariant\<close> are the state and the segment parsers,
    \<^theory_text>\<open>Pgs_Rle\<close> the run-length decoder with its encoder, \<^theory_text>\<open>Pgs_Show\<close> the renderer, \<^theory_text>\<open>Pgs_Present\<close>
    the display sets and their thread, \<^theory_text>\<open>Pgs_Decode\<close> the input paths; the properties are in
    \<^theory_text>\<open>Pgs_Properties\<close>.
  \<^item> DVD (\<open>DvdParser.cpp\<close>): \<^theory_text>\<open>Dvd_Control\<close> has the control sequences, \<^theory_text>\<open>Dvd_Pixels\<close> the pixel data,
    \<^theory_text>\<open>Dvd_Decode\<close> the packets, the bitmap and the loop over the units; \<^theory_text>\<open>Dvd_Image\<close> and \<^theory_text>\<open>Dvd_Unit\<close>
    compose them for encoded data; the properties are in \<^theory_text>\<open>Dvd_Properties\<close>.

  \<^bold>\<open>Presentation.\<close>
  \<^item> \<^theory_text>\<open>Render\<close>: \<open>subtitle/render/AndroidHidlRemoteRender.cpp\<close>. The messages to the clients are
    recorded; \<open>on_screen\<close> is what they leave on the screen, and \<open>render_inv\<close> says that the next
    clearing covers it.
  \<^item> \<^theory_text>\<open>Presentation\<close>: \<open>subtitle/Presentation.cpp\<close>. What its handlers ask of the looper is recorded,
    so that a property can speak of the next check. \<^theory_text>\<open>Present_Times\<close> turns the unsigned tests of
    the code into statements about times, \<^theory_text>\<open>Present_Invariant\<close> has the invariants of both handlers
    and the step relation \<open>present_step\<close> of a run, \<^theory_text>\<open>Present_Life\<close> follows a unit from the parser
    to the screen and off it, \<^theory_text>\<open>Present_Properties\<close> has the properties.
  \<^item> \<^theory_text>\<open>Pipeline\<close> composes the layers: \<open>player_unit_on_screen\<close> below follows a DVD subtitle from the
    packages of the player to the message that shows it.

  \<open>ms2ns\<close> and \<open>ns2ms\<close> are the platform's conversions (\<open>utils/Timers.h\<close>), a multiplication and a
  division of a 64-bit value by a million. \<open>front\<close> of an empty list, which the code tests for a
  null pointer, is read as null. The handlers see a fixed video time during one message.


  \<^bold>\<open>Conventions.\<close> A definition has the name of what it models, or of the variable or the part
  of a function it computes. A class is a record, and a method a function from the state
  before to the state after. An operation that touches memory returns an \<open>option\<close>: \<open>None\<close> is a
  fault (an access outside a live allocation, a failed \<open>assert\<close>, a null pointer) or a call that
  never returns; so a property that an operation \<open>yields\<close> something says that it returns and
  does not fault. Loops that may not end are \<open>partial_function\<close>s, all others are total with
  a measure. C \<open>int\<close> arithmetic that can overflow goes through \<open>wrap32\<close>, because the shipped
  targets wrap; unsigned values are reduced by \<open>u16_of\<close>, \<open>u32_of\<close> and \<open>size_of\<close>.
  \<open>env\<close> leaves open what the environment decides: which allocations succeed, the bytes behind a
  buffer, the sign of a plain \<open>char\<close>, and whether \<open>assert\<close> is compiled in. A theorem holds for
  every \<open>env\<close> unless it says otherwise.

  \<^bold>\<open>Bounds.\<close> \<open>decodeSubtitle_safe\<close> limits the regions of a page to what a 32-bit size can hold;
  \<open>render_overflow\<close> shows why. The sizes of DVD pictures are those of \<open>VOB_SUB_WIDTH\<close> and
  \<open>VOB_SUB_HEIGHT\<close>. The loops with a \<open>rounds\<close> argument (\<open>dvd_parse\<close>) follow that many calls of an
  endless thread loop; nothing is proved of their end.

  \<^bold>\<open>Not modelled.\<close> Log strings, dumps of data and state, the thread primitives (a queue is seen by
  one thread at a time, which its lock ensures), the kernel devices and their \<open>ioctl\<close> calls, the
  binder and socket calls, and the decoders that only drive a library whose code is not part
  of the repository's own logic (libzvbi for teletext and closed captions, libaribcaption,
  tinyxml2).
\<close>

section \<open>From the player to the screen\<close>

text \<open>
  C1. A DVD subtitle that a player sends as packages through the fast message queue, cut in any way,
  is received, decoded and queued, and the next check of the presentation puts it on the screen as
  the picture that its fields encode, when the video has reached its time.
\<close>

theorem player_unit_on_screen:
  assumes "concat chunks = concat (map encode_package ps)"
    "\<forall>p \<in> set ps. \<exists>session data. p = (session, eTypeSubtitleData, data) \<and> data \<noteq> [] \<and> length data < 1048576 - 20"
    "\<forall>p \<in> set ps. \<forall>c \<in> set chunks. length (encode_package p) + length c \<le> 1048576"
    "concat (map (\<lambda>(session, type, data). data) ps) = unit_header len stamp @ pkt" "len = int (length pkt)"
    "cval E = uint" "\<forall>r. malloc_ok E r" "announced s" "source_live (queue_of s)" "source_pending (queue_of s) = []"
    "external_available s = 0" "mRestLen dp = 0" "mState dp \<noteq> SUB_STOP" "mState dp \<noteq> SUB_EXIT" "mDecodedSpu dp = []"
    "packet_layout pkt offset cs qs" "u = set_delay qs (fold apply_command cs (unit_before stamp offset pkt))"
    "field_in pkt (nat (top_pxd_addr u)) w k odds" "field_in pkt (nat (bottom_pxd_addr u)) w k evens"
    "spu_width u = int w" "spu_height u = int (2 * k)" "0 < w" "w \<le> 1920" "0 < k" "k \<le> 640"
    "pixel_data (spu_alpha u) = Some table" "table_ok table" "waiting_stream P" "timely (timestamp P) u" "0 \<le> stamp" "stamp < 2 ^ 63"
  shows "yields (\<lambda>(ok, s'). ok \<and>
      yields (\<lambda>(ret, dp', src'). source_pending (queue_of src') = [] \<and>
        yields (\<lambda>P'. on_screen (posted (mRender P')) 0 \<and>
            d_data (last (posted (mRender P'))) = Some (concat (map colour_bytes
              (bitmap_words (RGBA_Pal (swapped_alpha (spu_alpha u))) w (2 * k) (shown_pixel table w odds evens)))))
          (handleMessage gen MSG_PTS_TIME_CHECK_SPU (P\<lparr>mParser := Some (Parser.truncate dp')\<rparr>)))
        (getInterSpu E external_read external_available video dp s'))
    (readLoop E (onData lang E) chunks s)"
proof -
  obtain s' where s': "readLoop E (onData lang E) chunks s = Some (True, s')" "source_live (queue_of s')"
    and pending: "source_pending (queue_of s') = source_pending (queue_of s) @ concat (map (\<lambda>(session, type, data). data) ps)"
    and available: "external_available s' = external_available s + int (length (concat (map (\<lambda>(session, type, data). data) ps)))"
    by (rule readLoop_data [OF assms(1-3,6-9)])
  have src: "source_pending (queue_of s') = unit_header len stamp @ pkt @ []" "external_available s' = 20 + len"
    using pending available assms(4,5,10,11) by simp_all
  let ?dp = "dp\<lparr>mState := (if mState dp = SUB_INIT then SUB_PLAYING else mState dp)\<rparr>"
  have dp: "mState ?dp \<noteq> SUB_STOP" "mState ?dp \<noteq> SUB_EXIT" "mDecodedSpu ?dp = []"
    using assms(13-15) by (simp_all add: SUB_PLAYING_def SUB_STOP_def SUB_EXIT_def)
  have "yields (\<lambda>(ret, dp', src'). ret = len \<and> source_pending (queue_of src') = [] \<and> source_live (queue_of src') \<and>
      (\<exists>item. dp' = addDecodedItem item ?dp \<and> shows_image item u w k table odds evens))
    (getInterSpu E external_read external_available video dp s')"
    by (rule byte_source.getInterSpu_unit [where available = external_available, OF external.byte_source_axioms s'(2) src(1) assms(5) src(2) assms(12,13,30,31,16,6,7,17-27)])
  moreover have "shown_as u = (False, False, False, 0)" unfolding assms(17) by (rule shown_as_unit)
  ultimately show ?thesis unfolding s'(1)
    by (auto simp: shows_image_def elim!: yields_mono
      intro!: yields_mono [OF decoded_unit_on_screen [OF assms(28,29) _ _ assms(22-25) dp]])
qed

lemma player_unit_on_screen_witness:
  "yields (\<lambda>(ok, s'). ok \<and>
      yields (\<lambda>(ret, dp', src'). source_pending (queue_of src') = [] \<and>
        yields (\<lambda>P'. on_screen (posted (mRender P')) 0 \<and>
            d_data (last (posted (mRender P'))) = Some (concat (map colour_bytes
              (bitmap_words (RGBA_Pal (swapped_alpha (spu_alpha lasting_unit))) 4 (2 * 1) (shown_pixel [1, 0, 2, 3] 4 [[(4, 1)]] [[(4, 2)]])))))
          (handleMessage (\<lambda>_. None) MSG_PTS_TIME_CHECK_SPU
            ((sample_stream 500000000 [] [] [])\<lparr>mParser := Some (Parser.truncate dp')\<rparr>)))
        (getInterSpu dvd_env external_read external_available (0, 0) new_dvd s'))
    (readLoop dvd_env (onData True dvd_env)
      [take 3 (encode_package player_package), drop 3 (encode_package player_package)] open_source)"
proof (rule player_unit_on_screen [where ps = "[player_package]" and stamp = 9000 and pkt = lasting_packet and len = 36 and offset = 6
      and cs = dvd_commands and qs = lasting_sequences and u = lasting_unit])
  show "lasting_unit = set_delay lasting_sequences (fold apply_command dvd_commands (unit_before 9000 6 lasting_packet))"
    by (rule lasting_unit_state [symmetric])
  show "field_in lasting_packet (nat (top_pxd_addr lasting_unit)) 4 1 [[(4, 1)]]"
    "field_in lasting_packet (nat (bottom_pxd_addr lasting_unit)) 4 1 [[(4, 2)]]"
    "pixel_data (spu_alpha lasting_unit) = Some [1, 0, 2, 3]"
    using lasting_packet_fields dvd_table(1) by (simp_all add: lasting_unit_def)
  show "table_ok [1, 0, 2, 3]" by (rule dvd_table(2))
  show "\<forall>p \<in> set [player_package]. \<exists>session data. p = (session, eTypeSubtitleData, data) \<and> data \<noteq> [] \<and> length data < 1048576 - 20"
    by (simp add: player_package_def unit_header_def) (simp add: lasting_packet_def)
  show "external_available open_source = 0"
    by (simp add: open_source_def start_source_def new_external_def external_available_def)
  show "mRestLen new_dvd = 0" "mState new_dvd \<noteq> SUB_STOP" "mState new_dvd \<noteq> SUB_EXIT" "mDecodedSpu new_dvd = []"
    by (simp_all add: new_dvd_def start_parser_def Parser.defs DvdParser.defs SUB_INIT_def SUB_STOP_def SUB_EXIT_def)
qed (simp_all add: player_package_length open_source_ready dvd_env_def lasting_packet_layout lasting_stream lasting_unit_timely
    player_package_def [symmetric], simp_all add: player_package_def lasting_unit_def)

end
